theory Spec2Isabelle
  imports Main "HOL-Library.Multiset"
begin

section \<open>Data model of the signal engine\<close>

text \<open>
  Values held by signals: undefined, null, integers, \<open>NaN\<close>, and function objects
  named by their identity (\<open>VFun f\<close> is the function object number \<open>f\<close>: every
  evaluation of a function expression yields a fresh one).
\<close>

datatype val = VUndef | VNull | VNum int | VNaN | VFun nat

text \<open>
  The source compares values with \<open>===\<close> and \<open>!==\<close>: on these values, identity,
  except that \<open>NaN === NaN\<close> is false.
\<close>

definition strict_eq :: "val \<Rightarrow> val \<Rightarrow> bool" where
  "strict_eq a b \<longleftrightarrow> a = b \<and> a \<noteq> VNaN"

text \<open>
  Nodes are named by their \<open>_id\<close> within their class.  A \<open>getter\<close> is a member
  of \<open>Capture._getters\<close> (\<open>RefState | ComputedState\<close>), a \<open>listener\<close> a member of a
  \<open>_listeners\<close> set (\<open>ComputedState | EffectState\<close>).
\<close>

datatype getter = GRef nat | GComputed nat

datatype listener = LComputed nat | LEffect nat

text \<open>The global \<open>recursive: false | "computed" | "effect"\<close>.\<close>

datatype mode = NoMode | ModeComputed | ModeEffect

text \<open>
  What a call can throw: the \<open>TypeError\<close> of \<open>assertRecursive\<close>, an exception of a
  user function, and \<open>Dangling\<close> for a handle that names no constructed node (no
  JavaScript object reference can dangle; the model needs the case to be total).
\<close>

datatype error = TypeError string | UserError | Dangling

text \<open>
  User functions (the bodies given to \<open>computed\<close>, \<open>effect\<close> and \<open>collect\<close>, and
  cleanup callbacks) are trees of the calls they make into the engine; the
  continuation receives what the call returns.
\<close>

datatype prog =
    Return val
  | Throw
  | GetValue getter "val \<Rightarrow> prog"
  | SetValue nat val prog
  | MkFun prog "val \<Rightarrow> prog"
  | NewRef val "nat \<Rightarrow> prog"
  | NewComputed prog "nat \<Rightarrow> prog"
  | NewEffect prog prog
  | Collect prog "val \<Rightarrow> nat list option \<Rightarrow> nat list option \<Rightarrow> nat list option \<Rightarrow> prog"

text \<open>
  The points of an execution that the claims order or count.  The log of these
  events is written by the model and read by no operation:
  \<open>EvCommit r v\<close>, \<open>RefState._update\<close> makes \<open>v\<close> the state of the leaf \<open>r\<close> (line 111);
  \<open>EvWrite r v\<close>, the setter of \<open>r\<close> stores \<open>v\<close> as the pending value (line 101);
  \<open>EvRead g v\<close>, the getter of \<open>g\<close> returns \<open>v\<close> (lines 95, 145);
  \<open>EvRun l\<close>, \<open>runCapture\<close> is called on the body of \<open>l\<close> (lines 133, 156, 198, 219);
  \<open>EvCleanup e f\<close>, the cleanup \<open>f\<close> stored in the effect \<open>e\<close> is called (lines 212, 228);
  \<open>EvUnlink l\<close>, the loop that deletes \<open>l\<close> from the listeners of its capture's getters
  has run (lines 150-152, 214-216, 230-232, 176-178);
  \<open>EvLink l\<close>, the loop that adds it has run (lines 136-138, 159-161, 201-203, 221-223).
\<close>

datatype event =
    EvCommit nat val
  | EvWrite nat val
  | EvRead getter val
  | EvRun listener
  | EvCleanup nat nat
  | EvUnlink listener
  | EvLink listener

record capture =
  getters :: "getter list"
  setters :: "nat list"

record refState =
  r_old :: val
  r_state :: val
  r_pending :: val
  r_listeners :: "listener list"

record computedState =
  c_fn :: prog
  c_old :: val
  c_state :: val
  c_capture :: capture
  c_listeners :: "listener list"

record effectState =
  e_fn :: prog
  e_capture :: capture
  e_clear :: val
  e_deleted :: bool

text \<open>
  The module's globals, the objects it has constructed (by \<open>_id\<close>), the function
  objects created so far, the number of \<open>setTimeout(updateStates)\<close> callbacks the host
  still has to run, and the event log.
\<close>

record world =
  currentCapture :: "capture option"
  dirtyStates :: "nat list"
  currentUpdate :: bool
  recursive :: mode
  refId :: nat
  computedId :: nat
  effectId :: nat
  currentRefs :: "nat list option"
  currentComputes :: "nat list option"
  currentEffects :: "nat list option"
  refs :: "nat \<Rightarrow> refState option"
  computeds :: "nat \<Rightarrow> computedState option"
  effects :: "nat \<Rightarrow> effectState option"
  closures :: "prog list"
  timers :: nat
  trace :: "event list"

definition init :: world where
  "init = \<lparr> currentCapture = None, dirtyStates = [], currentUpdate = False,
     recursive = NoMode, refId = 0, computedId = 0, effectId = 0,
     currentRefs = None, currentComputes = None, currentEffects = None,
     refs = (\<lambda>_. None), computeds = (\<lambda>_. None), effects = (\<lambda>_. None),
     closures = [], timers = 0, trace = [] \<rparr>"

text \<open>
  A JavaScript \<open>Set\<close> iterates in insertion order: it is a list without
  duplicates, \<open>add\<close> appends an absent element and \<open>delete\<close> removes the element.
\<close>

definition set_add :: "'a \<Rightarrow> 'a list \<Rightarrow> 'a list" where
  "set_add x xs = (if x \<in> set xs then xs else xs @ [x])"

definition set_delete :: "'a \<Rightarrow> 'a list \<Rightarrow> 'a list" where
  "set_delete x xs = removeAll x xs"

definition emptyCapture :: capture where
  "emptyCapture = \<lparr> getters = [], setters = [] \<rparr>"

definition log :: "event \<Rightarrow> world \<Rightarrow> world" where
  "log ev s = s\<lparr> trace := trace s @ [ev] \<rparr>"

section \<open>Scheduler entry\<close>

text \<open>\<open>enqueueUpdate\<close>, lines 27-33.\<close>

definition enqueueUpdate :: "nat \<Rightarrow> world \<Rightarrow> world" where
  "enqueueUpdate node s =
     (let s1 = s\<lparr> dirtyStates := set_add node (dirtyStates s) \<rparr>
      in if \<not> currentUpdate s1
         then s1\<lparr> currentUpdate := True, timers := Suc (timers s1) \<rparr>
         else s1)"

section \<open>The recursion guard\<close>

definition mode_name :: "mode \<Rightarrow> string" where
  "mode_name m = (case m of NoMode \<Rightarrow> ''false'' | ModeComputed \<Rightarrow> ''computed''
     | ModeEffect \<Rightarrow> ''effect'')"

text \<open>\<open>assertRecursive\<close>, lines 69-74: \<open>None\<close> when it returns, the error when it throws.\<close>

definition assertRecursive :: "string \<Rightarrow> world \<Rightarrow> error option" where
  "assertRecursive name s =
     (if recursive s \<noteq> NoMode
      then (if name = ''effect'' \<and> recursive s = ModeEffect then None
            else Some (TypeError (''Cannot construct '' @ name @ '' inside ''
                         @ mode_name (recursive s))))
      else None)"

section \<open>RefState\<close>

text \<open>\<open>currentCapture?._getters.add(this)\<close> and \<open>currentCapture?._setters.add(this)\<close>.\<close>

definition capture_get :: "getter \<Rightarrow> world \<Rightarrow> world" where
  "capture_get g s =
     (case currentCapture s of None \<Rightarrow> s
      | Some c \<Rightarrow> s\<lparr> currentCapture := Some (c\<lparr> getters := set_add g (getters c) \<rparr>) \<rparr>)"

definition capture_set :: "nat \<Rightarrow> world \<Rightarrow> world" where
  "capture_set r s =
     (case currentCapture s of None \<Rightarrow> s
      | Some c \<Rightarrow> s\<lparr> currentCapture := Some (c\<lparr> setters := set_add r (setters c) \<rparr>) \<rparr>)"

text \<open>The constructor, lines 84-91.\<close>

definition RefState_new :: "val \<Rightarrow> world \<Rightarrow> world \<times> (error + nat)" where
  "RefState_new init_v s =
     (case assertRecursive ''ref'' s of
        Some e \<Rightarrow> (s, Inl e)
      | None \<Rightarrow>
          (s\<lparr> refId := Suc (refId s),
              refs := (refs s)(refId s \<mapsto>
                \<lparr> r_old = init_v, r_state = init_v, r_pending = init_v, r_listeners = [] \<rparr>) \<rparr>,
           Inr (refId s)))"

text \<open>\<open>get value\<close>, lines 93-96.\<close>

definition ref_get :: "nat \<Rightarrow> world \<Rightarrow> (val \<times> world) option" where
  "ref_get r s =
     (case refs s r of None \<Rightarrow> None
      | Some x \<Rightarrow> Some (r_state x, log (EvRead (GRef r) (r_state x)) (capture_get (GRef r) s)))"

text \<open>
  \<open>set value\<close>, lines 98-104; the event records a write that stored a pending
  value (line 101).
\<close>

definition ref_set :: "nat \<Rightarrow> val \<Rightarrow> world \<Rightarrow> world option" where
  "ref_set r v s =
     (case refs s r of None \<Rightarrow> None
      | Some x \<Rightarrow>
          (let s1 = capture_set r s
           in if \<not> strict_eq v (r_state x)
              then Some (log (EvWrite r v)
                     (enqueueUpdate r (s1\<lparr> refs := (refs s1)(r \<mapsto> x\<lparr> r_pending := v \<rparr>) \<rparr>)))
              else Some s1))"

text \<open>\<open>_update\<close>, lines 106-113; the event records a commit that took place.\<close>

definition ref_update :: "nat \<Rightarrow> world \<Rightarrow> world \<times> bool" where
  "ref_update r s =
     (case refs s r of None \<Rightarrow> (s, False)
      | Some x \<Rightarrow>
          if strict_eq (r_state x) (r_pending x) then (s, False)
          else (log (EvCommit r (r_pending x))
                  (s\<lparr> refs := (refs s)(r \<mapsto> x\<lparr> r_old := r_state x, r_state := r_pending x \<rparr>) \<rparr>),
                True))"

section \<open>Dependency edges\<close>

definition listenersOf :: "world \<Rightarrow> getter \<Rightarrow> listener list" where
  "listenersOf s g =
     (case g of
        GRef r \<Rightarrow> (case refs s r of None \<Rightarrow> [] | Some x \<Rightarrow> r_listeners x)
      | GComputed c \<Rightarrow> (case computeds s c of None \<Rightarrow> [] | Some x \<Rightarrow> c_listeners x))"

definition captureOf :: "world \<Rightarrow> listener \<Rightarrow> capture" where
  "captureOf s l =
     (case l of
        LComputed c \<Rightarrow> (case computeds s c of None \<Rightarrow> emptyCapture | Some x \<Rightarrow> c_capture x)
      | LEffect e \<Rightarrow> (case effects s e of None \<Rightarrow> emptyCapture | Some x \<Rightarrow> e_capture x))"

text \<open>\<open>node._listeners.add(this)\<close> and \<open>node._listeners.delete(this)\<close>.\<close>

definition map_listeners :: "(listener list \<Rightarrow> listener list) \<Rightarrow> getter \<Rightarrow> world \<Rightarrow> world" where
  "map_listeners f g s =
     (case g of
        GRef r \<Rightarrow>
          (case refs s r of None \<Rightarrow> s
           | Some x \<Rightarrow> s\<lparr> refs := (refs s)(r \<mapsto> x\<lparr> r_listeners := f (r_listeners x) \<rparr>) \<rparr>)
      | GComputed c \<Rightarrow>
          (case computeds s c of None \<Rightarrow> s
           | Some x \<Rightarrow> s\<lparr> computeds := (computeds s)(c \<mapsto> x\<lparr> c_listeners := f (c_listeners x) \<rparr>) \<rparr>))"

text \<open>The loops \<open>for (const node of this._capture._getters) node._listeners.add/delete(this)\<close>.\<close>

definition link :: "listener \<Rightarrow> getter list \<Rightarrow> world \<Rightarrow> world" where
  "link l gs s = log (EvLink l) (fold (map_listeners (set_add l)) gs s)"

definition unlink :: "listener \<Rightarrow> getter list \<Rightarrow> world \<Rightarrow> world" where
  "unlink l gs s = log (EvUnlink l) (fold (map_listeners (set_delete l)) gs s)"

section \<open>runCapture\<close>

text \<open>
  \<open>runCapture\<close>, lines 237-245.  The caller's \<open>new Capture()\<close> is the empty capture
  installed here; what the reads and writes of \<open>fn\<close> added to it is returned with
  the result.  The \<open>finally\<close> restores \<open>currentCapture\<close> on both exits.
\<close>

definition runCapture ::
  "(world \<Rightarrow> world \<times> (error + val)) \<Rightarrow> world \<Rightarrow> world \<times> (error + val) \<times> capture" where
  "runCapture fn s =
     (let previousCapture = currentCapture s;
          (s1, r) = fn (s\<lparr> currentCapture := Some emptyCapture \<rparr>);
          cap = (case currentCapture s1 of None \<Rightarrow> emptyCapture | Some c \<Rightarrow> c)
      in (s1\<lparr> currentCapture := previousCapture \<rparr>, r, cap))"

section \<open>ComputedState\<close>

text \<open>
  The constructor, lines 125-141.  \<open>ev\<close> evaluates \<open>fn\<close>.  The object under
  construction is reachable by no one while \<open>fn\<close> runs, so it enters the store when
  \<open>fn\<close> has returned; when \<open>fn\<close> throws, \<open>recursive = false\<close> is not reached.
\<close>

definition ComputedState_new ::
  "(world \<Rightarrow> world \<times> (error + val)) \<Rightarrow> prog \<Rightarrow> world \<Rightarrow> world \<times> (error + nat)" where
  "ComputedState_new ev fn s =
     (case assertRecursive ''computed'' s of
        Some e \<Rightarrow> (s, Inl e)
      | None \<Rightarrow>
          (let this = computedId s;
               s1 = log (EvRun (LComputed this))
                      (s\<lparr> computedId := Suc this, recursive := ModeComputed \<rparr>);
               (s2, r, cap) = runCapture ev s1
           in case r of
                Inl e \<Rightarrow> (s2, Inl e)
              | Inr state \<Rightarrow>
                  (let s3 = s2\<lparr> recursive := NoMode \<rparr>;
                       s4 = s3\<lparr> computeds := (computeds s3)(this \<mapsto>
                              \<lparr> c_fn = fn, c_old = state, c_state = state,
                                c_capture = cap, c_listeners = [] \<rparr>) \<rparr>
                   in (link (LComputed this) (getters cap) s4, Inr this))))"

text \<open>\<open>get value\<close>, lines 143-146.\<close>

definition computed_get :: "nat \<Rightarrow> world \<Rightarrow> (val \<times> world) option" where
  "computed_get c s =
     (case computeds s c of None \<Rightarrow> None
      | Some x \<Rightarrow>
          Some (c_state x, log (EvRead (GComputed c) (c_state x)) (capture_get (GComputed c) s)))"

section \<open>EffectState\<close>

text \<open>The constructor, lines 190-205.\<close>

definition EffectState_new ::
  "(world \<Rightarrow> world \<times> (error + val)) \<Rightarrow> prog \<Rightarrow> world \<Rightarrow> world \<times> (error + nat)" where
  "EffectState_new ev fn s =
     (case assertRecursive ''effect'' s of
        Some e \<Rightarrow> (s, Inl e)
      | None \<Rightarrow>
          (let this = effectId s;
               s1 = log (EvRun (LEffect this))
                      (s\<lparr> effectId := Suc this, recursive := ModeEffect \<rparr>);
               (s2, r, cap) = runCapture ev s1
           in case r of
                Inl e \<Rightarrow> (s2, Inl e)
              | Inr clear \<Rightarrow>
                  (let s3 = s2\<lparr> recursive := NoMode \<rparr>;
                       s4 = s3\<lparr> effects := (effects s3)(this \<mapsto>
                              \<lparr> e_fn = fn, e_capture = cap, e_clear = clear,
                                e_deleted = False \<rparr>) \<rparr>
                   in (link (LEffect this) (getters cap) s4, Inr this))))"

section \<open>The public constructors and collect\<close>

text \<open>\<open>currentRefs?.push(state)\<close> and its two siblings, lines 255, 261, 267.\<close>

definition push_opt :: "nat \<Rightarrow> nat list option \<Rightarrow> nat list option" where
  "push_opt x l = (case l of None \<Rightarrow> None | Some xs \<Rightarrow> Some (xs @ [x]))"

text \<open>
  \<open>ref\<close>, lines 253-257.  The default parameter \<open>init = null\<close> replaces an argument
  that is \<open>undefined\<close>.
\<close>

definition ref :: "val \<Rightarrow> world \<Rightarrow> world \<times> (error + nat)" where
  "ref init_v s =
     (case RefState_new (if init_v = VUndef then VNull else init_v) s of
        (s1, Inl e) \<Rightarrow> (s1, Inl e)
      | (s1, Inr state) \<Rightarrow> (s1\<lparr> currentRefs := push_opt state (currentRefs s1) \<rparr>, Inr state))"

text \<open>\<open>computed\<close>, lines 259-263.\<close>

definition computed ::
  "(world \<Rightarrow> world \<times> (error + val)) \<Rightarrow> prog \<Rightarrow> world \<Rightarrow> world \<times> (error + nat)" where
  "computed ev fn s =
     (case ComputedState_new ev fn s of
        (s1, Inl e) \<Rightarrow> (s1, Inl e)
      | (s1, Inr state) \<Rightarrow>
          (s1\<lparr> currentComputes := push_opt state (currentComputes s1) \<rparr>, Inr state))"

text \<open>\<open>effect\<close>, lines 265-268.\<close>

definition effect ::
  "(world \<Rightarrow> world \<times> (error + val)) \<Rightarrow> prog \<Rightarrow> world \<Rightarrow> world \<times> (error + nat)" where
  "effect ev fn s =
     (case EffectState_new ev fn s of
        (s1, Inl e) \<Rightarrow> (s1, Inl e)
      | (s1, Inr state) \<Rightarrow>
          (s1\<lparr> currentEffects := push_opt state (currentEffects s1) \<rparr>, Inr state))"

text \<open>
  \<open>collect\<close>, lines 270-284.  The returned tuple reads the three globals when
  \<open>fn\<close> has returned; the \<open>finally\<close> sets them to \<open>null\<close> on both exits.
\<close>

type_synonym collected = "val \<times> nat list option \<times> nat list option \<times> nat list option"

definition collect ::
  "(world \<Rightarrow> world \<times> (error + val)) \<Rightarrow> world \<Rightarrow> world \<times> (error + collected)" where
  "collect ev s =
     (let s1 = s\<lparr> currentRefs := Some [], currentComputes := Some [], currentEffects := Some [] \<rparr>;
          (s2, r) = ev s1;
          s3 = s2\<lparr> currentRefs := None, currentComputes := None, currentEffects := None \<rparr>
      in case r of
           Inl e \<Rightarrow> (s3, Inl e)
         | Inr ret \<Rightarrow> (s3, Inr (ret, currentRefs s2, currentComputes s2, currentEffects s2)))"

section \<open>Running a user function\<close>

text \<open>
  \<open>run p s\<close> is the call of the user function \<open>p\<close> in the state \<open>s\<close>: the state it
  leaves and the value it returns or the exception it throws.  No user function
  catches an exception here, so an exception ends every enclosing function.
\<close>

definition read :: "getter \<Rightarrow> world \<Rightarrow> (val \<times> world) option" where
  "read g s = (case g of GRef r \<Rightarrow> ref_get r s | GComputed c \<Rightarrow> computed_get c s)"

primrec run :: "prog \<Rightarrow> world \<Rightarrow> world \<times> (error + val)" where
  "run (Return v) = (\<lambda>s. (s, Inr v))"
| "run Throw = (\<lambda>s. (s, Inl UserError))"
| "run (GetValue g k) = (\<lambda>s.
     case read g s of
       None \<Rightarrow> (s, Inl Dangling)
     | Some (v, s1) \<Rightarrow> run (k v) s1)"
| "run (SetValue r v k) = (\<lambda>s.
     case ref_set r v s of
       None \<Rightarrow> (s, Inl Dangling)
     | Some s1 \<Rightarrow> run k s1)"
| "run (MkFun body k) = (\<lambda>s.
     run (k (VFun (length (closures s)))) (s\<lparr> closures := closures s @ [body] \<rparr>))"
| "run (NewRef v k) = (\<lambda>s.
     case ref v s of
       (s1, Inl e) \<Rightarrow> (s1, Inl e)
     | (s1, Inr r) \<Rightarrow> run (k r) s1)"
| "run (NewComputed fn k) = (\<lambda>s.
     case computed (run fn) fn s of
       (s1, Inl e) \<Rightarrow> (s1, Inl e)
     | (s1, Inr c) \<Rightarrow> run (k c) s1)"
| "run (NewEffect fn k) = (\<lambda>s.
     case effect (run fn) fn s of
       (s1, Inl e) \<Rightarrow> (s1, Inl e)
     | (s1, Inr _) \<Rightarrow> run k s1)"
| "run (Collect fn k) = (\<lambda>s.
     case collect (run fn) s of
       (s1, Inl e) \<Rightarrow> (s1, Inl e)
     | (s1, Inr (ret, rs, cs, es)) \<Rightarrow> run (k ret rs cs es) s1)"

section \<open>Recomputing and removing nodes\<close>

definition set_c_capture :: "nat \<Rightarrow> capture \<Rightarrow> world \<Rightarrow> world" where
  "set_c_capture c cap s =
     (case computeds s c of None \<Rightarrow> s
      | Some x \<Rightarrow> s\<lparr> computeds := (computeds s)(c \<mapsto> x\<lparr> c_capture := cap \<rparr>) \<rparr>)"

text \<open>
  \<open>ComputedState._update\<close>, lines 148-173.  \<open>this._capture = new Capture()\<close>
  precedes the call of \<open>fn\<close>, so the node holds the new capture also when \<open>fn\<close>
  throws.  The method does not touch \<open>recursive\<close>.
\<close>

definition computed_update :: "nat \<Rightarrow> world \<Rightarrow> world \<times> (error + bool)" where
  "computed_update this s =
     (case computeds s this of
        None \<Rightarrow> (s, Inl Dangling)
      | Some x0 \<Rightarrow>
          (let s1 = unlink (LComputed this) (getters (c_capture x0)) s;
               (s2, r, cap) = runCapture (run (c_fn x0)) (log (EvRun (LComputed this)) s1);
               s3 = set_c_capture this cap s2
           in case r of
                Inl e \<Rightarrow> (s3, Inl e)
              | Inr state \<Rightarrow>
                  (let s4 = link (LComputed this) (getters cap) s3
                   in case computeds s4 this of
                        None \<Rightarrow> (s4, Inl Dangling)
                      | Some x \<Rightarrow>
                          if strict_eq state (c_state x) then (s4, Inr False)
                          else (s4\<lparr> computeds := (computeds s4)(this \<mapsto>
                                      x\<lparr> c_old := c_state x, c_state := state \<rparr>) \<rparr>,
                                Inr True))))"

text \<open>\<open>ComputedState._remove\<close>, lines 175-179.\<close>

definition computed_remove :: "nat \<Rightarrow> world \<Rightarrow> world" where
  "computed_remove this s =
     (case computeds s this of
        None \<Rightarrow> s
      | Some x \<Rightarrow> unlink (LComputed this) (getters (c_capture x)) s)"

text \<open>
  \<open>if (typeof this._clear === "function") this._clear()\<close>: the cleanup runs under
  whatever capture is current.
\<close>

definition call_clear :: "nat \<Rightarrow> val \<Rightarrow> world \<Rightarrow> world \<times> (error + val)" where
  "call_clear this clear s =
     (case clear of
        VFun f \<Rightarrow>
          if f < length (closures s) then run (closures s ! f) (log (EvCleanup this f) s)
          else (s, Inl Dangling)
      | _ \<Rightarrow> (s, Inr VUndef))"

definition set_e_capture :: "nat \<Rightarrow> capture \<Rightarrow> world \<Rightarrow> world" where
  "set_e_capture e cap s =
     (case effects s e of None \<Rightarrow> s
      | Some x \<Rightarrow> s\<lparr> effects := (effects s)(e \<mapsto> x\<lparr> e_capture := cap \<rparr>) \<rparr>)"

definition set_e_clear :: "nat \<Rightarrow> val \<Rightarrow> world \<Rightarrow> world" where
  "set_e_clear e clear s =
     (case effects s e of None \<Rightarrow> s
      | Some x \<Rightarrow> s\<lparr> effects := (effects s)(e \<mapsto> x\<lparr> e_clear := clear \<rparr>) \<rparr>)"

text \<open>
  \<open>EffectState._update\<close>, lines 207-224.  It returns nothing, which the scheduler's
  \<open>if (node._update())\<close> reads as false.
\<close>

definition effect_update :: "nat \<Rightarrow> world \<Rightarrow> world \<times> (error + bool)" where
  "effect_update this s =
     (case effects s this of
        None \<Rightarrow> (s, Inl Dangling)
      | Some x0 \<Rightarrow>
          if e_deleted x0 then (s, Inr False)
          else
            (case call_clear this (e_clear x0) s of
               (s0, Inl e) \<Rightarrow> (s0, Inl e)
             | (s0, Inr _) \<Rightarrow>
                 (let s1 = unlink (LEffect this) (getters (captureOf s0 (LEffect this))) s0;
                      (s2, r, cap) = runCapture (run (e_fn x0)) (log (EvRun (LEffect this)) s1);
                      s3 = set_e_capture this cap s2
                  in case r of
                       Inl e \<Rightarrow> (s3, Inl e)
                     | Inr clear \<Rightarrow>
                         (link (LEffect this) (getters cap) (set_e_clear this clear s3),
                          Inr False))))"

text \<open>\<open>EffectState._remove\<close>, lines 226-234.\<close>

definition effect_remove :: "nat \<Rightarrow> world \<Rightarrow> world \<times> (error + unit)" where
  "effect_remove this s =
     (case effects s this of
        None \<Rightarrow> (s, Inl Dangling)
      | Some x0 \<Rightarrow>
          (case call_clear this (e_clear x0) s of
             (s0, Inl e) \<Rightarrow> (s0, Inl e)
           | (s0, Inr _) \<Rightarrow>
               (let s1 = unlink (LEffect this) (getters (captureOf s0 (LEffect this))) s0
                in (case effects s1 this of
                      None \<Rightarrow> (s1, Inl Dangling)
                    | Some x \<Rightarrow>
                        (s1\<lparr> effects := (effects s1)(this \<mapsto> x\<lparr> e_deleted := True \<rparr>) \<rparr>,
                         Inr ())))))"

section \<open>The flush\<close>

text \<open>\<open>node._update()\<close> for a member of the queue.\<close>

definition node_update :: "listener \<Rightarrow> world \<Rightarrow> world \<times> (error + bool)" where
  "node_update node s =
     (case node of LComputed c \<Rightarrow> computed_update c s | LEffect e \<Rightarrow> effect_update e s)"

text \<open>
  What the scheduler pushes after \<open>node._update()\<close> returned \<open>changed\<close>, lines 56-62:
  the listeners of a \<open>ComputedState\<close> that changed, nothing otherwise.
\<close>

definition pushed :: "listener \<Rightarrow> bool \<Rightarrow> world \<Rightarrow> listener list" where
  "pushed node changed s =
     (if changed then (case node of LComputed c \<Rightarrow> listenersOf s (GComputed c) | LEffect _ \<Rightarrow> [])
      else [])"

text \<open>The loop over the snapshot \<open>dirty\<close>, lines 45-51.\<close>

fun commitLoop :: "nat list \<Rightarrow> listener list \<Rightarrow> world \<Rightarrow> listener list \<times> world" where
  "commitLoop [] queue s = (queue, s)"
| "commitLoop (refState # dirty) queue s =
     (case ref_update refState s of
        (s1, True) \<Rightarrow> commitLoop dirty (queue @ listenersOf s1 (GRef refState)) s1
      | (s1, False) \<Rightarrow> commitLoop dirty queue s1)"

text \<open>
  The loop \<open>while (queue.length > 0)\<close>, lines 53-63; \<open>queue.pop()\<close> takes the last
  element.  The loop need not end, so it runs on fuel: \<open>None\<close> is fuel exhausted,
  \<open>Some (s, Inl e)\<close> an exception of a user function leaving the flush.
\<close>

fun drain :: "nat \<Rightarrow> listener list \<Rightarrow> world \<Rightarrow> (world \<times> (error + unit)) option" where
  "drain fuel [] s = Some (s, Inr ())"
| "drain 0 (n # queue) s = None"
| "drain (Suc fuel) (n # queue) s =
     (let node = last (n # queue); rest = butlast (n # queue)
      in case node_update node s of
           (s1, Inl e) \<Rightarrow> Some (s1, Inl e)
         | (s1, Inr changed) \<Rightarrow> drain fuel (rest @ pushed node changed s1) s1)"

text \<open>One pass of the body of \<open>while (dirtyStates.size > 0)\<close>, lines 41-63.\<close>

definition round :: "nat \<Rightarrow> world \<Rightarrow> (world \<times> (error + unit)) option" where
  "round fuel s =
     (let dirty = dirtyStates s;
          s1 = s\<lparr> dirtyStates := [] \<rparr>;
          (queue, s2) = commitLoop dirty [] s1
      in drain fuel queue s2)"

text \<open>The loop \<open>while (dirtyStates.size > 0)\<close>, lines 40-64, on fuel.\<close>

fun rounds :: "nat \<Rightarrow> world \<Rightarrow> (world \<times> (error + unit)) option" where
  "rounds fuel s =
     (if dirtyStates s = [] then Some (s, Inr ())
      else (case fuel of
              0 \<Rightarrow> None
            | Suc n \<Rightarrow>
                (case round n s of
                   None \<Rightarrow> None
                 | Some (s1, Inl e) \<Rightarrow> Some (s1, Inl e)
                 | Some (s1, Inr _) \<Rightarrow> rounds n s1)))"

text \<open>\<open>updateStates\<close>, lines 35-65 (the \<open>console.log\<close> left out).\<close>

definition updateStates :: "nat \<Rightarrow> world \<Rightarrow> (world \<times> (error + unit)) option" where
  "updateStates fuel s = rounds fuel (s\<lparr> currentUpdate := False \<rparr>)"

text \<open>The host runs one pending \<open>setTimeout(updateStates)\<close> callback.\<close>

definition fire :: "nat \<Rightarrow> world \<Rightarrow> (world \<times> (error + unit)) option" where
  "fire fuel s =
     (if timers s = 0 then Some (s, Inr ())
      else updateStates fuel (s\<lparr> timers := timers s - 1 \<rparr>))"

section \<open>Well-formed states and what an evaluation leaves alone\<close>

text \<open>
  Every node has an \<open>_id\<close> below its class's counter: a constructor takes the
  counter's value.  \<open>old s l\<close> says that the listener \<open>l\<close> was numbered before \<open>s\<close>.
\<close>

definition old :: "world \<Rightarrow> listener \<Rightarrow> bool" where
  "old s l = (case l of LComputed c \<Rightarrow> c < computedId s | LEffect e \<Rightarrow> e < effectId s)"

definition present :: "world \<Rightarrow> getter \<Rightarrow> bool" where
  "present s g = (case g of GRef r \<Rightarrow> refs s r \<noteq> None | GComputed c \<Rightarrow> computeds s c \<noteq> None)"

definition committed :: "world \<Rightarrow> nat \<Rightarrow> val option" where
  "committed s r = map_option r_state (refs s r)"

definition pending :: "world \<Rightarrow> nat \<Rightarrow> val option" where
  "pending s r = map_option r_pending (refs s r)"

definition comp_core :: "world \<Rightarrow> nat \<Rightarrow> (prog \<times> val \<times> val \<times> capture) option" where
  "comp_core s c = map_option (\<lambda>x. (c_fn x, c_old x, c_state x, c_capture x)) (computeds s c)"

definition cur :: "world \<Rightarrow> capture" where
  "cur s = (case currentCapture s of None \<Rightarrow> emptyCapture | Some c \<Rightarrow> c)"

definition ids_ok :: "world \<Rightarrow> bool" where
  "ids_ok s \<longleftrightarrow>
     (\<forall>r. refs s r \<noteq> None \<longrightarrow> r < refId s) \<and>
     (\<forall>c. computeds s c \<noteq> None \<longrightarrow> c < computedId s) \<and>
     (\<forall>e. effects s e \<noteq> None \<longrightarrow> e < effectId s)"

text \<open>
  One half of the edge mirror, which every operation keeps: a listener entry names
  a node numbered before, whose last capture holds the source.
\<close>

definition mirror_sub :: "world \<Rightarrow> bool" where
  "mirror_sub s \<longleftrightarrow>
     (\<forall>g l. l \<in> set (listenersOf s g) \<longrightarrow> old s l \<and> g \<in> set (getters (captureOf s l)))"

definition wf :: "world \<Rightarrow> bool" where
  "wf s \<longleftrightarrow> ids_ok s \<and> mirror_sub s \<and> distinct (dirtyStates s)"

text \<open>
  The events a user function can cause: evaluations and links of nodes it
  constructs, writes, and reads; a read of a leaf that existed before returns the
  value committed then.
\<close>

definition fresh_ev :: "world \<Rightarrow> event \<Rightarrow> bool" where
  "fresh_ev s ev =
     (case ev of
        EvCommit _ _ \<Rightarrow> False
      | EvWrite _ _ \<Rightarrow> True
      | EvRead g v \<Rightarrow> (case g of GRef r \<Rightarrow> r < refId s \<longrightarrow> committed s r = Some v | GComputed _ \<Rightarrow> True)
      | EvRun l \<Rightarrow> \<not> old s l
      | EvCleanup _ _ \<Rightarrow> False
      | EvUnlink _ \<Rightarrow> False
      | EvLink l \<Rightarrow> \<not> old s l)"

text \<open>The events a recompute can cause: no commit, and the same reads.\<close>

definition calm :: "world \<Rightarrow> event \<Rightarrow> bool" where
  "calm s ev =
     (case ev of
        EvCommit _ _ \<Rightarrow> False
      | EvRead g v \<Rightarrow> (case g of GRef r \<Rightarrow> r < refId s \<longrightarrow> committed s r = Some v | GComputed _ \<Rightarrow> True)
      | _ \<Rightarrow> True)"

text \<open>
  \<open>ext s s'\<close>: what running a user function from \<open>s\<close> to \<open>s'\<close> leaves alone.  The
  counters only grow; the nodes numbered before keep their committed values,
  captures and membership in every listener set; the current capture gains only
  sources that exist; the log gains only events of \<open>fresh_ev\<close>.
\<close>

definition ext :: "world \<Rightarrow> world \<Rightarrow> bool" where
  "ext s s' \<longleftrightarrow>
     refId s \<le> refId s' \<and> computedId s \<le> computedId s' \<and> effectId s \<le> effectId s' \<and>
     (\<forall>g l. old s l \<longrightarrow> (l \<in> set (listenersOf s' g) \<longleftrightarrow> l \<in> set (listenersOf s g))) \<and>
     (\<forall>r. r < refId s \<longrightarrow> committed s' r = committed s r) \<and>
     (\<forall>c. c < computedId s \<longrightarrow> comp_core s' c = comp_core s c) \<and>
     (\<forall>e. e < effectId s \<longrightarrow> effects s' e = effects s e) \<and>
     (\<forall>g. present s g \<longrightarrow> present s' g) \<and>
     (currentCapture s' = None \<longleftrightarrow> currentCapture s = None) \<and>
     (\<forall>g. g \<in> set (getters (cur s')) \<longrightarrow> g \<in> set (getters (cur s)) \<or> present s' g) \<and>
     (\<exists>d. trace s' = trace s @ d \<and> (\<forall>ev \<in> set d. fresh_ev s ev))"

text \<open>\<open>stable s s'\<close>: what a recompute, and so a whole drain, leaves alone.\<close>

definition stable :: "world \<Rightarrow> world \<Rightarrow> bool" where
  "stable s s' \<longleftrightarrow>
     refId s \<le> refId s' \<and> computedId s \<le> computedId s' \<and> effectId s \<le> effectId s' \<and>
     (\<forall>r. r < refId s \<longrightarrow> committed s' r = committed s r) \<and>
     (\<exists>d. trace s' = trace s @ d \<and> (\<forall>ev \<in> set d. calm s ev))"

section \<open>Events of a flush\<close>

text \<open>
  What the cleanup call of an effect logs first: the event of the call when
  \<open>typeof this._clear === "function"\<close>, nothing otherwise.
\<close>

definition cleanup_events :: "nat \<Rightarrow> val \<Rightarrow> event list" where
  "cleanup_events this clear = (case clear of VFun f \<Rightarrow> [EvCleanup this f] | _ \<Rightarrow> [])"

text \<open>
  The commits that the loop over the snapshot \<open>rs\<close> performs from the state \<open>s\<close>: one
  for each leaf whose committed value is not \<open>===\<close> its pending value.
\<close>

definition commit_events :: "world \<Rightarrow> nat list \<Rightarrow> event list" where
  "commit_events s rs =
     concat (map (\<lambda>r. case (committed s r, pending s r) of
                         (Some c, Some v) \<Rightarrow> if strict_eq c v then [] else [EvCommit r v]
                       | _ \<Rightarrow> []) rs)"

definition is_commit :: "event \<Rightarrow> bool" where
  "is_commit ev = (case ev of EvCommit _ _ \<Rightarrow> True | _ \<Rightarrow> False)"

text \<open>The committed values after the loop over the snapshot \<open>rs\<close>.\<close>

definition after_commit :: "world \<Rightarrow> nat list \<Rightarrow> nat \<Rightarrow> val option" where
  "after_commit s rs r = (if r \<in> set rs then pending s r else committed s r)"

section \<open>What collect records\<close>

text \<open>
  The effects whose constructor completed, in the order of completion: the
  constructor's last step is the loop that links the node, which logs \<open>EvLink\<close>.
\<close>

definition linked_effects :: "event list \<Rightarrow> nat list" where
  "linked_effects d =
     concat (map (\<lambda>ev. case ev of EvLink l \<Rightarrow> (case l of LEffect e \<Rightarrow> [e] | LComputed _ \<Rightarrow> [])
                          | _ \<Rightarrow> []) d)"

text \<open>
  \<open>recorded s s'\<close>: a registration list that is still installed in \<open>s'\<close> was installed
  in \<open>s\<close> and has gained the nodes constructed in between: the leaves and the derived
  signals by ascending \<open>_id\<close>, the effects in the order their constructors completed.
\<close>

definition recorded :: "world \<Rightarrow> world \<Rightarrow> bool" where
  "recorded s s' \<longleftrightarrow>
     refId s \<le> refId s' \<and> computedId s \<le> computedId s' \<and> effectId s \<le> effectId s' \<and>
     (\<forall>l'. currentRefs s' = Some l' \<longrightarrow>
        (\<exists>l. currentRefs s = Some l \<and> l' = l @ [refId s..<refId s'])) \<and>
     (\<forall>l'. currentComputes s' = Some l' \<longrightarrow>
        (\<exists>l. currentComputes s = Some l \<and> l' = l @ [computedId s..<computedId s'])) \<and>
     (\<exists>d. trace s' = trace s @ d \<and>
        mset (linked_effects d) = mset [effectId s..<effectId s'] \<and>
        (\<forall>l'. currentEffects s' = Some l' \<longrightarrow>
           (\<exists>l. currentEffects s = Some l \<and> l' = l @ linked_effects d)))"

text \<open>
  \<open>idle s s'\<close>: from \<open>s\<close> to \<open>s'\<close> the mode stayed \<open>"computed"\<close> and no node was
  constructed.
\<close>

definition idle :: "world \<Rightarrow> world \<Rightarrow> bool" where
  "idle s s' \<longleftrightarrow> recursive s' = ModeComputed \<and> refId s' = refId s \<and>
     computedId s' = computedId s \<and> effectId s' = effectId s \<and>
     (\<exists>d. trace s' = trace s @ d \<and> linked_effects d = [])"

section \<open>Notions the claims use\<close>

text \<open>The commits of the leaf \<open>r\<close>.\<close>

definition commit_of :: "nat \<Rightarrow> event \<Rightarrow> bool" where
  "commit_of r ev = (case ev of EvCommit r' _ \<Rightarrow> r' = r | _ \<Rightarrow> False)"

text \<open>
  What \<open>ComputedState._update\<close> evaluates for the node \<open>this\<close> with fields \<open>x\<close>: the
  call \<open>runCapture(this._fn, this._capture)\<close> made when the old links are removed.
\<close>

definition reevaluate :: "nat \<Rightarrow> computedState \<Rightarrow> world \<Rightarrow> world \<times> (error + val) \<times> capture" where
  "reevaluate this x s =
     runCapture (run (c_fn x))
       (log (EvRun (LComputed this)) (unlink (LComputed this) (getters (c_capture x)) s))"

text \<open>The edge mirror of the node \<open>l\<close>: it listens to exactly the sources of its capture.\<close>

definition mirror_exact :: "world \<Rightarrow> listener \<Rightarrow> bool" where
  "mirror_exact s l \<longleftrightarrow>
     (\<forall>g. l \<in> set (listenersOf s g) \<longleftrightarrow> g \<in> set (getters (captureOf s l)))"

text \<open>
  \<open>tracked s s'\<close>: from \<open>s\<close> to \<open>s'\<close> the log only grew, every leaf that entered the
  dirty set was written (line 101 precedes the only call of \<open>enqueueUpdate\<close>), and
  no effect became deleted.
\<close>

definition tracked :: "world \<Rightarrow> world \<Rightarrow> bool" where
  "tracked s s' \<longleftrightarrow>
     (\<exists>d. trace s' = trace s @ d \<and>
        (\<forall>r \<in> set (dirtyStates s'). r \<in> set (dirtyStates s) \<or> (\<exists>v. EvWrite r v \<in> set d))) \<and>
     (\<forall>e x'. effects s' e = Some x' \<longrightarrow> e_deleted x' \<longrightarrow>
        (\<exists>x. effects s e = Some x \<and> e_deleted x))"

text \<open>
  The listener \<open>l\<close> was recomputed in the log \<open>d\<close> that starts in the state \<open>s\<close>: its
  \<open>_update\<close> ran its body, or it is an effect deleted in \<open>s\<close>, whose \<open>_update\<close>
  returns at once.
\<close>

definition recomputed :: "world \<Rightarrow> event list \<Rightarrow> listener \<Rightarrow> bool" where
  "recomputed s d l \<longleftrightarrow>
     EvRun l \<in> set d \<or> (\<exists>e x. l = LEffect e \<and> effects s e = Some x \<and> e_deleted x)"

text \<open>The work list that the loop over the snapshot \<open>rs\<close> builds, lines 45-51.\<close>

definition commit_queue :: "world \<Rightarrow> nat list \<Rightarrow> listener list" where
  "commit_queue s rs =
     concat (map (\<lambda>r. if commit_events s [r] = [] then [] else listenersOf s (GRef r)) rs)"

text \<open>
  A user function that makes no call of \<open>collect\<close>, whatever the calls it makes
  return; the functions it only creates (\<open>MkFun\<close>) are not called while it runs.
\<close>

primrec collect_free :: "prog \<Rightarrow> bool" where
  "collect_free (Return v) = True"
| "collect_free Throw = True"
| "collect_free (GetValue g k) = (\<forall>v. collect_free (k v))"
| "collect_free (SetValue r v k) = collect_free k"
| "collect_free (MkFun body k) = (\<forall>v. collect_free (k v))"
| "collect_free (NewRef v k) = (\<forall>r. collect_free (k r))"
| "collect_free (NewComputed fn k) = (collect_free fn \<and> (\<forall>c. collect_free (k c)))"
| "collect_free (NewEffect fn k) = (collect_free fn \<and> collect_free k)"
| "collect_free (Collect fn k) = False"

text \<open>The three registration targets are absent in \<open>s'\<close> exactly when they are in \<open>s\<close>.\<close>

definition targets_kept :: "world \<Rightarrow> world \<Rightarrow> bool" where
  "targets_kept s s' \<longleftrightarrow>
     (currentRefs s' = None \<longleftrightarrow> currentRefs s = None) \<and>
     (currentComputes s' = None \<longleftrightarrow> currentComputes s = None) \<and>
     (currentEffects s' = None \<longleftrightarrow> currentEffects s = None)"

section \<open>An example graph\<close>

text \<open>
  \<open>a = ref(1); b = computed(() => a.value); effect(() => { b.value; return () => {} })\<close>,
  run at top level from the initial state.
\<close>

definition demo :: prog where
  "demo = NewRef (VNum 1) (\<lambda>a.
            NewComputed (GetValue (GRef a) Return) (\<lambda>b.
              NewEffect (GetValue (GComputed b) (\<lambda>v. MkFun (Return VUndef) Return))
                (Return VUndef)))"

definition demo_state :: world where
  "demo_state = fst (run demo init)"

text \<open>The write \<open>r.value = v\<close> made at top level, for a leaf that exists.\<close>

definition written :: "nat \<Rightarrow> val \<Rightarrow> world \<Rightarrow> world" where
  "written r v s = (case ref_set r v s of None \<Rightarrow> s | Some s1 \<Rightarrow> s1)"

section \<open>Further examples\<close>



text \<open>\<open>a = ref(1); effect(() => { a.value; return () => { a.value = 5 } })\<close>.\<close>

definition tidy :: prog where
  "tidy = NewRef (VNum 1) (\<lambda>a.
     NewEffect (GetValue (GRef a) (\<lambda>v. MkFun (SetValue a (VNum 5) (Return VUndef)) Return))
       (Return VUndef))"

definition tidy_state :: world where
  "tidy_state = fst (run tidy init)"

text \<open>
  \<open>flag = ref(0); computed(() => flag.value === 1 ? (ref(5), 1) : 0); flag.value = 1\<close>.
\<close>

definition lazy :: prog where
  "lazy = NewRef (VNum 0) (\<lambda>flag.
     NewComputed (GetValue (GRef flag) (\<lambda>v.
         if strict_eq v (VNum 1) then NewRef (VNum 5) (\<lambda>r. Return (VNum 1)) else Return (VNum 0)))
       (\<lambda>c. SetValue flag (VNum 1) (Return VUndef)))"

definition lazy_state :: world where
  "lazy_state = fst (run lazy init)"

text \<open>\<open>r = ref(NaN); r.value = 2; r.value = NaN\<close>.\<close>

definition nan_back :: prog where
  "nan_back = NewRef VNaN (\<lambda>r. SetValue r (VNum 2) (SetValue r VNaN (Return VUndef)))"

definition nan_back_state :: world where
  "nan_back_state = fst (run nan_back init)"

section \<open>Properties of the model\<close>

lemmas flush_defs = fire_def updateStates_def round_def node_update_def pushed_def
  computed_update_def effect_update_def effect_remove_def call_clear_def ref_update_def ref_set_def
  ref_get_def computed_get_def read_def capture_get_def capture_set_def enqueueUpdate_def link_def
  unlink_def map_listeners_def set_add_def set_delete_def set_c_capture_def set_e_capture_def
  set_e_clear_def listenersOf_def captureOf_def emptyCapture_def push_opt_def collect_def
  strict_eq_def

lemmas ctor_defs = ref_def RefState_new_def computed_def ComputedState_new_def effect_def
  EffectState_new_def assertRecursive_def runCapture_def log_def mode_name_def Let_def

lemma prog_induct [case_names Return Throw GetValue SetValue MkFun NewRef NewComputed NewEffect Collect]:
  assumes "\<And>v. P (Return v)"
    and "P Throw"
    and "\<And>g k. (\<And>v. P (k v)) \<Longrightarrow> P (GetValue g k)"
    and "\<And>r v k. P k \<Longrightarrow> P (SetValue r v k)"
    and "\<And>body k. P body \<Longrightarrow> (\<And>v. P (k v)) \<Longrightarrow> P (MkFun body k)"
    and "\<And>v k. (\<And>r. P (k r)) \<Longrightarrow> P (NewRef v k)"
    and "\<And>fn k. P fn \<Longrightarrow> (\<And>c. P (k c)) \<Longrightarrow> P (NewComputed fn k)"
    and "\<And>fn k. P fn \<Longrightarrow> P k \<Longrightarrow> P (NewEffect fn k)"
    and "\<And>fn k. P fn \<Longrightarrow> (\<And>ret rs cs es. P (k ret rs cs es)) \<Longrightarrow> P (Collect fn k)"
  shows "P p"
proof (induction p)
  case (Collect fn k)
  show ?case
    by (rule assms(9)[OF Collect(1)]) (rule Collect(2)[OF rangeI rangeI rangeI rangeI])
qed (auto intro: assms)

subsection \<open>map_listeners, link, unlink\<close>

lemma map_listeners_fields [simp]:
  "currentCapture (map_listeners f g s) = currentCapture s"
  "dirtyStates (map_listeners f g s) = dirtyStates s"
  "currentUpdate (map_listeners f g s) = currentUpdate s"
  "recursive (map_listeners f g s) = recursive s"
  "refId (map_listeners f g s) = refId s"
  "computedId (map_listeners f g s) = computedId s"
  "effectId (map_listeners f g s) = effectId s"
  "currentRefs (map_listeners f g s) = currentRefs s"
  "currentComputes (map_listeners f g s) = currentComputes s"
  "currentEffects (map_listeners f g s) = currentEffects s"
  "effects (map_listeners f g s) = effects s"
  "closures (map_listeners f g s) = closures s"
  "timers (map_listeners f g s) = timers s"
  "trace (map_listeners f g s) = trace s"
  by (simp_all add: map_listeners_def split: getter.splits option.splits)

lemma map_listeners_obs [simp]:
  "committed (map_listeners f g s) = committed s"
  "pending (map_listeners f g s) = pending s"
  "comp_core (map_listeners f g s) = comp_core s"
  "present (map_listeners f g s) = present s"
  "old (map_listeners f g s) = old s"
  "captureOf (map_listeners f g s) = captureOf s"
  "cur (map_listeners f g s) = cur s"
  "ids_ok (map_listeners f g s) = ids_ok s"
  by (auto simp: map_listeners_def committed_def pending_def comp_core_def present_def old_def
      captureOf_def cur_def ids_ok_def fun_eq_iff split: getter.splits option.splits listener.splits)

lemma listenersOf_map_listeners:
  "listenersOf (map_listeners f g s) g' =
     (if g' = g \<and> present s g then f (listenersOf s g) else listenersOf s g')"
  by (auto simp: map_listeners_def listenersOf_def present_def split: getter.splits option.splits)

lemma fold_map_listeners_fields [simp]:
  "currentCapture (fold (map_listeners f) gs s) = currentCapture s"
  "dirtyStates (fold (map_listeners f) gs s) = dirtyStates s"
  "currentUpdate (fold (map_listeners f) gs s) = currentUpdate s"
  "recursive (fold (map_listeners f) gs s) = recursive s"
  "refId (fold (map_listeners f) gs s) = refId s"
  "computedId (fold (map_listeners f) gs s) = computedId s"
  "effectId (fold (map_listeners f) gs s) = effectId s"
  "currentRefs (fold (map_listeners f) gs s) = currentRefs s"
  "currentComputes (fold (map_listeners f) gs s) = currentComputes s"
  "currentEffects (fold (map_listeners f) gs s) = currentEffects s"
  "effects (fold (map_listeners f) gs s) = effects s"
  "closures (fold (map_listeners f) gs s) = closures s"
  "timers (fold (map_listeners f) gs s) = timers s"
  "trace (fold (map_listeners f) gs s) = trace s"
  by (induction gs arbitrary: s; simp)+

lemma fold_map_listeners_obs [simp]:
  "committed (fold (map_listeners f) gs s) = committed s"
  "pending (fold (map_listeners f) gs s) = pending s"
  "comp_core (fold (map_listeners f) gs s) = comp_core s"
  "present (fold (map_listeners f) gs s) = present s"
  "old (fold (map_listeners f) gs s) = old s"
  "captureOf (fold (map_listeners f) gs s) = captureOf s"
  "cur (fold (map_listeners f) gs s) = cur s"
  "ids_ok (fold (map_listeners f) gs s) = ids_ok s"
  by (induction gs arbitrary: s; simp)+

lemma set_set_add [simp]: "set (set_add x xs) = insert x (set xs)"
  by (auto simp: set_add_def)

lemma set_set_delete [simp]: "set (set_delete x xs) = set xs - {x}"
  by (auto simp: set_delete_def)

lemma distinct_set_add [simp]: "distinct (set_add x xs) = distinct xs"
  by (auto simp: set_add_def)

lemma listenersOf_absent: "\<not> present s g \<Longrightarrow> listenersOf s g = []"
  by (auto simp: present_def listenersOf_def split: getter.splits)

lemma set_listenersOf_fold_add:
  "set (listenersOf (fold (map_listeners (set_add l)) gs s) g) =
     (if g \<in> set gs \<and> present s g then insert l (set (listenersOf s g)) else set (listenersOf s g))"
  by (induction gs arbitrary: s) (auto simp: listenersOf_map_listeners)

lemma set_listenersOf_fold_delete:
  "set (listenersOf (fold (map_listeners (set_delete l)) gs s) g) =
     (if g \<in> set gs then set (listenersOf s g) - {l} else set (listenersOf s g))"
  by (induction gs arbitrary: s) (auto simp: listenersOf_map_listeners listenersOf_absent)

lemma link_fields [simp]:
  "currentCapture (link l gs s) = currentCapture s"
  "dirtyStates (link l gs s) = dirtyStates s"
  "currentUpdate (link l gs s) = currentUpdate s"
  "recursive (link l gs s) = recursive s"
  "refId (link l gs s) = refId s"
  "computedId (link l gs s) = computedId s"
  "effectId (link l gs s) = effectId s"
  "currentRefs (link l gs s) = currentRefs s"
  "currentComputes (link l gs s) = currentComputes s"
  "currentEffects (link l gs s) = currentEffects s"
  "effects (link l gs s) = effects s"
  "closures (link l gs s) = closures s"
  "timers (link l gs s) = timers s"
  "trace (link l gs s) = trace s @ [EvLink l]"
  by (simp_all add: link_def log_def)

lemma unlink_fields [simp]:
  "currentCapture (unlink l gs s) = currentCapture s"
  "dirtyStates (unlink l gs s) = dirtyStates s"
  "currentUpdate (unlink l gs s) = currentUpdate s"
  "recursive (unlink l gs s) = recursive s"
  "refId (unlink l gs s) = refId s"
  "computedId (unlink l gs s) = computedId s"
  "effectId (unlink l gs s) = effectId s"
  "currentRefs (unlink l gs s) = currentRefs s"
  "currentComputes (unlink l gs s) = currentComputes s"
  "currentEffects (unlink l gs s) = currentEffects s"
  "effects (unlink l gs s) = effects s"
  "closures (unlink l gs s) = closures s"
  "timers (unlink l gs s) = timers s"
  "trace (unlink l gs s) = trace s @ [EvUnlink l]"
  by (simp_all add: unlink_def log_def)

lemma log_fields [simp]:
  "currentCapture (log ev s) = currentCapture s"
  "dirtyStates (log ev s) = dirtyStates s"
  "currentUpdate (log ev s) = currentUpdate s"
  "recursive (log ev s) = recursive s"
  "refId (log ev s) = refId s"
  "computedId (log ev s) = computedId s"
  "effectId (log ev s) = effectId s"
  "currentRefs (log ev s) = currentRefs s"
  "currentComputes (log ev s) = currentComputes s"
  "currentEffects (log ev s) = currentEffects s"
  "refs (log ev s) = refs s"
  "computeds (log ev s) = computeds s"
  "effects (log ev s) = effects s"
  "closures (log ev s) = closures s"
  "timers (log ev s) = timers s"
  "trace (log ev s) = trace s @ [ev]"
  by (simp_all add: log_def)

lemma log_obs [simp]:
  "committed (log ev s) = committed s"
  "pending (log ev s) = pending s"
  "comp_core (log ev s) = comp_core s"
  "present (log ev s) = present s"
  "old (log ev s) = old s"
  "captureOf (log ev s) = captureOf s"
  "listenersOf (log ev s) = listenersOf s"
  "cur (log ev s) = cur s"
  "ids_ok (log ev s) = ids_ok s"
  by (auto simp: log_def committed_def pending_def comp_core_def present_def old_def
      captureOf_def cur_def ids_ok_def listenersOf_def fun_eq_iff
      split: getter.splits listener.splits)

lemma link_obs [simp]:
  "committed (link l gs s) = committed s"
  "pending (link l gs s) = pending s"
  "comp_core (link l gs s) = comp_core s"
  "present (link l gs s) = present s"
  "old (link l gs s) = old s"
  "captureOf (link l gs s) = captureOf s"
  "cur (link l gs s) = cur s"
  "ids_ok (link l gs s) = ids_ok s"
  by (simp_all add: link_def)

lemma unlink_obs [simp]:
  "committed (unlink l gs s) = committed s"
  "pending (unlink l gs s) = pending s"
  "comp_core (unlink l gs s) = comp_core s"
  "present (unlink l gs s) = present s"
  "old (unlink l gs s) = old s"
  "captureOf (unlink l gs s) = captureOf s"
  "cur (unlink l gs s) = cur s"
  "ids_ok (unlink l gs s) = ids_ok s"
  by (simp_all add: unlink_def)

lemma set_listenersOf_link:
  "set (listenersOf (link l gs s) g) =
     (if g \<in> set gs \<and> present s g then insert l (set (listenersOf s g)) else set (listenersOf s g))"
  by (simp add: link_def set_listenersOf_fold_add)

lemma set_listenersOf_unlink:
  "set (listenersOf (unlink l gs s) g) =
     (if g \<in> set gs then set (listenersOf s g) - {l} else set (listenersOf s g))"
  by (simp add: unlink_def set_listenersOf_fold_delete)

subsection \<open>Fields an observation does not read\<close>

lemma listenersOf_frame [simp]:
  "listenersOf (currentCapture_update f0 s) = listenersOf s"
  "listenersOf (dirtyStates_update f1 s) = listenersOf s"
  "listenersOf (currentUpdate_update f2 s) = listenersOf s"
  "listenersOf (recursive_update f3 s) = listenersOf s"
  "listenersOf (refId_update f4 s) = listenersOf s"
  "listenersOf (computedId_update f5 s) = listenersOf s"
  "listenersOf (effectId_update f6 s) = listenersOf s"
  "listenersOf (currentRefs_update f7 s) = listenersOf s"
  "listenersOf (currentComputes_update f8 s) = listenersOf s"
  "listenersOf (currentEffects_update f9 s) = listenersOf s"
  "listenersOf (effects_update f12 s) = listenersOf s"
  "listenersOf (closures_update f13 s) = listenersOf s"
  "listenersOf (timers_update f14 s) = listenersOf s"
  "listenersOf (trace_update f15 s) = listenersOf s"
  by (auto simp: listenersOf_def fun_eq_iff split: getter.splits listener.splits)

lemma captureOf_frame [simp]:
  "captureOf (currentCapture_update f0 s) = captureOf s"
  "captureOf (dirtyStates_update f1 s) = captureOf s"
  "captureOf (currentUpdate_update f2 s) = captureOf s"
  "captureOf (recursive_update f3 s) = captureOf s"
  "captureOf (refId_update f4 s) = captureOf s"
  "captureOf (computedId_update f5 s) = captureOf s"
  "captureOf (effectId_update f6 s) = captureOf s"
  "captureOf (currentRefs_update f7 s) = captureOf s"
  "captureOf (currentComputes_update f8 s) = captureOf s"
  "captureOf (currentEffects_update f9 s) = captureOf s"
  "captureOf (refs_update f10 s) = captureOf s"
  "captureOf (closures_update f13 s) = captureOf s"
  "captureOf (timers_update f14 s) = captureOf s"
  "captureOf (trace_update f15 s) = captureOf s"
  by (auto simp: captureOf_def fun_eq_iff split: getter.splits listener.splits)

lemma committed_frame [simp]:
  "committed (currentCapture_update f0 s) = committed s"
  "committed (dirtyStates_update f1 s) = committed s"
  "committed (currentUpdate_update f2 s) = committed s"
  "committed (recursive_update f3 s) = committed s"
  "committed (refId_update f4 s) = committed s"
  "committed (computedId_update f5 s) = committed s"
  "committed (effectId_update f6 s) = committed s"
  "committed (currentRefs_update f7 s) = committed s"
  "committed (currentComputes_update f8 s) = committed s"
  "committed (currentEffects_update f9 s) = committed s"
  "committed (computeds_update f11 s) = committed s"
  "committed (effects_update f12 s) = committed s"
  "committed (closures_update f13 s) = committed s"
  "committed (timers_update f14 s) = committed s"
  "committed (trace_update f15 s) = committed s"
  by (auto simp: committed_def fun_eq_iff split: getter.splits listener.splits)

lemma pending_frame [simp]:
  "pending (currentCapture_update f0 s) = pending s"
  "pending (dirtyStates_update f1 s) = pending s"
  "pending (currentUpdate_update f2 s) = pending s"
  "pending (recursive_update f3 s) = pending s"
  "pending (refId_update f4 s) = pending s"
  "pending (computedId_update f5 s) = pending s"
  "pending (effectId_update f6 s) = pending s"
  "pending (currentRefs_update f7 s) = pending s"
  "pending (currentComputes_update f8 s) = pending s"
  "pending (currentEffects_update f9 s) = pending s"
  "pending (computeds_update f11 s) = pending s"
  "pending (effects_update f12 s) = pending s"
  "pending (closures_update f13 s) = pending s"
  "pending (timers_update f14 s) = pending s"
  "pending (trace_update f15 s) = pending s"
  by (auto simp: pending_def fun_eq_iff split: getter.splits listener.splits)

lemma comp_core_frame [simp]:
  "comp_core (currentCapture_update f0 s) = comp_core s"
  "comp_core (dirtyStates_update f1 s) = comp_core s"
  "comp_core (currentUpdate_update f2 s) = comp_core s"
  "comp_core (recursive_update f3 s) = comp_core s"
  "comp_core (refId_update f4 s) = comp_core s"
  "comp_core (computedId_update f5 s) = comp_core s"
  "comp_core (effectId_update f6 s) = comp_core s"
  "comp_core (currentRefs_update f7 s) = comp_core s"
  "comp_core (currentComputes_update f8 s) = comp_core s"
  "comp_core (currentEffects_update f9 s) = comp_core s"
  "comp_core (refs_update f10 s) = comp_core s"
  "comp_core (effects_update f12 s) = comp_core s"
  "comp_core (closures_update f13 s) = comp_core s"
  "comp_core (timers_update f14 s) = comp_core s"
  "comp_core (trace_update f15 s) = comp_core s"
  by (auto simp: comp_core_def fun_eq_iff split: getter.splits listener.splits)

lemma present_frame [simp]:
  "present (currentCapture_update f0 s) = present s"
  "present (dirtyStates_update f1 s) = present s"
  "present (currentUpdate_update f2 s) = present s"
  "present (recursive_update f3 s) = present s"
  "present (refId_update f4 s) = present s"
  "present (computedId_update f5 s) = present s"
  "present (effectId_update f6 s) = present s"
  "present (currentRefs_update f7 s) = present s"
  "present (currentComputes_update f8 s) = present s"
  "present (currentEffects_update f9 s) = present s"
  "present (effects_update f12 s) = present s"
  "present (closures_update f13 s) = present s"
  "present (timers_update f14 s) = present s"
  "present (trace_update f15 s) = present s"
  by (auto simp: present_def fun_eq_iff split: getter.splits listener.splits)

lemma old_frame [simp]:
  "old (currentCapture_update f0 s) = old s"
  "old (dirtyStates_update f1 s) = old s"
  "old (currentUpdate_update f2 s) = old s"
  "old (recursive_update f3 s) = old s"
  "old (refId_update f4 s) = old s"
  "old (currentRefs_update f7 s) = old s"
  "old (currentComputes_update f8 s) = old s"
  "old (currentEffects_update f9 s) = old s"
  "old (refs_update f10 s) = old s"
  "old (computeds_update f11 s) = old s"
  "old (effects_update f12 s) = old s"
  "old (closures_update f13 s) = old s"
  "old (timers_update f14 s) = old s"
  "old (trace_update f15 s) = old s"
  by (auto simp: old_def fun_eq_iff split: getter.splits listener.splits)

lemma cur_frame [simp]:
  "cur (dirtyStates_update f1 s) = cur s"
  "cur (currentUpdate_update f2 s) = cur s"
  "cur (recursive_update f3 s) = cur s"
  "cur (refId_update f4 s) = cur s"
  "cur (computedId_update f5 s) = cur s"
  "cur (effectId_update f6 s) = cur s"
  "cur (currentRefs_update f7 s) = cur s"
  "cur (currentComputes_update f8 s) = cur s"
  "cur (currentEffects_update f9 s) = cur s"
  "cur (refs_update f10 s) = cur s"
  "cur (computeds_update f11 s) = cur s"
  "cur (effects_update f12 s) = cur s"
  "cur (closures_update f13 s) = cur s"
  "cur (timers_update f14 s) = cur s"
  "cur (trace_update f15 s) = cur s"
  by (auto simp: cur_def fun_eq_iff split: getter.splits listener.splits)

lemma ids_ok_frame [simp]:
  "ids_ok (currentCapture_update f0 s) = ids_ok s"
  "ids_ok (dirtyStates_update f1 s) = ids_ok s"
  "ids_ok (currentUpdate_update f2 s) = ids_ok s"
  "ids_ok (recursive_update f3 s) = ids_ok s"
  "ids_ok (currentRefs_update f7 s) = ids_ok s"
  "ids_ok (currentComputes_update f8 s) = ids_ok s"
  "ids_ok (currentEffects_update f9 s) = ids_ok s"
  "ids_ok (closures_update f13 s) = ids_ok s"
  "ids_ok (timers_update f14 s) = ids_ok s"
  "ids_ok (trace_update f15 s) = ids_ok s"
  by (auto simp: ids_ok_def fun_eq_iff split: getter.splits listener.splits)

lemma fresh_ev_frame [simp]:
  "fresh_ev (currentCapture_update f0 s) = fresh_ev s"
  "fresh_ev (dirtyStates_update f1 s) = fresh_ev s"
  "fresh_ev (currentUpdate_update f2 s) = fresh_ev s"
  "fresh_ev (recursive_update f3 s) = fresh_ev s"
  "fresh_ev (currentRefs_update f7 s) = fresh_ev s"
  "fresh_ev (currentComputes_update f8 s) = fresh_ev s"
  "fresh_ev (currentEffects_update f9 s) = fresh_ev s"
  "fresh_ev (computeds_update f11 s) = fresh_ev s"
  "fresh_ev (effects_update f12 s) = fresh_ev s"
  "fresh_ev (closures_update f13 s) = fresh_ev s"
  "fresh_ev (timers_update f14 s) = fresh_ev s"
  "fresh_ev (trace_update f15 s) = fresh_ev s"
  by (auto simp: fresh_ev_def fun_eq_iff split: event.splits getter.splits)

lemma calm_frame [simp]:
  "calm (currentCapture_update f0 s) = calm s"
  "calm (dirtyStates_update f1 s) = calm s"
  "calm (currentUpdate_update f2 s) = calm s"
  "calm (recursive_update f3 s) = calm s"
  "calm (computedId_update f5 s) = calm s"
  "calm (effectId_update f6 s) = calm s"
  "calm (currentRefs_update f7 s) = calm s"
  "calm (currentComputes_update f8 s) = calm s"
  "calm (currentEffects_update f9 s) = calm s"
  "calm (computeds_update f11 s) = calm s"
  "calm (effects_update f12 s) = calm s"
  "calm (closures_update f13 s) = calm s"
  "calm (timers_update f14 s) = calm s"
  "calm (trace_update f15 s) = calm s"
  by (auto simp: calm_def fun_eq_iff split: event.splits getter.splits)

lemma mirror_sub_frame [simp]:
  "mirror_sub (currentCapture_update f0 s) = mirror_sub s"
  "mirror_sub (dirtyStates_update f1 s) = mirror_sub s"
  "mirror_sub (currentUpdate_update f2 s) = mirror_sub s"
  "mirror_sub (recursive_update f3 s) = mirror_sub s"
  "mirror_sub (refId_update f4 s) = mirror_sub s"
  "mirror_sub (currentRefs_update f7 s) = mirror_sub s"
  "mirror_sub (currentComputes_update f8 s) = mirror_sub s"
  "mirror_sub (currentEffects_update f9 s) = mirror_sub s"
  "mirror_sub (closures_update f13 s) = mirror_sub s"
  "mirror_sub (timers_update f14 s) = mirror_sub s"
  "mirror_sub (trace_update f15 s) = mirror_sub s"
  by (simp_all add: mirror_sub_def)

lemma wf_frame [simp]:
  "wf (currentCapture_update f0 s) = wf s"
  "wf (currentUpdate_update f2 s) = wf s"
  "wf (recursive_update f3 s) = wf s"
  "wf (currentRefs_update f7 s) = wf s"
  "wf (currentComputes_update f8 s) = wf s"
  "wf (currentEffects_update f9 s) = wf s"
  "wf (closures_update f13 s) = wf s"
  "wf (timers_update f14 s) = wf s"
  "wf (trace_update f15 s) = wf s"
  by (simp_all add: wf_def)

lemma ext_frame [simp]:
  "ext s (dirtyStates_update f1 s') = ext s s'"
  "ext s (currentUpdate_update f2 s') = ext s s'"
  "ext s (recursive_update f3 s') = ext s s'"
  "ext s (currentRefs_update f7 s') = ext s s'"
  "ext s (currentComputes_update f8 s') = ext s s'"
  "ext s (currentEffects_update f9 s') = ext s s'"
  "ext s (closures_update f13 s') = ext s s'"
  "ext s (timers_update f14 s') = ext s s'"
  "ext (dirtyStates_update f1 s) s' = ext s s'"
  "ext (currentUpdate_update f2 s) s' = ext s s'"
  "ext (recursive_update f3 s) s' = ext s s'"
  "ext (currentRefs_update f7 s) s' = ext s s'"
  "ext (currentComputes_update f8 s) s' = ext s s'"
  "ext (currentEffects_update f9 s) s' = ext s s'"
  "ext (closures_update f13 s) s' = ext s s'"
  "ext (timers_update f14 s) s' = ext s s'"
  by (simp_all add: ext_def)

lemma stable_frame [simp]:
  "stable s (currentCapture_update f0 s') = stable s s'"
  "stable s (dirtyStates_update f1 s') = stable s s'"
  "stable s (currentUpdate_update f2 s') = stable s s'"
  "stable s (recursive_update f3 s') = stable s s'"
  "stable s (currentRefs_update f7 s') = stable s s'"
  "stable s (currentComputes_update f8 s') = stable s s'"
  "stable s (currentEffects_update f9 s') = stable s s'"
  "stable s (computeds_update f11 s') = stable s s'"
  "stable s (effects_update f12 s') = stable s s'"
  "stable s (closures_update f13 s') = stable s s'"
  "stable s (timers_update f14 s') = stable s s'"
  "stable (currentCapture_update f0 s) s' = stable s s'"
  "stable (dirtyStates_update f1 s) s' = stable s s'"
  "stable (currentUpdate_update f2 s) s' = stable s s'"
  "stable (recursive_update f3 s) s' = stable s s'"
  "stable (currentRefs_update f7 s) s' = stable s s'"
  "stable (currentComputes_update f8 s) s' = stable s s'"
  "stable (currentEffects_update f9 s) s' = stable s s'"
  "stable (computeds_update f11 s) s' = stable s s'"
  "stable (effects_update f12 s) s' = stable s s'"
  "stable (closures_update f13 s) s' = stable s s'"
  "stable (timers_update f14 s) s' = stable s s'"
  by (simp_all add: stable_def)

subsection \<open>The frame relations are preorders\<close>

lemma old_mono:
  "computedId s \<le> computedId s' \<Longrightarrow> effectId s \<le> effectId s' \<Longrightarrow> old s l \<Longrightarrow> old s' l"
  by (auto simp: old_def split: listener.splits)

lemma ext_refl [simp]: "ext s s"
  by (simp add: ext_def)

lemma fresh_ev_back:
  assumes "ext s s'" "fresh_ev s' ev"
  shows "fresh_ev s ev"
  using assms
  by (auto simp: ext_def fresh_ev_def old_def split: event.splits getter.splits listener.splits)

lemma ext_trans:
  assumes a: "ext s s'" and b: "ext s' s''"
  shows "ext s s''"
proof -
  have o: "\<And>l. old s l \<Longrightarrow> old s' l"
    using a by (auto simp: ext_def intro: old_mono)
  obtain d1 where d1: "trace s' = trace s @ d1" "\<forall>ev \<in> set d1. fresh_ev s ev"
    using a by (auto simp: ext_def)
  obtain d2 where d2: "trace s'' = trace s' @ d2" "\<forall>ev \<in> set d2. fresh_ev s' ev"
    using b by (auto simp: ext_def)
  have tr: "\<exists>d. trace s'' = trace s @ d \<and> (\<forall>ev \<in> set d. fresh_ev s ev)"
    using d1 d2 fresh_ev_back[OF a] by (intro exI[of _ "d1 @ d2"]) auto
  have li: "\<forall>g l. old s l \<longrightarrow> (l \<in> set (listenersOf s'' g) \<longleftrightarrow> l \<in> set (listenersOf s g))"
    using a b o by (simp add: ext_def)
  have rest: "refId s \<le> refId s'' \<and> computedId s \<le> computedId s'' \<and> effectId s \<le> effectId s'' \<and>
     (\<forall>r. r < refId s \<longrightarrow> committed s'' r = committed s r) \<and>
     (\<forall>c. c < computedId s \<longrightarrow> comp_core s'' c = comp_core s c) \<and>
     (\<forall>e. e < effectId s \<longrightarrow> effects s'' e = effects s e) \<and>
     (\<forall>g. present s g \<longrightarrow> present s'' g) \<and>
     (currentCapture s'' = None \<longleftrightarrow> currentCapture s = None)"
    using a b by (auto simp: ext_def)
  have cp: "\<forall>g. g \<in> set (getters (cur s'')) \<longrightarrow> g \<in> set (getters (cur s)) \<or> present s'' g"
    using a b by (auto simp: ext_def)
  show ?thesis
    unfolding ext_def using tr li rest cp by blast
qed

lemma ext_stable: "ext s s' \<Longrightarrow> stable s s'"
  by (auto simp: ext_def stable_def fresh_ev_def calm_def split: event.splits getter.splits)

lemma stable_refl [simp]: "stable s s"
  by (simp add: stable_def)

lemma calm_back:
  assumes "stable s s'" "calm s' ev"
  shows "calm s ev"
  using assms
  by (auto simp: stable_def calm_def split: event.splits getter.splits)

lemma stable_trans:
  assumes a: "stable s s'" and b: "stable s' s''"
  shows "stable s s''"
proof -
  obtain d1 where d1: "trace s' = trace s @ d1" "\<forall>ev \<in> set d1. calm s ev"
    using a by (auto simp: stable_def)
  obtain d2 where d2: "trace s'' = trace s' @ d2" "\<forall>ev \<in> set d2. calm s' ev"
    using b by (auto simp: stable_def)
  have tr: "\<exists>d. trace s'' = trace s @ d \<and> (\<forall>ev \<in> set d. calm s ev)"
    using d1 d2 calm_back[OF a] by (intro exI[of _ "d1 @ d2"]) auto
  have rest: "refId s \<le> refId s'' \<and> computedId s \<le> computedId s'' \<and> effectId s \<le> effectId s'' \<and>
     (\<forall>r. r < refId s \<longrightarrow> committed s'' r = committed s r)"
    using a b by (auto simp: stable_def)
  show ?thesis
    unfolding stable_def using tr rest by blast
qed

subsection \<open>Reads and writes\<close>

lemma capture_get_obs [simp]:
  "committed (capture_get g s) = committed s"
  "pending (capture_get g s) = pending s"
  "comp_core (capture_get g s) = comp_core s"
  "present (capture_get g s) = present s"
  "old (capture_get g s) = old s"
  "captureOf (capture_get g s) = captureOf s"
  "listenersOf (capture_get g s) = listenersOf s"
  "ids_ok (capture_get g s) = ids_ok s"
  "mirror_sub (capture_get g s) = mirror_sub s"
  "wf (capture_get g s) = wf s"
  "refId (capture_get g s) = refId s"
  "computedId (capture_get g s) = computedId s"
  "effectId (capture_get g s) = effectId s"
  "effects (capture_get g s) = effects s"
  "refs (capture_get g s) = refs s"
  "computeds (capture_get g s) = computeds s"
  "trace (capture_get g s) = trace s"
  "dirtyStates (capture_get g s) = dirtyStates s"
  "recursive (capture_get g s) = recursive s"
  "(currentCapture (capture_get g s) = None) = (currentCapture s = None)"
  by (simp_all add: capture_get_def split: option.splits)

lemma cur_capture_get:
  "set (getters (cur (capture_get g s))) \<subseteq> insert g (set (getters (cur s)))"
  by (auto simp: capture_get_def cur_def split: option.splits)

lemma capture_set_obs [simp]:
  "committed (capture_set r s) = committed s"
  "pending (capture_set r s) = pending s"
  "comp_core (capture_set r s) = comp_core s"
  "present (capture_set r s) = present s"
  "old (capture_set r s) = old s"
  "captureOf (capture_set r s) = captureOf s"
  "listenersOf (capture_set r s) = listenersOf s"
  "ids_ok (capture_set r s) = ids_ok s"
  "mirror_sub (capture_set r s) = mirror_sub s"
  "wf (capture_set r s) = wf s"
  "refId (capture_set r s) = refId s"
  "computedId (capture_set r s) = computedId s"
  "effectId (capture_set r s) = effectId s"
  "effects (capture_set r s) = effects s"
  "refs (capture_set r s) = refs s"
  "computeds (capture_set r s) = computeds s"
  "trace (capture_set r s) = trace s"
  "dirtyStates (capture_set r s) = dirtyStates s"
  "currentUpdate (capture_set r s) = currentUpdate s"
  "recursive (capture_set r s) = recursive s"
  "timers (capture_set r s) = timers s"
  "(currentCapture (capture_set r s) = None) = (currentCapture s = None)"
  "getters (cur (capture_set r s)) = getters (cur s)"
  by (simp_all add: capture_set_def cur_def split: option.splits)

lemma read_ext:
  assumes "read g s = Some (v, s1)"
  shows "ext s s1" "present s g" "wf s \<Longrightarrow> wf s1"
proof -
  have p: "present s g"
    using assms
    by (auto simp: read_def ref_get_def computed_get_def present_def
        split: getter.splits option.splits)
  have s1: "s1 = log (EvRead g v) (capture_get g s)"
    using assms
    by (auto simp: read_def ref_get_def computed_get_def split: getter.splits option.splits)
  have f: "fresh_ev s (EvRead g v)"
    using assms
    by (auto simp: read_def ref_get_def computed_get_def fresh_ev_def committed_def
        split: getter.splits option.splits)
  show "present s g" by (rule p)
  show "ext s s1"
    using p f cur_capture_get[of g s] unfolding s1
    by (auto simp: ext_def log_def)
  show "wf s \<Longrightarrow> wf s1"
    unfolding s1 by (simp add: log_def)
qed

lemma set_pending_obs:
  assumes "refs s r = Some x"
  shows "committed (s\<lparr>refs := (refs s)(r \<mapsto> x\<lparr>r_pending := v\<rparr>)\<rparr>) = committed s"
    "listenersOf (s\<lparr>refs := (refs s)(r \<mapsto> x\<lparr>r_pending := v\<rparr>)\<rparr>) = listenersOf s"
    "present (s\<lparr>refs := (refs s)(r \<mapsto> x\<lparr>r_pending := v\<rparr>)\<rparr>) = present s"
    "ids_ok (s\<lparr>refs := (refs s)(r \<mapsto> x\<lparr>r_pending := v\<rparr>)\<rparr>) = ids_ok s"
  using assms
  by (auto simp: committed_def listenersOf_def present_def ids_ok_def fun_eq_iff
      split: getter.splits)

lemma enqueueUpdate_obs [simp]:
  "committed (enqueueUpdate r s) = committed s"
  "pending (enqueueUpdate r s) = pending s"
  "comp_core (enqueueUpdate r s) = comp_core s"
  "present (enqueueUpdate r s) = present s"
  "old (enqueueUpdate r s) = old s"
  "captureOf (enqueueUpdate r s) = captureOf s"
  "listenersOf (enqueueUpdate r s) = listenersOf s"
  "cur (enqueueUpdate r s) = cur s"
  "ids_ok (enqueueUpdate r s) = ids_ok s"
  "mirror_sub (enqueueUpdate r s) = mirror_sub s"
  "refId (enqueueUpdate r s) = refId s"
  "computedId (enqueueUpdate r s) = computedId s"
  "effectId (enqueueUpdate r s) = effectId s"
  "effects (enqueueUpdate r s) = effects s"
  "refs (enqueueUpdate r s) = refs s"
  "computeds (enqueueUpdate r s) = computeds s"
  "trace (enqueueUpdate r s) = trace s"
  "currentCapture (enqueueUpdate r s) = currentCapture s"
  "recursive (enqueueUpdate r s) = recursive s"
  "dirtyStates (enqueueUpdate r s) = set_add r (dirtyStates s)"
  "ext s0 (enqueueUpdate r s) = ext s0 s"
  by (simp_all add: enqueueUpdate_def Let_def)

lemma wf_enqueueUpdate [simp]: "wf (enqueueUpdate r s) = wf s"
  by (simp add: wf_def)

lemma ref_set_ext:
  assumes "ref_set r v s = Some s1"
  shows "ext s s1" "wf s \<Longrightarrow> wf s1"
proof -
  obtain x where x: "refs s r = Some x"
    using assms by (auto simp: ref_set_def split: option.splits)
  define s2 where "s2 = (capture_set r s)\<lparr>refs := (refs s)(r \<mapsto> x\<lparr>r_pending := v\<rparr>)\<rparr>"
  have x': "refs (capture_set r s) r = Some x" using x by simp
  have e0: "ext s (capture_set r s)"
    by (simp add: ext_def)
  have e1: "ext (capture_set r s) s2"
    using set_pending_obs[OF x', of v] unfolding s2_def
    by (simp add: ext_def)
  have cases: "s1 = capture_set r s \<or> s1 = log (EvWrite r v) (enqueueUpdate r s2)"
    using assms x by (auto simp: ref_set_def Let_def s2_def split: if_splits)
  have e2: "ext s2 (log (EvWrite r v) (enqueueUpdate r s2))"
    by (auto simp: ext_def fresh_ev_def)
  show "ext s s1" using cases ext_trans[OF ext_trans[OF e0 e1] e2] e0 by auto
  have w2: "wf s \<Longrightarrow> wf s2"
    using set_pending_obs[OF x', of v] unfolding s2_def
    by (simp add: wf_def mirror_sub_def)
  show "wf s \<Longrightarrow> wf s1"
    using cases w2 by (auto simp: log_def)
qed

lemma new_ref_obs:
  assumes "refs s k = None"
    and "refs s' = (refs s)(k \<mapsto> \<lparr>r_old = a, r_state = b, r_pending = c, r_listeners = []\<rparr>)"
    and "computeds s' = computeds s"
  shows "listenersOf s' = listenersOf s"
    "committed s' = (committed s)(k \<mapsto> b)"
    "present s' g = (g = GRef k \<or> present s g)"
  using assms
  by (auto simp: listenersOf_def committed_def present_def fun_eq_iff split: getter.splits)

lemma ref_result:
  assumes "ref v0 s = (s1, res)" and "v = (if v0 = VUndef then VNull else v0)"
  shows "(\<exists>e. s1 = s \<and> res = Inl e) \<or>
         (res = Inr (refId s) \<and>
          s1 = s\<lparr>refId := Suc (refId s),
                 refs := (refs s)(refId s \<mapsto> \<lparr>r_old = v, r_state = v, r_pending = v, r_listeners = []\<rparr>),
                 currentRefs := push_opt (refId s) (currentRefs s)\<rparr>)"
  using assms by (auto simp: ref_def RefState_new_def split: option.splits)

lemma ref_ext:
  assumes "ref v0 s = (s1, res)" "ids_ok s"
  shows "ext s s1" "wf s \<Longrightarrow> wf s1"
proof -
  define v where "v = (if v0 = VUndef then VNull else v0)"
  have fresh: "refs s (refId s) = None"
    using assms(2) by (auto simp: ids_ok_def)
  define s2 where "s2 = s\<lparr>refId := Suc (refId s),
                 refs := (refs s)(refId s \<mapsto> \<lparr>r_old = v, r_state = v, r_pending = v, r_listeners = []\<rparr>),
                 currentRefs := push_opt (refId s) (currentRefs s)\<rparr>"
  have obs: "listenersOf s2 = listenersOf s" "committed s2 = (committed s)(refId s \<mapsto> v)"
    "\<And>g. present s2 g = (g = GRef (refId s) \<or> present s g)"
    by (rule new_ref_obs[OF fresh]; simp add: s2_def)+
  have flds: "refId s2 = Suc (refId s)" "computedId s2 = computedId s" "effectId s2 = effectId s"
    "effects s2 = effects s" "comp_core s2 = comp_core s" "currentCapture s2 = currentCapture s"
    "cur s2 = cur s" "trace s2 = trace s" "captureOf s2 = captureOf s" "old s2 = old s"
    "dirtyStates s2 = dirtyStates s"
    by (simp_all add: s2_def)
  have cases: "s1 = s \<or> s1 = s2"
    using ref_result[OF assms(1) v_def] by (auto simp: s2_def)
  have "ext s s2"
    by (auto simp: ext_def obs flds)
  then show "ext s s1" using cases by auto
  have i: "ids_ok s2"
    using assms(2) by (auto simp: ids_ok_def less_Suc_eq s2_def)
  have "wf s \<Longrightarrow> wf s2"
    using i by (auto simp: wf_def mirror_sub_def obs flds)
  then show "wf s \<Longrightarrow> wf s1"
    using cases by auto
qed

subsection \<open>runCapture and the constructors\<close>

lemma runCapture_result:
  assumes "runCapture ev s = (s2, r, cap)"
  obtains s2r where "ev (s\<lparr>currentCapture := Some emptyCapture\<rparr>) = (s2r, r)"
    "s2 = s2r\<lparr>currentCapture := currentCapture s\<rparr>" "cap = cur s2r"
  using assms by (auto simp: runCapture_def Let_def cur_def split: prod.splits)

lemma runCapture_ext:
  assumes ev: "\<forall>s1 s2 r. wf s1 \<longrightarrow> ev s1 = (s2, r) \<longrightarrow> ext s1 s2 \<and> wf s2"
    and rc: "runCapture ev s = (s2, r, cap)" and wf: "wf s"
  shows "ext s s2" "wf s2" "\<forall>g \<in> set (getters cap). present s2 g"
    "currentCapture s2 = currentCapture s"
proof -
  obtain s2r where s2r: "ev (s\<lparr>currentCapture := Some emptyCapture\<rparr>) = (s2r, r)"
    "s2 = s2r\<lparr>currentCapture := currentCapture s\<rparr>" "cap = cur s2r"
    using rc by (rule runCapture_result)
  have w: "wf (s\<lparr>currentCapture := Some emptyCapture\<rparr>)" using wf by simp
  from ev w s2r(1) have e: "ext (s\<lparr>currentCapture := Some emptyCapture\<rparr>) s2r" and w2: "wf s2r"
    by blast+
  show "currentCapture s2 = currentCapture s" by (simp add: s2r)
  show "wf s2" using w2 by (simp add: s2r)
  show "\<forall>g \<in> set (getters cap). present s2 g"
    using e by (auto simp: ext_def s2r cur_def emptyCapture_def)
  show "ext s s2"
    using e by (simp add: ext_def s2r) (auto simp: cur_def)
qed

lemma new_computed_obs:
  assumes "computeds s k = None"
    and "computeds s' = (computeds s)(k \<mapsto>
           \<lparr>c_fn = fn, c_old = a, c_state = b, c_capture = cap, c_listeners = []\<rparr>)"
    and "refs s' = refs s" and "effects s' = effects s"
  shows "listenersOf s' = listenersOf s"
    "comp_core s' = (comp_core s)(k \<mapsto> (fn, a, b, cap))"
    "present s' g = (g = GComputed k \<or> present s g)"
    "captureOf s' l = (if l = LComputed k then cap else captureOf s l)"
    "committed s' = committed s"
  using assms
  by (auto simp: listenersOf_def comp_core_def present_def captureOf_def committed_def fun_eq_iff
      split: getter.splits listener.splits)

lemma new_effect_obs:
  assumes "effects s k = None"
    and "effects s' = (effects s)(k \<mapsto>
           \<lparr>e_fn = fn, e_capture = cap, e_clear = a, e_deleted = b\<rparr>)"
    and "refs s' = refs s" and "computeds s' = computeds s"
  shows "listenersOf s' = listenersOf s"
    "comp_core s' = comp_core s"
    "present s' = present s"
    "captureOf s' l = (if l = LEffect k then cap else captureOf s l)"
    "committed s' = committed s"
  using assms
  by (auto simp: listenersOf_def comp_core_def present_def captureOf_def committed_def fun_eq_iff
      split: getter.splits listener.splits)

lemma ComputedState_new_result:
  assumes "ComputedState_new ev fn s = (s', res)"
  shows "(\<exists>e. s' = s \<and> res = Inl e) \<or>
    (\<exists>s2 r cap. runCapture ev (log (EvRun (LComputed (computedId s)))
                   (s\<lparr>computedId := Suc (computedId s), recursive := ModeComputed\<rparr>)) = (s2, r, cap) \<and>
       ((\<exists>e. r = Inl e \<and> s' = s2 \<and> res = Inl e) \<or>
        (\<exists>state. r = Inr state \<and> res = Inr (computedId s) \<and>
           s' = link (LComputed (computedId s)) (getters cap)
                  (s2\<lparr>recursive := NoMode,
                      computeds := (computeds s2)(computedId s \<mapsto>
                         \<lparr>c_fn = fn, c_old = state, c_state = state, c_capture = cap,
                           c_listeners = []\<rparr>)\<rparr>))))"
  using assms
  by (auto simp: ComputedState_new_def Let_def split: option.splits prod.splits sum.splits)

lemma EffectState_new_result:
  assumes "EffectState_new ev fn s = (s', res)"
  shows "(\<exists>e. s' = s \<and> res = Inl e) \<or>
    (\<exists>s2 r cap. runCapture ev (log (EvRun (LEffect (effectId s)))
                   (s\<lparr>effectId := Suc (effectId s), recursive := ModeEffect\<rparr>)) = (s2, r, cap) \<and>
       ((\<exists>e. r = Inl e \<and> s' = s2 \<and> res = Inl e) \<or>
        (\<exists>clear. r = Inr clear \<and> res = Inr (effectId s) \<and>
           s' = link (LEffect (effectId s)) (getters cap)
                  (s2\<lparr>recursive := NoMode,
                      effects := (effects s2)(effectId s \<mapsto>
                         \<lparr>e_fn = fn, e_capture = cap, e_clear = clear, e_deleted = False\<rparr>)\<rparr>))))"
  using assms
  by (auto simp: EffectState_new_def Let_def split: option.splits prod.splits sum.splits)

text \<open>Linking a node numbered after \<open>s\<close> to sources that exist.\<close>

lemma link_new_ext:
  assumes e: "ext s s2" and nl: "\<not> old s l"
    and s4: "listenersOf s4 = listenersOf s2" "committed s4 = committed s2"
      "\<And>c. c < computedId s \<Longrightarrow> comp_core s4 c = comp_core s2 c"
      "\<And>e. e < effectId s \<Longrightarrow> effects s4 e = effects s2 e"
      "\<And>g. present s2 g \<Longrightarrow> present s4 g"
      "refId s4 = refId s2" "computedId s4 = computedId s2" "effectId s4 = effectId s2"
      "currentCapture s4 = currentCapture s2" "trace s4 = trace s2"
  shows "ext s (link l gs s4)"
proof -
  obtain d where d: "trace s2 = trace s @ d" "\<forall>ev \<in> set d. fresh_ev s ev"
    using e by (auto simp: ext_def)
  have tr: "\<exists>d'. trace (link l gs s4) = trace s @ d' \<and> (\<forall>ev \<in> set d'. fresh_ev s ev)"
    using d nl by (intro exI[of _ "d @ [EvLink l]"]) (auto simp: s4 fresh_ev_def)
  have li: "\<forall>g l'. old s l' \<longrightarrow>
      (l' \<in> set (listenersOf (link l gs s4) g) \<longleftrightarrow> l' \<in> set (listenersOf s g))"
    using e nl by (auto simp: set_listenersOf_link s4 ext_def)
  have cu: "cur s4 = cur s2" by (simp add: cur_def s4)
  have rest: "refId s \<le> refId (link l gs s4) \<and> computedId s \<le> computedId (link l gs s4) \<and>
     effectId s \<le> effectId (link l gs s4) \<and>
     (\<forall>r. r < refId s \<longrightarrow> committed (link l gs s4) r = committed s r) \<and>
     (\<forall>c. c < computedId s \<longrightarrow> comp_core (link l gs s4) c = comp_core s c) \<and>
     (\<forall>e. e < effectId s \<longrightarrow> effects (link l gs s4) e = effects s e) \<and>
     (\<forall>g. present s g \<longrightarrow> present (link l gs s4) g) \<and>
     (currentCapture (link l gs s4) = None \<longleftrightarrow> currentCapture s = None)"
    using e by (auto simp: s4 ext_def)
  have cp: "\<forall>g. g \<in> set (getters (cur (link l gs s4))) \<longrightarrow>
      g \<in> set (getters (cur s)) \<or> present (link l gs s4) g"
    using e s4(5) by (auto simp: cu ext_def)
  show ?thesis
    unfolding ext_def using tr li rest cp by blast
qed

lemma link_wf:
  assumes w: "wf s2"
    and s4: "listenersOf s4 = listenersOf s2" "old s4 = old s2" "ids_ok s4"
      "dirtyStates s4 = dirtyStates s2"
      "\<And>l'. l' \<noteq> l \<Longrightarrow> captureOf s4 l' = captureOf s2 l'"
      "getters (captureOf s4 l) = gs" "old s4 l"
    and nl: "\<And>g. l \<in> set (listenersOf s2 g) \<Longrightarrow> g \<in> set gs"
  shows "wf (link l gs s4)"
proof -
  have m: "mirror_sub (link l gs s4)"
    unfolding mirror_sub_def
  proof (intro allI impI)
    fix g l'
    assume a: "l' \<in> set (listenersOf (link l gs s4) g)"
    show "old (link l gs s4) l' \<and> g \<in> set (getters (captureOf (link l gs s4) l'))"
    proof (cases "l' = l")
      case True
      then show ?thesis
        using a nl s4 by (auto simp: set_listenersOf_link split: if_splits)
    next
      case False
      then have "l' \<in> set (listenersOf s2 g)"
        using a by (auto simp: set_listenersOf_link s4 split: if_splits)
      then have "old s2 l' \<and> g \<in> set (getters (captureOf s2 l'))"
        using w by (auto simp: wf_def mirror_sub_def)
      then show ?thesis using False s4 by simp
    qed
  qed
  show ?thesis
    using m w s4 by (simp add: wf_def)
qed

lemma log_ext_wf [simp]:
  "wf (log ev s) = wf s"
  by (simp add: log_def)

lemma computed_ext:
  assumes ev: "\<forall>s1 s2 r. wf s1 \<longrightarrow> ev s1 = (s2, r) \<longrightarrow> ext s1 s2 \<and> wf s2"
    and c: "computed ev fn s = (s', res)" and wf: "wf s"
  shows "ext s s' \<and> wf s'"
proof -
  define X where "X = computedId s"
  define s1 where "s1 = log (EvRun (LComputed X)) (s\<lparr>computedId := Suc X, recursive := ModeComputed\<rparr>)"
  have nold: "\<not> old s (LComputed X)" by (simp add: old_def X_def)
  have e1: "ext s s1"
    using nold by (auto simp: ext_def s1_def log_def fresh_ev_def old_def X_def)
  have w1: "wf s1"
    using wf unfolding s1_def
    by (auto simp: wf_def ids_ok_def mirror_sub_def old_def X_def less_Suc_eq split: listener.splits)
  obtain sa ra where n: "ComputedState_new ev fn s = (sa, ra)" by (cases "ComputedState_new ev fn s")
  have push: "ext s sa \<and> wf sa \<Longrightarrow> ext s s' \<and> wf s'"
    using c n by (auto simp: computed_def split: sum.splits)
  from ComputedState_new_result[OF n] have "ext s sa \<and> wf sa"
  proof (elim disjE exE conjE)
    fix e assume "sa = s" "ra = Inl e"
    then show ?thesis using wf by simp
  next
    fix s2 r cap e
    assume rc: "runCapture ev (log (EvRun (LComputed (computedId s)))
              (s\<lparr>computedId := Suc (computedId s), recursive := ModeComputed\<rparr>)) = (s2, r, cap)"
      and sa: "r = Inl e" "sa = s2" "ra = Inl e"
    have rc': "runCapture ev s1 = (s2, r, cap)" using rc by (simp add: s1_def X_def)
    show ?thesis
      using runCapture_ext[OF ev rc' w1] ext_trans[OF e1] sa by auto
  next
    fix s2 r cap state
    assume rc: "runCapture ev (log (EvRun (LComputed (computedId s)))
              (s\<lparr>computedId := Suc (computedId s), recursive := ModeComputed\<rparr>)) = (s2, r, cap)"
      and r: "r = Inr state" "ra = Inr (computedId s)"
      and sa: "sa = link (LComputed (computedId s)) (getters cap)
                  (s2\<lparr>recursive := NoMode,
                      computeds := (computeds s2)(computedId s \<mapsto>
                         \<lparr>c_fn = fn, c_old = state, c_state = state, c_capture = cap,
                           c_listeners = []\<rparr>)\<rparr>)"
    define s4 where "s4 = s2\<lparr>recursive := NoMode,
                      computeds := (computeds s2)(X \<mapsto>
                         \<lparr>c_fn = fn, c_old = state, c_state = state, c_capture = cap,
                           c_listeners = []\<rparr>)\<rparr>"
    have rc': "runCapture ev s1 = (s2, r, cap)" using rc by (simp add: s1_def X_def)
    note rce = runCapture_ext[OF ev rc' w1]
    have e2: "ext s s2" using ext_trans[OF e1 rce(1)] .
    have "comp_core s2 X = comp_core s1 X"
      using rce(1) by (auto simp: ext_def s1_def)
    moreover have "comp_core s1 X = None"
      using wf by (auto simp: s1_def comp_core_def wf_def ids_ok_def X_def)
    ultimately have absent: "computeds s2 X = None"
      by (simp add: comp_core_def)
    have obs: "listenersOf s4 = listenersOf s2"
      "comp_core s4 = (comp_core s2)(X \<mapsto> (fn, state, state, cap))"
      "\<And>g. present s4 g = (g = GComputed X \<or> present s2 g)"
      "\<And>l. captureOf s4 l = (if l = LComputed X then cap else captureOf s2 l)"
      "committed s4 = committed s2"
      by (rule new_computed_obs[OF absent]; simp add: s4_def)+
    have flds: "refId s4 = refId s2" "computedId s4 = computedId s2" "effectId s4 = effectId s2"
      "effects s4 = effects s2" "currentCapture s4 = currentCapture s2" "trace s4 = trace s2"
      "dirtyStates s4 = dirtyStates s2" "old s4 = old s2"
      by (simp_all add: s4_def)
    have Xlt: "X < computedId s2"
      using rce(1) by (auto simp: ext_def s1_def)
    have ea: "ext s (link (LComputed X) (getters cap) s4)"
      by (rule link_new_ext[OF e2 nold]) (auto simp: obs flds X_def)
    have i4: "ids_ok s4"
      using rce(2) Xlt by (auto simp: wf_def ids_ok_def s4_def)
    have nl: "\<And>g. LComputed X \<notin> set (listenersOf s2 g)"
    proof
      fix g assume "LComputed X \<in> set (listenersOf s2 g)"
      then have "LComputed X \<in> set (listenersOf s1 g)"
        using rce(1) by (auto simp: ext_def old_def s1_def)
      then have "LComputed X \<in> set (listenersOf s g)" by (simp add: s1_def)
      then show False using wf nold by (auto simp: wf_def mirror_sub_def)
    qed
    have wa: "wf (link (LComputed X) (getters cap) s4)"
      by (rule link_wf[OF rce(2)]) (use nl i4 Xlt in \<open>auto simp: obs flds old_def\<close>)
    show ?thesis using ea wa by (simp add: sa s4_def X_def)
  qed
  then show ?thesis by (rule push)
qed

lemma effect_ext:
  assumes ev: "\<forall>s1 s2 r. wf s1 \<longrightarrow> ev s1 = (s2, r) \<longrightarrow> ext s1 s2 \<and> wf s2"
    and c: "effect ev fn s = (s', res)" and wf: "wf s"
  shows "ext s s' \<and> wf s'"
proof -
  define X where "X = effectId s"
  define s1 where "s1 = log (EvRun (LEffect X)) (s\<lparr>effectId := Suc X, recursive := ModeEffect\<rparr>)"
  have nold: "\<not> old s (LEffect X)" by (simp add: old_def X_def)
  have e1: "ext s s1"
    using nold by (auto simp: ext_def s1_def log_def fresh_ev_def old_def X_def)
  have w1: "wf s1"
    using wf unfolding s1_def
    by (auto simp: wf_def ids_ok_def mirror_sub_def old_def X_def less_Suc_eq split: listener.splits)
  obtain sa ra where n: "EffectState_new ev fn s = (sa, ra)" by (cases "EffectState_new ev fn s")
  have push: "ext s sa \<and> wf sa \<Longrightarrow> ext s s' \<and> wf s'"
    using c n by (auto simp: effect_def split: sum.splits)
  from EffectState_new_result[OF n] have "ext s sa \<and> wf sa"
  proof (elim disjE exE conjE)
    fix e assume "sa = s" "ra = Inl e"
    then show ?thesis using wf by simp
  next
    fix s2 r cap e
    assume rc: "runCapture ev (log (EvRun (LEffect (effectId s)))
              (s\<lparr>effectId := Suc (effectId s), recursive := ModeEffect\<rparr>)) = (s2, r, cap)"
      and sa: "r = Inl e" "sa = s2" "ra = Inl e"
    have rc': "runCapture ev s1 = (s2, r, cap)" using rc by (simp add: s1_def X_def)
    show ?thesis
      using runCapture_ext[OF ev rc' w1] ext_trans[OF e1] sa by auto
  next
    fix s2 r cap clear
    assume rc: "runCapture ev (log (EvRun (LEffect (effectId s)))
              (s\<lparr>effectId := Suc (effectId s), recursive := ModeEffect\<rparr>)) = (s2, r, cap)"
      and r: "r = Inr clear" "ra = Inr (effectId s)"
      and sa: "sa = link (LEffect (effectId s)) (getters cap)
                  (s2\<lparr>recursive := NoMode,
                      effects := (effects s2)(effectId s \<mapsto>
                         \<lparr>e_fn = fn, e_capture = cap, e_clear = clear, e_deleted = False\<rparr>)\<rparr>)"
    define s4 where "s4 = s2\<lparr>recursive := NoMode,
                      effects := (effects s2)(X \<mapsto>
                         \<lparr>e_fn = fn, e_capture = cap, e_clear = clear, e_deleted = False\<rparr>)\<rparr>"
    have rc': "runCapture ev s1 = (s2, r, cap)" using rc by (simp add: s1_def X_def)
    note rce = runCapture_ext[OF ev rc' w1]
    have e2: "ext s s2" using ext_trans[OF e1 rce(1)] .
    have "effects s2 X = effects s1 X"
      using rce(1) by (auto simp: ext_def s1_def)
    moreover have "effects s1 X = None"
      using wf by (auto simp: s1_def wf_def ids_ok_def X_def)
    ultimately have absent: "effects s2 X = None"
      by simp
    have obs: "listenersOf s4 = listenersOf s2"
      "comp_core s4 = comp_core s2"
      "present s4 = present s2"
      "\<And>l. captureOf s4 l = (if l = LEffect X then cap else captureOf s2 l)"
      "committed s4 = committed s2"
      by (rule new_effect_obs[OF absent]; simp add: s4_def)+
    have flds: "refId s4 = refId s2" "computedId s4 = computedId s2" "effectId s4 = effectId s2"
      "currentCapture s4 = currentCapture s2" "trace s4 = trace s2"
      "dirtyStates s4 = dirtyStates s2" "old s4 = old s2"
      "\<And>e. e < effectId s \<Longrightarrow> effects s4 e = effects s2 e"
      by (simp_all add: s4_def X_def)
    have Xlt: "X < effectId s2"
      using rce(1) by (auto simp: ext_def s1_def)
    have ea: "ext s (link (LEffect X) (getters cap) s4)"
      by (rule link_new_ext[OF e2 nold]) (auto simp: obs flds)
    have i4: "ids_ok s4"
      using rce(2) Xlt by (auto simp: wf_def ids_ok_def s4_def)
    have nl: "\<And>g. LEffect X \<notin> set (listenersOf s2 g)"
    proof
      fix g assume "LEffect X \<in> set (listenersOf s2 g)"
      then have "LEffect X \<in> set (listenersOf s1 g)"
        using rce(1) by (auto simp: ext_def old_def s1_def)
      then have "LEffect X \<in> set (listenersOf s g)" by (simp add: s1_def)
      then show False using wf nold by (auto simp: wf_def mirror_sub_def)
    qed
    have wa: "wf (link (LEffect X) (getters cap) s4)"
      by (rule link_wf[OF rce(2)]) (use nl i4 Xlt in \<open>auto simp: obs flds old_def\<close>)
    show ?thesis using ea wa by (simp add: sa s4_def X_def)
  qed
  then show ?thesis by (rule push)
qed

lemma collect_ext:
  assumes ev: "\<forall>s1 s2 r. wf s1 \<longrightarrow> ev s1 = (s2, r) \<longrightarrow> ext s1 s2 \<and> wf s2"
    and c: "collect ev s = (s', res)" and wf: "wf s"
  shows "ext s s' \<and> wf s'"
proof -
  obtain s2 r where e: "ev (s\<lparr>currentRefs := Some [], currentComputes := Some [], currentEffects := Some []\<rparr>) = (s2, r)"
    by (cases "ev (s\<lparr>currentRefs := Some [], currentComputes := Some [], currentEffects := Some []\<rparr>)")
  have s': "s' = s2\<lparr>currentRefs := None, currentComputes := None, currentEffects := None\<rparr>"
    using c e by (auto simp: collect_def Let_def split: sum.splits)
  have "wf (s\<lparr>currentRefs := Some [], currentComputes := Some [], currentEffects := Some []\<rparr>)"
    using wf by simp
  with ev e have "ext (s\<lparr>currentRefs := Some [], currentComputes := Some [], currentEffects := Some []\<rparr>) s2 \<and> wf s2"
    by blast
  then show ?thesis by (simp add: s')
qed

lemma run_ext: "wf s \<Longrightarrow> run p s = (s', r) \<Longrightarrow> ext s s' \<and> wf s'"
proof (induction p arbitrary: s s' r rule: prog_induct)
  case (Return v)
  then show ?case by auto
next
  case Throw
  then show ?case by auto
next
  case (GetValue g k)
  show ?case
  proof (cases "read g s")
    case None
    then show ?thesis using GetValue.prems by auto
  next
    case (Some a)
    obtain v s1 where a: "a = (v, s1)" by (cases a)
    note rd = read_ext[OF Some[unfolded a]]
    have "run (k v) s1 = (s', r)" using GetValue.prems Some a by simp
    from GetValue.IH[OF rd(3)[OF GetValue.prems(1)] this] ext_trans[OF rd(1)]
    show ?thesis by blast
  qed
next
  case (SetValue x v k)
  show ?case
  proof (cases "ref_set x v s")
    case None
    then show ?thesis using SetValue.prems by auto
  next
    case (Some s1)
    note rs = ref_set_ext[OF Some]
    have "run k s1 = (s', r)" using SetValue.prems Some by simp
    from SetValue.IH[OF rs(2)[OF SetValue.prems(1)] this] ext_trans[OF rs(1)]
    show ?thesis by blast
  qed
next
  case (MkFun body k)
  have w: "wf (s\<lparr>closures := closures s @ [body]\<rparr>)" using MkFun.prems by simp
  have "run (k (VFun (length (closures s)))) (s\<lparr>closures := closures s @ [body]\<rparr>) = (s', r)"
    using MkFun.prems by simp
  from MkFun.IH(2)[OF w this] show ?case by simp
next
  case (NewRef v k)
  obtain s1 res where c: "ref v s = (s1, res)" by (cases "ref v s")
  have i: "ids_ok s" using NewRef.prems by (simp add: wf_def)
  note re = ref_ext[OF c i]
  show ?case
  proof (cases res)
    case (Inl e)
    then show ?thesis using NewRef.prems c re by auto
  next
    case (Inr x)
    then have "run (k x) s1 = (s', r)" using NewRef.prems c by simp
    from NewRef.IH[OF re(2)[OF NewRef.prems(1)] this] ext_trans[OF re(1)]
    show ?thesis by blast
  qed
next
  case (NewComputed fn k)
  obtain s1 res where c: "computed (run fn) fn s = (s1, res)" by (cases "computed (run fn) fn s")
  have ev: "\<forall>s1 s2 r. wf s1 \<longrightarrow> run fn s1 = (s2, r) \<longrightarrow> ext s1 s2 \<and> wf s2"
    using NewComputed.IH(1) by blast
  note ce = computed_ext[OF ev c NewComputed.prems(1)]
  show ?case
  proof (cases res)
    case (Inl e)
    then show ?thesis using NewComputed.prems c ce by auto
  next
    case (Inr x)
    then have "run (k x) s1 = (s', r)" using NewComputed.prems c by simp
    from NewComputed.IH(2)[OF _ this] ce ext_trans
    show ?thesis by blast
  qed
next
  case (NewEffect fn k)
  obtain s1 res where c: "effect (run fn) fn s = (s1, res)" by (cases "effect (run fn) fn s")
  have ev: "\<forall>s1 s2 r. wf s1 \<longrightarrow> run fn s1 = (s2, r) \<longrightarrow> ext s1 s2 \<and> wf s2"
    using NewEffect.IH(1) by blast
  note ce = effect_ext[OF ev c NewEffect.prems(1)]
  show ?case
  proof (cases res)
    case (Inl e)
    then show ?thesis using NewEffect.prems c ce by auto
  next
    case (Inr x)
    then have "run k s1 = (s', r)" using NewEffect.prems c by simp
    from NewEffect.IH(2)[OF _ this] ce ext_trans
    show ?thesis by blast
  qed
next
  case (Collect fn k)
  obtain s1 res where c: "collect (run fn) s = (s1, res)" by (cases "collect (run fn) s")
  have ev: "\<forall>s1 s2 r. wf s1 \<longrightarrow> run fn s1 = (s2, r) \<longrightarrow> ext s1 s2 \<and> wf s2"
    using Collect.IH(1) by blast
  note ce = collect_ext[OF ev c Collect.prems(1)]
  show ?case
  proof (cases res)
    case (Inl e)
    then show ?thesis using Collect.prems c ce by auto
  next
    case (Inr x)
    obtain ret rs cs es where x: "x = (ret, rs, cs, es)" by (cases x)
    have "run (k ret rs cs es) s1 = (s', r)" using Collect.prems c Inr x by simp
    from Collect.IH(2)[OF _ this] ce ext_trans
    show ?thesis by blast
  qed
qed

subsection \<open>Recomputing a derived signal\<close>

lemma wf_init: "wf init"
  by (simp add: wf_def ids_ok_def mirror_sub_def init_def listenersOf_def split: getter.splits)

lemma wf_cong:
  assumes "listenersOf s' = listenersOf s" "captureOf s' = captureOf s" "old s' = old s"
    "ids_ok s' = ids_ok s" "dirtyStates s' = dirtyStates s"
  shows "wf s' = wf s"
  using assms by (simp add: wf_def mirror_sub_def)

lemma set_c_capture_fields [simp]:
  "currentCapture (set_c_capture c cap s) = currentCapture s"
  "dirtyStates (set_c_capture c cap s) = dirtyStates s"
  "recursive (set_c_capture c cap s) = recursive s"
  "refId (set_c_capture c cap s) = refId s"
  "computedId (set_c_capture c cap s) = computedId s"
  "effectId (set_c_capture c cap s) = effectId s"
  "refs (set_c_capture c cap s) = refs s"
  "effects (set_c_capture c cap s) = effects s"
  "closures (set_c_capture c cap s) = closures s"
  "trace (set_c_capture c cap s) = trace s"
  by (simp_all add: set_c_capture_def split: option.splits)

lemma set_c_capture_obs [simp]:
  "listenersOf (set_c_capture c cap s) = listenersOf s"
  "committed (set_c_capture c cap s) = committed s"
  "pending (set_c_capture c cap s) = pending s"
  "present (set_c_capture c cap s) = present s"
  "old (set_c_capture c cap s) = old s"
  "cur (set_c_capture c cap s) = cur s"
  "ids_ok (set_c_capture c cap s) = ids_ok s"
  by (auto simp: set_c_capture_def listenersOf_def committed_def pending_def present_def old_def
      cur_def ids_ok_def fun_eq_iff split: option.splits getter.splits listener.splits)

lemma captureOf_set_c_capture:
  "computeds s c \<noteq> None \<Longrightarrow>
   captureOf (set_c_capture c cap s) l = (if l = LComputed c then cap else captureOf s l)"
  by (auto simp: set_c_capture_def captureOf_def split: option.splits listener.splits)

lemma computeds_set_c_capture:
  "computeds (set_c_capture c cap s) c' =
     (if c' = c then map_option (\<lambda>x. x\<lparr>c_capture := cap\<rparr>) (computeds s c) else computeds s c')"
  by (auto simp: set_c_capture_def split: option.splits)

lemma set_state_obs:
  assumes "computeds s c = Some x"
    and "computeds s' = (computeds s)(c \<mapsto> x\<lparr>c_old := a, c_state := b\<rparr>)"
    and "refs s' = refs s" and "effects s' = effects s"
  shows "listenersOf s' = listenersOf s" "captureOf s' = captureOf s" "present s' = present s"
    "committed s' = committed s"
  using assms
  by (auto simp: listenersOf_def captureOf_def present_def committed_def fun_eq_iff
      split: getter.splits listener.splits)

lemma unlink_wf:
  assumes "wf s"
  shows "wf (unlink l gs s)"
  using assms
  by (auto simp: wf_def mirror_sub_def set_listenersOf_unlink split: if_splits)

lemma unlink_all:
  assumes "wf s"
  shows "l \<notin> set (listenersOf (unlink l (getters (captureOf s l)) s) g)"
  using assms
  by (auto simp: wf_def mirror_sub_def set_listenersOf_unlink split: if_splits)

lemma computed_update_result:
  assumes "computeds s c = Some x0" and "computed_update c s = (s', res)"
  shows "\<exists>s2 r cap.
     runCapture (run (c_fn x0))
       (log (EvRun (LComputed c)) (unlink (LComputed c) (getters (c_capture x0)) s)) = (s2, r, cap) \<and>
     (case r of
        Inl e \<Rightarrow> s' = set_c_capture c cap s2 \<and> res = Inl e
      | Inr state \<Rightarrow>
          (case computeds (link (LComputed c) (getters cap) (set_c_capture c cap s2)) c of
             None \<Rightarrow> s' = link (LComputed c) (getters cap) (set_c_capture c cap s2) \<and> res = Inl Dangling
           | Some x \<Rightarrow>
               if strict_eq state (c_state x)
               then s' = link (LComputed c) (getters cap) (set_c_capture c cap s2) \<and> res = Inr False
               else s' = (link (LComputed c) (getters cap) (set_c_capture c cap s2))
                          \<lparr>computeds := (computeds (link (LComputed c) (getters cap) (set_c_capture c cap s2)))
                              (c \<mapsto> x\<lparr>c_old := c_state x, c_state := state\<rparr>)\<rparr> \<and> res = Inr True))"
  using assms
  by (auto simp: computed_update_def Let_def split: prod.splits sum.splits option.splits)

lemma run_tame: "\<forall>s1 s2 r. wf s1 \<longrightarrow> run p s1 = (s2, r) \<longrightarrow> ext s1 s2 \<and> wf s2"
  using run_ext by blast

lemma fresh_ev_calm: "fresh_ev s ev \<Longrightarrow> calm s ev"
  by (auto simp: fresh_ev_def calm_def split: event.splits getter.splits)

lemma fresh_ev_cong:
  assumes "refId s' = refId s" "committed s' = committed s" "old s' = old s"
  shows "fresh_ev s' = fresh_ev s"
  using assms by (auto simp: fresh_ev_def fun_eq_iff split: event.splits getter.splits)

lemma computed_update_props:
  assumes w: "wf s" and x0: "computeds s c = Some x0" and u: "computed_update c s = (s', res)"
  shows "\<exists>s2 r cap d.
     runCapture (run (c_fn x0))
       (log (EvRun (LComputed c)) (unlink (LComputed c) (getters (c_capture x0)) s)) = (s2, r, cap)
   \<and> wf s' \<and> stable s s'
   \<and> captureOf s' (LComputed c) = cap
   \<and> trace s' = trace s @ [EvUnlink (LComputed c), EvRun (LComputed c)] @ d
                  @ (case r of Inl _ \<Rightarrow> [] | Inr _ \<Rightarrow> [EvLink (LComputed c)])
   \<and> (\<forall>ev \<in> set d. fresh_ev s ev)
   \<and> (case r of
         Inl e \<Rightarrow> res = Inl e \<and> (\<forall>g. LComputed c \<notin> set (listenersOf s' g))
       | Inr v \<Rightarrow> res = Inr (\<not> strict_eq v (c_state x0))
           \<and> (\<forall>g. LComputed c \<in> set (listenersOf s' g) \<longleftrightarrow> g \<in> set (getters cap))
           \<and> map_option c_state (computeds s' c) = Some v)"
proof -
  define l where "l = LComputed c"
  define s1 where "s1 = log (EvRun l) (unlink l (getters (c_capture x0)) s)"
  obtain s2 r cap where rc: "runCapture (run (c_fn x0)) s1 = (s2, r, cap)"
    by (cases "runCapture (run (c_fn x0)) s1") auto
  define s3 where "s3 = set_c_capture c cap s2"
  have cap0: "captureOf s l = c_capture x0"
    using x0 by (simp add: captureOf_def l_def)
  have oldl: "old s l"
    using w x0 by (auto simp: wf_def ids_ok_def old_def l_def)
  have w1: "wf s1"
    using unlink_wf[OF w] by (simp add: s1_def)
  have n1: "\<And>g. l \<notin> set (listenersOf s1 g)"
    using unlink_all[OF w, of l] by (simp add: s1_def cap0)
  note rce = runCapture_ext[OF run_tame rc w1]
  have old1: "old s1 l" using oldl by (simp add: s1_def)
  have n2: "\<And>g. l \<notin> set (listenersOf s2 g)"
    using rce(1) old1 n1 by (auto simp: ext_def)
  have core2: "comp_core s2 c = comp_core s c"
    using rce(1) old1 by (auto simp: ext_def old_def l_def s1_def)
  then obtain x2 where x2: "computeds s2 c = Some x2" "c_state x2 = c_state x0"
    using x0 by (auto simp: comp_core_def)
  have cap3: "\<And>l'. captureOf s3 l' = (if l' = l then cap else captureOf s2 l')"
    using x2 by (simp add: s3_def captureOf_set_c_capture l_def)
  have w3: "wf s3"
    unfolding wf_def mirror_sub_def
  proof (intro conjI allI impI)
    fix g l' assume a: "l' \<in> set (listenersOf s3 g)"
    then have b: "l' \<in> set (listenersOf s2 g)" by (simp add: s3_def)
    then have "l' \<noteq> l" using n2 by auto
    then show "g \<in> set (getters (captureOf s3 l'))"
      using rce(2) b by (auto simp: cap3 wf_def mirror_sub_def)
    show "old s3 l'" using rce(2) b by (auto simp: s3_def wf_def mirror_sub_def)
  qed (use rce(2) in \<open>auto simp: s3_def wf_def\<close>)
  obtain d where d: "trace s2 = trace s1 @ d" "\<forall>ev \<in> set d. fresh_ev s1 ev"
    using rce(1) by (auto simp: ext_def)
  have fe: "fresh_ev s1 = fresh_ev s"
    by (rule fresh_ev_cong) (simp_all add: s1_def)
  have tr3: "trace s3 = trace s @ [EvUnlink l, EvRun l] @ d"
    using d by (simp add: s3_def s1_def)
  have st3: "stable s s3"
    unfolding stable_def
  proof (intro conjI)
    show "\<exists>d. trace s3 = trace s @ d \<and> (\<forall>ev\<in>set d. calm s ev)"
      using tr3 d(2) fresh_ev_calm unfolding fe
      by (intro exI[of _ "[EvUnlink l, EvRun l] @ d"]) (auto simp: calm_def)
  qed (use rce(1) in \<open>auto simp: ext_def s3_def s1_def\<close>)
  have pres: "\<forall>g \<in> set (getters cap). present s3 g"
    using rce(3) by (simp add: s3_def)
  show ?thesis
  proof (cases r)
    case (Inl e)
    have "s' = s3 \<and> res = Inl e"
      using computed_update_result[OF x0 u] rc Inl by (auto simp: s1_def l_def s3_def)
    then show ?thesis
      using rc w3 st3 cap3 tr3 d(2) n2 Inl unfolding fe
      by (intro exI[of _ s2] exI[of _ r] exI[of _ cap] exI[of _ d])
         (auto simp: s1_def l_def s3_def)
  next
    case (Inr v)
    define s4 where "s4 = link l (getters cap) s3"
    have i3: "ids_ok s3" using w3 by (simp add: wf_def)
    have old2: "old s2 l"
      using rce(1) old1 by (auto simp: ext_def intro: old_mono)
    then have old3: "old s3 l" by (simp add: s3_def)
    have n3: "\<And>g. l \<notin> set (listenersOf s3 g)" using n2 by (simp add: s3_def)
    have w4: "wf s4"
      unfolding s4_def
      by (rule link_wf[OF w3]) (simp_all add: cap3 i3 old3 n3)
    have li4: "\<And>g. l \<in> set (listenersOf s4 g) \<longleftrightarrow> g \<in> set (getters cap)"
      using pres n2 by (auto simp: s4_def set_listenersOf_link s3_def)
    have core4: "comp_core s4 c = Some (c_fn x0, c_old x0, c_state x0, cap)"
      using x2 core2 x0
      by (auto simp: s4_def s3_def comp_core_def computeds_set_c_capture)
    then obtain x4 where x4: "computeds s4 c = Some x4" "c_state x4 = c_state x0"
      by (auto simp: comp_core_def)
    have cap4: "captureOf s4 l = cap" by (simp add: s4_def cap3)
    have st4: "stable s s4"
      using st3 by (auto simp: stable_def s4_def calm_def)
    have tr4: "trace s4 = trace s @ [EvUnlink l, EvRun l] @ d @ [EvLink l]"
      by (simp add: s4_def tr3)
    define s5 where "s5 = s4\<lparr>computeds := (computeds s4)(c \<mapsto> x4\<lparr>c_old := c_state x4, c_state := v\<rparr>)\<rparr>"
    have obs5: "listenersOf s5 = listenersOf s4" "captureOf s5 = captureOf s4"
      "present s5 = present s4" "committed s5 = committed s4"
      by (rule set_state_obs[OF x4(1)]; simp add: s5_def)+
    have flds5: "old s5 = old s4" "dirtyStates s5 = dirtyStates s4" "trace s5 = trace s4"
      "refId s5 = refId s4" "computedId s5 = computedId s4" "effectId s5 = effectId s4"
      by (simp_all add: s5_def)
    have i5: "ids_ok s5 = ids_ok s4"
      using x4(1) by (auto simp: s5_def ids_ok_def)
    have w5: "wf s5"
      using w4 wf_cong[OF obs5(1) obs5(2) flds5(1) i5 flds5(2)] by simp
    have st5: "stable s s5"
      using st4 by (simp add: stable_def obs5 flds5)
    have res: "(strict_eq v (c_state x0) \<and> s' = s4 \<and> res = Inr False) \<or>
               (\<not> strict_eq v (c_state x0) \<and> s' = s5 \<and> res = Inr True)"
      using computed_update_result[OF x0 u] rc Inr x4
      by (auto simp: s1_def l_def s3_def s4_def s5_def split: if_splits)
    then show ?thesis
    proof
      assume a: "strict_eq v (c_state x0) \<and> s' = s4 \<and> res = Inr False"
      then have "v = c_state x0" by (simp add: strict_eq_def)
      then show ?thesis
        using rc w4 st4 cap4 tr4 d(2) li4 Inr a x4 unfolding fe
        by (intro exI[of _ s2] exI[of _ r] exI[of _ cap] exI[of _ d])
           (auto simp: s1_def l_def)
    next
      assume a: "\<not> strict_eq v (c_state x0) \<and> s' = s5 \<and> res = Inr True"
      have "computeds s5 c = Some (x4\<lparr>c_old := c_state x4, c_state := v\<rparr>)"
        by (simp add: s5_def)
      then show ?thesis
        using rc w5 st5 cap4 tr4 d(2) li4 Inr a unfolding fe
        by (intro exI[of _ s2] exI[of _ r] exI[of _ cap] exI[of _ d])
           (auto simp: s1_def l_def obs5 flds5)
    qed
  qed
qed

subsection \<open>Recomputing and removing an effect\<close>

lemma set_e_capture_fields [simp]:
  "currentCapture (set_e_capture c cap s) = currentCapture s"
  "dirtyStates (set_e_capture c cap s) = dirtyStates s"
  "recursive (set_e_capture c cap s) = recursive s"
  "refId (set_e_capture c cap s) = refId s"
  "computedId (set_e_capture c cap s) = computedId s"
  "effectId (set_e_capture c cap s) = effectId s"
  "refs (set_e_capture c cap s) = refs s"
  "computeds (set_e_capture c cap s) = computeds s"
  "closures (set_e_capture c cap s) = closures s"
  "trace (set_e_capture c cap s) = trace s"
  by (simp_all add: set_e_capture_def split: option.splits)

lemma set_e_capture_obs [simp]:
  "listenersOf (set_e_capture c cap s) = listenersOf s"
  "committed (set_e_capture c cap s) = committed s"
  "pending (set_e_capture c cap s) = pending s"
  "present (set_e_capture c cap s) = present s"
  "comp_core (set_e_capture c cap s) = comp_core s"
  "old (set_e_capture c cap s) = old s"
  "cur (set_e_capture c cap s) = cur s"
  "ids_ok (set_e_capture c cap s) = ids_ok s"
  by (auto simp: set_e_capture_def ids_ok_def split: option.splits)

lemma captureOf_set_e_capture:
  "effects s e \<noteq> None \<Longrightarrow>
   captureOf (set_e_capture e cap s) l = (if l = LEffect e then cap else captureOf s l)"
  by (auto simp: set_e_capture_def captureOf_def split: option.splits listener.splits)

lemma effects_set_e_capture:
  "effects (set_e_capture e cap s) e' =
     (if e' = e then map_option (\<lambda>x. x\<lparr>e_capture := cap\<rparr>) (effects s e) else effects s e')"
  by (auto simp: set_e_capture_def split: option.splits)

lemma set_e_clear_fields [simp]:
  "currentCapture (set_e_clear c v s) = currentCapture s"
  "dirtyStates (set_e_clear c v s) = dirtyStates s"
  "recursive (set_e_clear c v s) = recursive s"
  "refId (set_e_clear c v s) = refId s"
  "computedId (set_e_clear c v s) = computedId s"
  "effectId (set_e_clear c v s) = effectId s"
  "refs (set_e_clear c v s) = refs s"
  "computeds (set_e_clear c v s) = computeds s"
  "closures (set_e_clear c v s) = closures s"
  "trace (set_e_clear c v s) = trace s"
  by (simp_all add: set_e_clear_def split: option.splits)

lemma set_e_clear_obs [simp]:
  "listenersOf (set_e_clear c v s) = listenersOf s"
  "committed (set_e_clear c v s) = committed s"
  "pending (set_e_clear c v s) = pending s"
  "present (set_e_clear c v s) = present s"
  "comp_core (set_e_clear c v s) = comp_core s"
  "old (set_e_clear c v s) = old s"
  "cur (set_e_clear c v s) = cur s"
  "ids_ok (set_e_clear c v s) = ids_ok s"
  "captureOf (set_e_clear c v s) = captureOf s"
  by (auto simp: set_e_clear_def ids_ok_def captureOf_def fun_eq_iff
      split: option.splits listener.splits)

lemma effects_set_e_clear:
  "effects (set_e_clear e v s) e' =
     (if e' = e then map_option (\<lambda>x. x\<lparr>e_clear := v\<rparr>) (effects s e) else effects s e')"
  by (auto simp: set_e_clear_def split: option.splits)

lemma wf_set_e_clear [simp]: "wf (set_e_clear e v s) = wf s"
  by (rule wf_cong) simp_all

lemma call_clear_props:
  assumes w: "wf s" and c: "call_clear e clear s = (s0, r0)" and ok: "r0 = Inr v"
  shows "wf s0"
    "refId s \<le> refId s0" "computedId s \<le> computedId s0" "effectId s \<le> effectId s0"
    "\<And>g l. old s l \<Longrightarrow> (l \<in> set (listenersOf s0 g) \<longleftrightarrow> l \<in> set (listenersOf s g))"
    "\<And>r. r < refId s \<Longrightarrow> committed s0 r = committed s r"
    "\<And>c. c < computedId s \<Longrightarrow> comp_core s0 c = comp_core s c"
    "\<And>e. e < effectId s \<Longrightarrow> effects s0 e = effects s e"
    "\<exists>d. trace s0 = trace s @ cleanup_events e clear @ d \<and> (\<forall>ev \<in> set d. fresh_ev s ev)"
proof -
  have "\<exists>sa. ext sa s0 \<and> wf s0 \<and> trace sa = trace s @ cleanup_events e clear \<and>
      refId sa = refId s \<and> computedId sa = computedId s \<and> effectId sa = effectId s \<and>
      listenersOf sa = listenersOf s \<and> committed sa = committed s \<and> comp_core sa = comp_core s \<and>
      effects sa = effects s \<and> old sa = old s \<and> fresh_ev sa = fresh_ev s"
  proof (cases "\<exists>f. clear = VFun f")
    case True
    then obtain f where f: "clear = VFun f" by auto
    have lt: "f < length (closures s)"
      using c ok f by (auto simp: call_clear_def split: if_splits)
    have r: "run (closures s ! f) (log (EvCleanup e f) s) = (s0, r0)"
      using c f lt by (simp add: call_clear_def)
    have "wf (log (EvCleanup e f) s)" using w by simp
    from run_ext[OF this r] show ?thesis
      by (intro exI[of _ "log (EvCleanup e f) s"])
         (auto simp: cleanup_events_def f intro!: fresh_ev_cong)
  next
    case False
    then have "s0 = s"
      using c by (auto simp: call_clear_def split: val.splits)
    then show ?thesis
      using w False by (intro exI[of _ s]) (auto simp: cleanup_events_def split: val.splits)
  qed
  then obtain sa where sa: "ext sa s0" "wf s0" "trace sa = trace s @ cleanup_events e clear"
      "refId sa = refId s" "computedId sa = computedId s" "effectId sa = effectId s"
      "listenersOf sa = listenersOf s" "committed sa = committed s" "comp_core sa = comp_core s"
      "effects sa = effects s" "old sa = old s" "fresh_ev sa = fresh_ev s"
    by blast
  show "wf s0" by (rule sa)
  show "refId s \<le> refId s0" "computedId s \<le> computedId s0" "effectId s \<le> effectId s0"
    using sa by (auto simp: ext_def)
  show "\<And>g l. old s l \<Longrightarrow> (l \<in> set (listenersOf s0 g) \<longleftrightarrow> l \<in> set (listenersOf s g))"
    using sa(1) unfolding ext_def sa by blast
  show "\<And>r. r < refId s \<Longrightarrow> committed s0 r = committed s r"
    using sa(1) unfolding ext_def sa by blast
  show "\<And>c. c < computedId s \<Longrightarrow> comp_core s0 c = comp_core s c"
    using sa(1) unfolding ext_def sa by blast
  show "\<And>e. e < effectId s \<Longrightarrow> effects s0 e = effects s e"
    using sa(1) unfolding ext_def sa by blast
  show "\<exists>d. trace s0 = trace s @ cleanup_events e clear @ d \<and> (\<forall>ev \<in> set d. fresh_ev s ev)"
    using sa(1) unfolding ext_def sa by auto
qed

lemma call_clear_stable:
  assumes w: "wf s" and c: "call_clear e clear s = (s0, r0)"
  shows "wf s0 \<and> stable s s0"
proof (cases "\<exists>f. clear = VFun f \<and> f < length (closures s)")
  case True
  then obtain f where f: "clear = VFun f" "f < length (closures s)" by auto
  have r: "run (closures s ! f) (log (EvCleanup e f) s) = (s0, r0)"
    using c f by (simp add: call_clear_def)
  have w': "wf (log (EvCleanup e f) s)" using w by simp
  have "stable s (log (EvCleanup e f) s)"
    by (auto simp: stable_def calm_def)
  from stable_trans[OF this ext_stable] run_ext[OF w' r] show ?thesis by blast
next
  case False
  then have "s0 = s"
    using c by (auto simp: call_clear_def split: val.splits)
  then show ?thesis using w by simp
qed

lemma effect_update_result:
  assumes "effects s e = Some x0" "\<not> e_deleted x0" and "effect_update e s = (s', res)"
  shows "\<exists>s0 r0. call_clear e (e_clear x0) s = (s0, r0) \<and>
     (case r0 of
        Inl er \<Rightarrow> s' = s0 \<and> res = Inl er
      | Inr _ \<Rightarrow>
         (\<exists>s2 r cap.
            runCapture (run (e_fn x0))
              (log (EvRun (LEffect e)) (unlink (LEffect e) (getters (captureOf s0 (LEffect e))) s0))
              = (s2, r, cap) \<and>
            (case r of
               Inl er \<Rightarrow> s' = set_e_capture e cap s2 \<and> res = Inl er
             | Inr clear \<Rightarrow>
                 s' = link (LEffect e) (getters cap) (set_e_clear e clear (set_e_capture e cap s2))
                 \<and> res = Inr False)))"
  using assms
  by (auto simp: effect_update_def Let_def split: prod.splits sum.splits option.splits)

lemma effect_update_props:
  assumes w: "wf s" and x0: "effects s e = Some x0" and live: "\<not> e_deleted x0"
    and u: "effect_update e s = (s', res)"
  shows "wf s' \<and> stable s s' \<and>
    (\<forall>b. res = Inr b \<longrightarrow>
       b = False \<and>
       (\<forall>g. LEffect e \<in> set (listenersOf s' g) \<longleftrightarrow> g \<in> set (getters (captureOf s' (LEffect e)))) \<and>
       (\<exists>tc tb. trace s' = trace s @ cleanup_events e (e_clear x0) @ tc
                    @ [EvUnlink (LEffect e), EvRun (LEffect e)] @ tb @ [EvLink (LEffect e)]
                 \<and> (\<forall>ev \<in> set (tc @ tb). fresh_ev s ev)))"
proof -
  define l where "l = LEffect e"
  obtain s0 r0 where cc: "call_clear e (e_clear x0) s = (s0, r0)"
    by (cases "call_clear e (e_clear x0) s")
  note cs = call_clear_stable[OF w cc]
  show ?thesis
  proof (cases r0)
    case (Inl er)
    then have "s' = s0 \<and> res = Inl er"
      using effect_update_result[OF x0 live u] cc by auto
    then show ?thesis using cs by auto
  next
    case (Inr v0)
    note cp = call_clear_props[OF w cc Inr]
    define s1 where "s1 = log (EvRun l) (unlink l (getters (captureOf s0 l)) s0)"
    obtain s2 r cap where rc: "runCapture (run (e_fn x0)) s1 = (s2, r, cap)"
      by (cases "runCapture (run (e_fn x0)) s1") auto
    define s3 where "s3 = set_e_capture e cap s2"
    have elt: "e < effectId s"
      using w x0 by (auto simp: wf_def ids_ok_def)
    have oldl: "old s l" using elt by (simp add: old_def l_def)
    have old0: "old s0 l" using oldl cp(3,4) by (auto intro: old_mono)
    have x0': "effects s0 e = Some x0" using cp(8)[OF elt] x0 by simp
    have w1: "wf s1"
      using unlink_wf[OF cp(1)] by (simp add: s1_def)
    have n1: "\<And>g. l \<notin> set (listenersOf s1 g)"
      using unlink_all[OF cp(1), of l] by (simp add: s1_def)
    note rce = runCapture_ext[OF run_tame rc w1]
    have old1: "old s1 l" using old0 by (simp add: s1_def)
    have n2: "\<And>g. l \<notin> set (listenersOf s2 g)"
      using rce(1) old1 n1 by (auto simp: ext_def)
    have "effects s2 e = effects s1 e"
      using rce(1) old1 by (auto simp: ext_def old_def l_def)
    then have x2: "effects s2 e = Some x0" using x0' by (simp add: s1_def)
    have cap3: "\<And>l'. captureOf s3 l' = (if l' = l then cap else captureOf s2 l')"
      using x2 by (simp add: s3_def captureOf_set_e_capture l_def)
    have w3: "wf s3"
      unfolding wf_def mirror_sub_def
    proof (intro conjI allI impI)
      fix g l' assume a: "l' \<in> set (listenersOf s3 g)"
      then have b: "l' \<in> set (listenersOf s2 g)" by (simp add: s3_def)
      then have "l' \<noteq> l" using n2 by auto
      then show "g \<in> set (getters (captureOf s3 l'))"
        using rce(2) b by (auto simp: cap3 wf_def mirror_sub_def)
      show "old s3 l'" using rce(2) b by (auto simp: s3_def wf_def mirror_sub_def)
    qed (use rce(2) in \<open>auto simp: s3_def wf_def\<close>)
    obtain tc where tc: "trace s0 = trace s @ cleanup_events e (e_clear x0) @ tc"
        "\<forall>ev \<in> set tc. fresh_ev s ev"
      using cp(9) by auto
    obtain tb where tb: "trace s2 = trace s1 @ tb" "\<forall>ev \<in> set tb. fresh_ev s1 ev"
      using rce(1) by (auto simp: ext_def)
    have fe: "\<And>ev. fresh_ev s1 ev \<Longrightarrow> fresh_ev s ev"
      using cp(2-4,6) oldl
      by (auto simp: fresh_ev_def s1_def old_def split: event.splits getter.splits listener.splits)
    have tb': "\<forall>ev \<in> set tb. fresh_ev s ev" using tb(2) fe by auto
    have tr3: "trace s3 = trace s @ cleanup_events e (e_clear x0) @ tc @ [EvUnlink l, EvRun l] @ tb"
      using tb tc by (simp add: s3_def s1_def)
    have st01: "stable s0 s1" by (auto simp: stable_def s1_def calm_def)
    have st13: "stable s1 s3"
      using ext_stable[OF rce(1)] by (simp add: stable_def s3_def)
    have st3: "stable s s3"
      using stable_trans[OF stable_trans[OF _ st01] st13] cs by blast
    have pres: "\<forall>g \<in> set (getters cap). present s3 g"
      using rce(3) by (simp add: s3_def)
    show ?thesis
    proof (cases r)
      case (Inl er)
      have "s' = s3 \<and> res = Inl er"
        using effect_update_result[OF x0 live u] cc rc Inl \<open>r0 = Inr v0\<close>
        by (auto simp: s1_def l_def s3_def)
      then show ?thesis using w3 st3 by auto
    next
      case (Inr clear)
      define s4 where "s4 = set_e_clear e clear s3"
      define s5 where "s5 = link l (getters cap) s4"
      have s': "s' = s5 \<and> res = Inr False"
        using effect_update_result[OF x0 live u] cc rc Inr \<open>r0 = Inr v0\<close>
        by (auto simp: s1_def l_def s3_def s4_def s5_def)
      have w4: "wf s4" using w3 by (simp add: s4_def)
      have i4: "ids_ok s4" using w4 by (simp add: wf_def)
      have old2: "old s2 l"
        using rce(1) old1 by (auto simp: ext_def intro: old_mono)
      then have old4: "old s4 l" by (simp add: s4_def s3_def)
      have n4: "\<And>g. l \<notin> set (listenersOf s4 g)" using n2 by (simp add: s4_def s3_def)
      have cap4: "\<And>l'. captureOf s4 l' = (if l' = l then cap else captureOf s2 l')"
        by (simp add: s4_def cap3)
      have w5: "wf s5"
        unfolding s5_def
        by (rule link_wf[OF w4]) (simp_all add: cap4 i4 old4 n4)
      have li5: "\<And>g. l \<in> set (listenersOf s5 g) \<longleftrightarrow> g \<in> set (getters cap)"
        using pres n2 by (auto simp: s5_def s4_def set_listenersOf_link s3_def)
      have cap5: "captureOf s5 l = cap" by (simp add: s5_def cap4)
      have st5: "stable s s5"
        using st3 by (auto simp: stable_def s5_def s4_def calm_def)
      have tr5: "trace s5 = trace s @ cleanup_events e (e_clear x0) @ tc
                   @ [EvUnlink l, EvRun l] @ tb @ [EvLink l]"
        by (simp add: s5_def s4_def tr3)
      have ex: "\<exists>tc tb. trace s5 = trace s @ cleanup_events e (e_clear x0) @ tc
                    @ [EvUnlink (LEffect e), EvRun (LEffect e)] @ tb @ [EvLink (LEffect e)]
                 \<and> (\<forall>ev \<in> set (tc @ tb). fresh_ev s ev)"
        using tr5 tc(2) tb' unfolding l_def
        by (intro exI[of _ tc] exI[of _ tb]) auto
      show ?thesis
        using s' w5 st5 li5 cap5 ex unfolding l_def by simp
    qed
  qed
qed

lemma effect_update_deleted:
  assumes "effects s e = Some x" "e_deleted x"
  shows "effect_update e s = (s, Inr False)"
  using assms by (simp add: effect_update_def)

lemma effect_remove_props:
  assumes w: "wf s" and x0: "effects s e = Some x0" and u: "effect_remove e s = (s', Inr b)"
  shows "wf s' \<and>
       (\<exists>x. effects s' e = Some x \<and> e_deleted x) \<and>
       (\<forall>g. LEffect e \<notin> set (listenersOf s' g)) \<and>
       (\<exists>tc. trace s' = trace s @ cleanup_events e (e_clear x0) @ tc @ [EvUnlink (LEffect e)]
                 \<and> (\<forall>ev \<in> set tc. fresh_ev s ev))"
proof -
  define l where "l = LEffect e"
  obtain s0 r0 where cc: "call_clear e (e_clear x0) s = (s0, r0)"
    by (cases "call_clear e (e_clear x0) s")
  obtain v0 where r0: "r0 = Inr v0"
    using u x0 cc by (cases r0) (auto simp: effect_remove_def)
  note cp = call_clear_props[OF w cc r0]
  define s1 where "s1 = unlink l (getters (captureOf s0 l)) s0"
  have elt: "e < effectId s"
    using w x0 by (auto simp: wf_def ids_ok_def)
  have x0': "effects s1 e = Some x0" using cp(8)[OF elt] x0 by (simp add: s1_def)
  have s': "s' = s1\<lparr>effects := (effects s1)(e \<mapsto> x0\<lparr>e_deleted := True\<rparr>)\<rparr>"
    using u x0 cc r0 x0' by (auto simp: effect_remove_def Let_def s1_def l_def)
  have w1: "wf s1" using unlink_wf[OF cp(1)] by (simp add: s1_def)
  have n1: "\<And>g. l \<notin> set (listenersOf s1 g)"
    using unlink_all[OF cp(1), of l] by (simp add: s1_def)
  have cap: "captureOf s' = captureOf s1"
    using x0' by (auto simp: s' captureOf_def fun_eq_iff split: listener.splits)
  have ids: "ids_ok s' = ids_ok s1"
    using x0' by (auto simp: s' ids_ok_def)
  have "wf s' = wf s1"
    by (rule wf_cong) (simp_all add: cap ids, simp_all add: s')
  moreover obtain tc where "trace s0 = trace s @ cleanup_events e (e_clear x0) @ tc"
        "\<forall>ev \<in> set tc. fresh_ev s ev"
    using cp(9) by auto
  ultimately show ?thesis
    using w1 n1 by (auto simp: s' l_def s1_def)
qed

lemma node_update_stable:
  assumes w: "wf s" and u: "node_update n s = (s', res)"
  shows "wf s' \<and> stable s s'"
proof (cases n)
  case (LComputed c)
  show ?thesis
  proof (cases "computeds s c")
    case None
    then show ?thesis using u w LComputed by (simp add: node_update_def computed_update_def)
  next
    case (Some x0)
    have "computed_update c s = (s', res)" using u LComputed by (simp add: node_update_def)
    from computed_update_props[OF w Some this] show ?thesis by blast
  qed
next
  case (LEffect e)
  have u': "effect_update e s = (s', res)" using u LEffect by (simp add: node_update_def)
  show ?thesis
  proof (cases "effects s e")
    case None
    then show ?thesis using u' w by (simp add: effect_update_def)
  next
    case (Some x0)
    show ?thesis
    proof (cases "e_deleted x0")
      case True
      then show ?thesis using u' w effect_update_deleted[OF Some] by simp
    next
      case False
      from effect_update_props[OF w Some False u'] show ?thesis by blast
    qed
  qed
qed

lemma drain_stable:
  "wf s \<Longrightarrow> drain fuel q s = Some (s', res) \<Longrightarrow> wf s' \<and> stable s s'"
proof (induction fuel q s rule: drain.induct)
  case (1 fuel s)
  then show ?case by simp
next
  case (2 n queue s)
  then show ?case by simp
next
  case (3 fuel n queue s)
  obtain s1 r1 where nu: "node_update (last (n # queue)) s = (s1, r1)"
    by (cases "node_update (last (n # queue)) s")
  note ns = node_update_stable[OF "3.prems"(1) nu]
  show ?case
  proof (cases r1)
    case (Inl e)
    then show ?thesis using "3.prems"(2) nu ns by (simp add: Let_def)
  next
    case (Inr changed)
    have d: "drain fuel (butlast (n # queue) @ pushed (last (n # queue)) changed s1) s1 = Some (s', res)"
      using "3.prems"(2) nu Inr by (simp add: Let_def)
    have "wf s' \<and> stable s1 s'"
      by (rule "3.IH"[OF refl refl nu[symmetric] Inr _ d]) (use ns in simp)
    then show ?thesis using ns stable_trans by blast
  qed
qed

subsection \<open>The commit loop and a round\<close>

lemma ref_update_props:
  assumes "ref_update r s = (s1, b)"
  shows "trace s1 = trace s @ commit_events s [r]"
    "committed s1 = (committed s)(r := pending s r)"
    "pending s1 = pending s" "listenersOf s1 = listenersOf s" "captureOf s1 = captureOf s"
    "old s1 = old s" "ids_ok s1 = ids_ok s" "dirtyStates s1 = dirtyStates s"
    "refId s1 = refId s" "computedId s1 = computedId s" "effectId s1 = effectId s"
    "b \<longleftrightarrow> commit_events s [r] \<noteq> []" "effects s1 = effects s"
  using assms
  by (auto simp: ref_update_def commit_events_def committed_def pending_def listenersOf_def
      ids_ok_def fun_eq_iff strict_eq_def log_def split: option.splits if_splits getter.splits)

lemma commit_events_cong:
  assumes "\<And>r. r \<in> set rs \<Longrightarrow> committed s' r = committed s r \<and> pending s' r = pending s r"
  shows "commit_events s' rs = commit_events s rs"
  unfolding commit_events_def
  by (rule arg_cong[where f = concat], rule map_cong) (simp_all add: assms split: option.splits)

lemma commit_events_Cons:
  "commit_events s (r # rs) = commit_events s [r] @ commit_events s rs"
  by (simp add: commit_events_def)

lemma commitLoop_props:
  assumes "distinct rs" "commitLoop rs q s = (q', s')"
  shows "trace s' = trace s @ commit_events s rs \<and>
    committed s' = after_commit s rs \<and>
    pending s' = pending s \<and> listenersOf s' = listenersOf s \<and> captureOf s' = captureOf s \<and>
    old s' = old s \<and> ids_ok s' = ids_ok s \<and> dirtyStates s' = dirtyStates s \<and>
    refId s' = refId s \<and> computedId s' = computedId s \<and> effectId s' = effectId s \<and>
    effects s' = effects s"
  using assms
proof (induction rs arbitrary: q s)
  case Nil
  then show ?case by (auto simp: commit_events_def after_commit_def fun_eq_iff)
next
  case (Cons r rs)
  obtain s1 b where ru: "ref_update r s = (s1, b)" by (cases "ref_update r s")
  note p = ref_update_props[OF ru]
  obtain q1 where cl: "commitLoop rs q1 s1 = (q', s')"
    using Cons.prems(2) ru by (cases b) auto
  have d: "distinct rs" "r \<notin> set rs" using Cons.prems(1) by auto
  note ih = Cons.IH[OF d(1) cl]
  have ce: "commit_events s1 rs = commit_events s rs"
    by (rule commit_events_cong) (use d(2) in \<open>auto simp: p\<close>)
  have ac: "after_commit s1 rs = after_commit s (r # rs)"
    using d(2) by (auto simp: after_commit_def p fun_eq_iff)
  show ?case
    using ih by (simp add: p ce ac commit_events_Cons[of s r rs])
qed

lemma commit_events_are_commits: "\<forall>ev \<in> set (commit_events s rs). is_commit ev"
  by (auto simp: commit_events_def is_commit_def split: option.splits if_splits prod.splits)


lemma round_props:
  assumes w: "wf s" and r: "round fuel s = Some (s', res)"
  shows "wf s' \<and>
    (\<exists>sc d. trace s' = trace s @ commit_events s (dirtyStates s) @ d \<and>
       committed sc = after_commit s (dirtyStates s) \<and> refId sc = refId s \<and>
       dirtyStates sc = [] \<and> stable sc s' \<and> (\<forall>ev \<in> set d. calm sc ev))"
proof -
  define s0 where "s0 = s\<lparr>dirtyStates := []\<rparr>"
  obtain q sc where cl: "commitLoop (dirtyStates s) [] s0 = (q, sc)"
    by (cases "commitLoop (dirtyStates s) [] s0")
  have dist: "distinct (dirtyStates s)" using w by (simp add: wf_def)
  note cp = commitLoop_props[OF dist cl]
  have dr: "drain fuel q sc = Some (s', res)"
    using r cl by (simp add: round_def Let_def s0_def)
  have "wf s0" using w by (simp add: s0_def wf_def)
  moreover have "wf sc = wf s0"
    by (rule wf_cong) (simp_all add: cp)
  ultimately have wc: "wf sc" by simp
  note ds = drain_stable[OF wc dr]
  obtain d where d: "trace s' = trace sc @ d" "\<forall>ev \<in> set d. calm sc ev"
    using ds by (auto simp: stable_def)
  have ce: "commit_events s0 (dirtyStates s) = commit_events s (dirtyStates s)"
    by (rule commit_events_cong) (simp add: s0_def)
  have ac: "after_commit s0 (dirtyStates s) = after_commit s (dirtyStates s)"
    by (simp add: after_commit_def s0_def fun_eq_iff)
  have "trace s' = trace s @ commit_events s (dirtyStates s) @ d \<and>
       committed sc = after_commit s (dirtyStates s) \<and> refId sc = refId s \<and>
       dirtyStates sc = [] \<and> stable sc s' \<and> (\<forall>ev \<in> set d. calm sc ev)"
    using cp d ds ce ac by (simp add: s0_def)
  then show ?thesis using ds by blast
qed

lemma rounds_props:
  "wf s \<Longrightarrow> rounds fuel s = Some (s', res) \<Longrightarrow> wf s' \<and> (res = Inr () \<longrightarrow> dirtyStates s' = [])"
proof (induction fuel arbitrary: s)
  case 0
  then show ?case by (auto split: if_splits)
next
  case (Suc n)
  show ?case
  proof (cases "dirtyStates s = []")
    case True
    then show ?thesis using Suc.prems by auto
  next
    case False
    then obtain s1 r1 where r1: "round n s = Some (s1, r1)"
      using Suc.prems(2) by (auto split: option.splits)
    note rp = round_props[OF Suc.prems(1) r1]
    show ?thesis
    proof (cases r1)
      case (Inl e)
      then show ?thesis using Suc.prems(2) False r1 rp by auto
    next
      case (Inr u)
      then have "rounds n s1 = Some (s', res)" using Suc.prems(2) False r1 by simp
      from Suc.IH[OF _ this] rp show ?thesis by blast
    qed
  qed
qed

subsection \<open>What collect records\<close>

lemma linked_effects_simps [simp]:
  "linked_effects [] = []"
  "linked_effects (d1 @ d2) = linked_effects d1 @ linked_effects d2"
  "linked_effects (EvLink (LEffect e) # d) = e # linked_effects d"
  "linked_effects (EvLink (LComputed c) # d) = linked_effects d"
  "linked_effects (EvRun l # d) = linked_effects d"
  "linked_effects (EvRead g v # d) = linked_effects d"
  "linked_effects (EvWrite r v # d) = linked_effects d"
  "linked_effects (EvCommit r v # d) = linked_effects d"
  "linked_effects (EvCleanup e f # d) = linked_effects d"
  "linked_effects (EvUnlink l # d) = linked_effects d"
  by (simp_all add: linked_effects_def)

lemma recorded_refl [simp]: "recorded s s"
  by (simp add: recorded_def)

lemma upt_split: "a \<le> b \<Longrightarrow> b \<le> c \<Longrightarrow> [a..<b] @ [b..<c] = [a..<c]"
  using upt_add_eq_append[of a b "c - b"] by simp

lemma recorded_trans:
  assumes a: "recorded s s1" and b: "recorded s1 s2"
  shows "recorded s s2"
proof -
  have m: "refId s \<le> refId s1" "refId s1 \<le> refId s2" "computedId s \<le> computedId s1"
    "computedId s1 \<le> computedId s2" "effectId s \<le> effectId s1" "effectId s1 \<le> effectId s2"
    using a b by (auto simp: recorded_def)
  obtain d1 where d1: "trace s1 = trace s @ d1"
      "mset (linked_effects d1) = mset [effectId s..<effectId s1]"
      "\<forall>l'. currentEffects s1 = Some l' \<longrightarrow> (\<exists>l. currentEffects s = Some l \<and> l' = l @ linked_effects d1)"
    using a by (auto simp: recorded_def)
  obtain d2 where d2: "trace s2 = trace s1 @ d2"
      "mset (linked_effects d2) = mset [effectId s1..<effectId s2]"
      "\<forall>l'. currentEffects s2 = Some l' \<longrightarrow> (\<exists>l. currentEffects s1 = Some l \<and> l' = l @ linked_effects d2)"
    using b by (auto simp: recorded_def)
  have r: "\<forall>l'. currentRefs s2 = Some l' \<longrightarrow>
        (\<exists>l. currentRefs s = Some l \<and> l' = l @ [refId s..<refId s2])"
  proof (intro allI impI)
    fix l' assume "currentRefs s2 = Some l'"
    then obtain l1 where l1: "currentRefs s1 = Some l1" "l' = l1 @ [refId s1..<refId s2]"
      using b unfolding recorded_def by blast
    then obtain l where l: "currentRefs s = Some l" "l1 = l @ [refId s..<refId s1]"
      using a unfolding recorded_def by blast
    show "\<exists>l. currentRefs s = Some l \<and> l' = l @ [refId s..<refId s2]"
      using l l1 upt_split[OF m(1,2)] by simp
  qed
  have c: "\<forall>l'. currentComputes s2 = Some l' \<longrightarrow>
        (\<exists>l. currentComputes s = Some l \<and> l' = l @ [computedId s..<computedId s2])"
  proof (intro allI impI)
    fix l' assume "currentComputes s2 = Some l'"
    then obtain l1 where l1: "currentComputes s1 = Some l1" "l' = l1 @ [computedId s1..<computedId s2]"
      using b unfolding recorded_def by blast
    then obtain l where l: "currentComputes s = Some l" "l1 = l @ [computedId s..<computedId s1]"
      using a unfolding recorded_def by blast
    show "\<exists>l. currentComputes s = Some l \<and> l' = l @ [computedId s..<computedId s2]"
      using l l1 upt_split[OF m(3,4)] by simp
  qed
  have ms: "mset (linked_effects (d1 @ d2)) = mset [effectId s..<effectId s2]"
    using d1(2) d2(2) upt_split[OF m(5,6), symmetric] by simp
  have e: "\<forall>l'. currentEffects s2 = Some l' \<longrightarrow>
           (\<exists>l. currentEffects s = Some l \<and> l' = l @ linked_effects (d1 @ d2))"
  proof (intro allI impI)
    fix l' assume "currentEffects s2 = Some l'"
    then obtain l1 where l1: "currentEffects s1 = Some l1" "l' = l1 @ linked_effects d2"
      using d2(3) by blast
    then obtain l where l: "currentEffects s = Some l" "l1 = l @ linked_effects d1"
      using d1(3) by blast
    show "\<exists>l. currentEffects s = Some l \<and> l' = l @ linked_effects (d1 @ d2)"
      using l l1 by simp
  qed
  have "\<exists>d. trace s2 = trace s @ d \<and>
        mset (linked_effects d) = mset [effectId s..<effectId s2] \<and>
        (\<forall>l'. currentEffects s2 = Some l' \<longrightarrow>
           (\<exists>l. currentEffects s = Some l \<and> l' = l @ linked_effects d))"
    using d1(1) d2(1) ms e by (intro exI[of _ "d1 @ d2"]) simp
  then show ?thesis
    unfolding recorded_def using m r c by auto
qed

lemma guard_in_computed_mode:
  assumes "recursive s = ModeComputed"
  shows "ref v s = (s, Inl (TypeError ''Cannot construct ref inside computed''))"
    "computed ev fn s = (s, Inl (TypeError ''Cannot construct computed inside computed''))"
    "effect ev fn s = (s, Inl (TypeError ''Cannot construct effect inside computed''))"
proof -
  have a: "\<And>name. assertRecursive name s
      = Some (TypeError (''Cannot construct '' @ name @ '' inside computed''))"
    using assms by (simp add: assertRecursive_def mode_name_def)
  show "ref v s = (s, Inl (TypeError ''Cannot construct ref inside computed''))"
    by (simp add: ref_def RefState_new_def a)
  show "computed ev fn s = (s, Inl (TypeError ''Cannot construct computed inside computed''))"
    by (simp add: computed_def ComputedState_new_def a)
  show "effect ev fn s = (s, Inl (TypeError ''Cannot construct effect inside computed''))"
    by (simp add: effect_def EffectState_new_def a)
qed

lemma idle_trans: "idle s s1 \<Longrightarrow> idle s1 s2 \<Longrightarrow> idle s s2"
  by (auto simp: idle_def)

lemma run_in_computed_mode:
  "recursive s = ModeComputed \<Longrightarrow> run p s = (s', r) \<Longrightarrow> idle s s'"
proof (induction p arbitrary: s s' r rule: prog_induct)
  case (Return v)
  then show ?case by (auto simp: idle_def)
next
  case Throw
  then show ?case by (auto simp: idle_def)
next
  case (GetValue g k)
  show ?case
  proof (cases "read g s")
    case None
    then show ?thesis using GetValue.prems by (auto simp: idle_def)
  next
    case (Some a)
    obtain v s1 where a: "a = (v, s1)" by (cases a)
    have s1: "s1 = log (EvRead g v) (capture_get g s)"
      using Some a by (auto simp: read_def ref_get_def computed_get_def split: getter.splits option.splits)
    have i: "idle s s1" using GetValue.prems(1) by (simp add: idle_def s1)
    have "run (k v) s1 = (s', r)" using GetValue.prems Some a by simp
    from idle_trans[OF i GetValue.IH[OF _ this]] i show ?thesis by (simp add: idle_def)
  qed
next
  case (SetValue x v k)
  show ?case
  proof (cases "ref_set x v s")
    case None
    then show ?thesis using SetValue.prems by (auto simp: idle_def)
  next
    case (Some s1)
    have i: "idle s s1"
      using Some SetValue.prems(1)
      by (auto simp: idle_def ref_set_def Let_def split: option.splits if_splits)
    have "run k s1 = (s', r)" using SetValue.prems Some by simp
    from idle_trans[OF i SetValue.IH[OF _ this]] i show ?thesis by (simp add: idle_def)
  qed
next
  case (MkFun body k)
  have i: "idle s (s\<lparr>closures := closures s @ [body]\<rparr>)"
    using MkFun.prems(1) by (simp add: idle_def)
  have "run (k (VFun (length (closures s)))) (s\<lparr>closures := closures s @ [body]\<rparr>) = (s', r)"
    using MkFun.prems by simp
  from idle_trans[OF i MkFun.IH(2)[OF _ this]] i show ?case by (simp add: idle_def)
next
  case (NewRef v k)
  show ?case using NewRef.prems by (auto simp: guard_in_computed_mode idle_def)
next
  case (NewComputed fn k)
  show ?case using NewComputed.prems by (auto simp: guard_in_computed_mode idle_def)
next
  case (NewEffect fn k)
  show ?case using NewEffect.prems by (auto simp: guard_in_computed_mode idle_def)
next
  case (Collect fn k)
  define s0 where "s0 = s\<lparr>currentRefs := Some [], currentComputes := Some [], currentEffects := Some []\<rparr>"
  obtain s1 r1 where r1: "run fn s0 = (s1, r1)" by (cases "run fn s0")
  have "idle s0 s1" using Collect.IH(1)[OF _ r1] Collect.prems(1) by (simp add: s0_def)
  then have ih1: "idle s s1" by (simp add: idle_def s0_def)
  define s2 where "s2 = s1\<lparr>currentRefs := None, currentComputes := None, currentEffects := None\<rparr>"
  have i2: "idle s s2" using ih1 by (simp add: idle_def s2_def)
  show ?case
  proof (cases r1)
    case (Inl e)
    then have "s' = s2" using Collect.prems(2) r1 by (simp add: collect_def Let_def s0_def s2_def)
    then show ?thesis using i2 by simp
  next
    case (Inr ret)
    then have "run (k ret (currentRefs s1) (currentComputes s1) (currentEffects s1)) s2 = (s', r)"
      using Collect.prems(2) r1 by (simp add: collect_def Let_def s0_def s2_def)
    from idle_trans[OF i2 Collect.IH(2)[OF _ this]] i2 show ?thesis by (simp add: idle_def)
  qed
qed

lemma recordedI:
  assumes "refId s \<le> refId s'" "computedId s \<le> computedId s'" "effectId s \<le> effectId s'"
    and "\<And>l'. currentRefs s' = Some l' \<Longrightarrow>
        \<exists>l. currentRefs s = Some l \<and> l' = l @ [refId s..<refId s']"
    and "\<And>l'. currentComputes s' = Some l' \<Longrightarrow>
        \<exists>l. currentComputes s = Some l \<and> l' = l @ [computedId s..<computedId s']"
    and "trace s' = trace s @ d" "mset (linked_effects d) = mset [effectId s..<effectId s']"
    and "\<And>l'. currentEffects s' = Some l' \<Longrightarrow>
           \<exists>l. currentEffects s = Some l \<and> l' = l @ linked_effects d"
  shows "recorded s s'"
  unfolding recorded_def using assms by blast

lemma push_opt_Some: "push_opt x l = Some l' \<longleftrightarrow> (\<exists>xs. l = Some xs \<and> l' = xs @ [x])"
  by (auto simp: push_opt_def split: option.splits)

lemma computed_recorded:
  assumes ev: "\<forall>s1 s2 v. ev s1 = (s2, Inr v) \<longrightarrow> recorded s1 s2"
    and idl: "\<forall>s1 s2 r. recursive s1 = ModeComputed \<longrightarrow> ev s1 = (s2, r) \<longrightarrow> idle s1 s2"
    and c: "computed ev fn s = (s', Inr c)"
  shows "recorded s s'"
proof -
  define X where "X = computedId s"
  obtain sa where n: "ComputedState_new ev fn s = (sa, Inr c)"
    and s': "s' = sa\<lparr>currentComputes := push_opt c (currentComputes sa)\<rparr>"
    using c by (auto simp: computed_def split: prod.splits sum.splits)
  from ComputedState_new_result[OF n] obtain s2 cap state where
    rc: "runCapture ev (log (EvRun (LComputed X)) (s\<lparr>computedId := Suc X, recursive := ModeComputed\<rparr>))
           = (s2, Inr state, cap)"
    and cX: "c = X"
    and sa: "sa = link (LComputed X) (getters cap)
                  (s2\<lparr>recursive := NoMode,
                      computeds := (computeds s2)(X \<mapsto>
                         \<lparr>c_fn = fn, c_old = state, c_state = state, c_capture = cap,
                           c_listeners = []\<rparr>)\<rparr>)"
    by (auto simp: X_def)
  define s1 where "s1 = (log (EvRun (LComputed X)) (s\<lparr>computedId := Suc X, recursive := ModeComputed\<rparr>))
                          \<lparr>currentCapture := Some emptyCapture\<rparr>"
  obtain s2r where s2r: "ev s1 = (s2r, Inr state)" "s2 = s2r\<lparr>currentCapture := currentCapture s\<rparr>"
    using rc by (auto elim!: runCapture_result simp: s1_def)
  have r1: "recorded s1 s2r" using ev s2r(1) by blast
  have i1: "idle s1 s2r" using idl s2r(1) by (auto simp: s1_def)
  obtain d where d: "trace s2r = trace s1 @ d" "mset (linked_effects d) = mset [effectId s1..<effectId s2r]"
      "\<forall>l'. currentEffects s2r = Some l' \<longrightarrow> (\<exists>l. currentEffects s1 = Some l \<and> l' = l @ linked_effects d)"
    using r1 by (auto simp: recorded_def)
  have cnt: "refId s1 = refId s" "computedId s1 = Suc X" "effectId s1 = effectId s"
    "currentRefs s1 = currentRefs s" "currentComputes s1 = currentComputes s"
    "currentEffects s1 = currentEffects s" "trace s1 = trace s @ [EvRun (LComputed X)]"
    by (simp_all add: s1_def)
  have cnt2: "computedId s2r = Suc X" using i1 by (simp add: idle_def cnt)
  have f': "refId s' = refId s2r" "computedId s' = computedId s2r" "effectId s' = effectId s2r"
    "currentRefs s' = currentRefs s2r" "currentComputes s' = push_opt X (currentComputes s2r)"
    "currentEffects s' = currentEffects s2r"
    "trace s' = trace s2r @ [EvLink (LComputed X)]"
    by (simp_all add: s' sa s2r cX)
  show ?thesis
  proof (rule recordedI[where d = "[EvRun (LComputed X)] @ d @ [EvLink (LComputed X)]"])
    show "refId s \<le> refId s'" "computedId s \<le> computedId s'" "effectId s \<le> effectId s'"
      using r1 by (auto simp: recorded_def f' cnt cnt2 X_def)
    show "trace s' = trace s @ [EvRun (LComputed X)] @ d @ [EvLink (LComputed X)]"
      by (simp add: f' d cnt)
    show "mset (linked_effects ([EvRun (LComputed X)] @ d @ [EvLink (LComputed X)]))
            = mset [effectId s..<effectId s']"
      using d(2) by (simp add: f' cnt)
    show "\<exists>l. currentRefs s = Some l \<and> l' = l @ [refId s..<refId s']"
      if "currentRefs s' = Some l'" for l'
      using that r1 by (auto simp: recorded_def f' cnt)
    show "\<exists>l. currentComputes s = Some l \<and> l' = l @ [computedId s..<computedId s']"
      if "currentComputes s' = Some l'" for l'
      using that r1 by (auto simp: recorded_def f' cnt cnt2 push_opt_Some X_def)
    show "\<exists>l. currentEffects s = Some l \<and>
             l' = l @ linked_effects ([EvRun (LComputed X)] @ d @ [EvLink (LComputed X)])"
      if "currentEffects s' = Some l'" for l'
      using that d(3) by (auto simp: f' cnt)
  qed
qed

lemma effect_recorded:
  assumes ev: "\<forall>s1 s2 v. ev s1 = (s2, Inr v) \<longrightarrow> recorded s1 s2"
    and c: "effect ev fn s = (s', Inr c)"
  shows "recorded s s'"
proof -
  define X where "X = effectId s"
  obtain sa where n: "EffectState_new ev fn s = (sa, Inr c)"
    and s': "s' = sa\<lparr>currentEffects := push_opt c (currentEffects sa)\<rparr>"
    using c by (auto simp: effect_def split: prod.splits sum.splits)
  from EffectState_new_result[OF n] obtain s2 cap clear where
    rc: "runCapture ev (log (EvRun (LEffect X)) (s\<lparr>effectId := Suc X, recursive := ModeEffect\<rparr>))
           = (s2, Inr clear, cap)"
    and cX: "c = X"
    and sa: "sa = link (LEffect X) (getters cap)
                  (s2\<lparr>recursive := NoMode,
                      effects := (effects s2)(X \<mapsto>
                         \<lparr>e_fn = fn, e_capture = cap, e_clear = clear, e_deleted = False\<rparr>)\<rparr>)"
    by (auto simp: X_def)
  define s1 where "s1 = (log (EvRun (LEffect X)) (s\<lparr>effectId := Suc X, recursive := ModeEffect\<rparr>))
                          \<lparr>currentCapture := Some emptyCapture\<rparr>"
  obtain s2r where s2r: "ev s1 = (s2r, Inr clear)" "s2 = s2r\<lparr>currentCapture := currentCapture s\<rparr>"
    using rc by (auto elim!: runCapture_result simp: s1_def)
  have r1: "recorded s1 s2r" using ev s2r(1) by blast
  obtain d where d: "trace s2r = trace s1 @ d" "mset (linked_effects d) = mset [effectId s1..<effectId s2r]"
      "\<forall>l'. currentEffects s2r = Some l' \<longrightarrow> (\<exists>l. currentEffects s1 = Some l \<and> l' = l @ linked_effects d)"
    using r1 by (auto simp: recorded_def)
  have cnt: "refId s1 = refId s" "computedId s1 = computedId s" "effectId s1 = Suc X"
    "currentRefs s1 = currentRefs s" "currentComputes s1 = currentComputes s"
    "currentEffects s1 = currentEffects s" "trace s1 = trace s @ [EvRun (LEffect X)]"
    by (simp_all add: s1_def)
  have le: "Suc X \<le> effectId s2r" using r1 by (simp add: recorded_def cnt)
  have f': "refId s' = refId s2r" "computedId s' = computedId s2r" "effectId s' = effectId s2r"
    "currentRefs s' = currentRefs s2r" "currentComputes s' = currentComputes s2r"
    "currentEffects s' = push_opt X (currentEffects s2r)"
    "trace s' = trace s2r @ [EvLink (LEffect X)]"
    by (simp_all add: s' sa s2r cX)
  have up: "[X..<effectId s2r] = X # [Suc X..<effectId s2r]"
    using le by (simp add: upt_conv_Cons)
  show ?thesis
  proof (rule recordedI[where d = "[EvRun (LEffect X)] @ d @ [EvLink (LEffect X)]"])
    show "refId s \<le> refId s'" "computedId s \<le> computedId s'" "effectId s \<le> effectId s'"
      using r1 le by (auto simp: recorded_def f' cnt X_def)
    show "trace s' = trace s @ [EvRun (LEffect X)] @ d @ [EvLink (LEffect X)]"
      by (simp add: f' d cnt)
    show "mset (linked_effects ([EvRun (LEffect X)] @ d @ [EvLink (LEffect X)]))
            = mset [effectId s..<effectId s']"
      using d(2) up by (simp add: f' cnt X_def[symmetric])
    show "\<exists>l. currentRefs s = Some l \<and> l' = l @ [refId s..<refId s']"
      if "currentRefs s' = Some l'" for l'
      using that r1 by (auto simp: recorded_def f' cnt)
    show "\<exists>l. currentComputes s = Some l \<and> l' = l @ [computedId s..<computedId s']"
      if "currentComputes s' = Some l'" for l'
      using that r1 by (auto simp: recorded_def f' cnt)
    show "\<exists>l. currentEffects s = Some l \<and>
             l' = l @ linked_effects ([EvRun (LEffect X)] @ d @ [EvLink (LEffect X)])"
      if "currentEffects s' = Some l'" for l'
      using that d(3) by (auto simp: f' cnt push_opt_Some)
  qed
qed

lemma run_idle: "\<forall>s1 s2 r. recursive s1 = ModeComputed \<longrightarrow> run p s1 = (s2, r) \<longrightarrow> idle s1 s2"
  using run_in_computed_mode by blast

lemma run_recorded: "run p s = (s', Inr v) \<Longrightarrow> recorded s s'"
proof (induction p arbitrary: s s' v rule: prog_induct)
  case (Return v)
  then show ?case by auto
next
  case Throw
  then show ?case by auto
next
  case (GetValue g k)
  obtain w s1 where rd: "read g s = Some (w, s1)"
    using GetValue.prems by (auto split: option.splits)
  have s1: "s1 = log (EvRead g w) (capture_get g s)"
    using rd by (auto simp: read_def ref_get_def computed_get_def split: getter.splits option.splits)
  have a: "recorded s s1"
    by (rule recordedI[where d = "[EvRead g w]"]) (simp_all add: s1 capture_get_def split: option.splits)
  have "run (k w) s1 = (s', Inr v)" using GetValue.prems rd by simp
  from recorded_trans[OF a GetValue.IH[OF this]] show ?case .
next
  case (SetValue x w k)
  obtain s1 where rs: "ref_set x w s = Some s1"
    using SetValue.prems by (auto split: option.splits)
  have f: "refId s1 = refId s" "computedId s1 = computedId s" "effectId s1 = effectId s"
    "currentRefs s1 = currentRefs s" "currentComputes s1 = currentComputes s"
    "currentEffects s1 = currentEffects s"
    using rs
    by (auto simp: ref_set_def Let_def capture_set_def enqueueUpdate_def log_def
        split: option.splits if_splits)
  obtain d where d: "trace s1 = trace s @ d" "linked_effects d = []"
    using rs by (auto simp: ref_set_def Let_def split: option.splits if_splits)
  have a: "recorded s s1"
    by (rule recordedI[where d = d]) (simp_all add: f d)
  have "run k s1 = (s', Inr v)" using SetValue.prems rs by simp
  from recorded_trans[OF a SetValue.IH[OF this]] show ?case .
next
  case (MkFun body k)
  have a: "recorded s (s\<lparr>closures := closures s @ [body]\<rparr>)"
    by (rule recordedI[where d = "[]"]) simp_all
  have "run (k (VFun (length (closures s)))) (s\<lparr>closures := closures s @ [body]\<rparr>) = (s', Inr v)"
    using MkFun.prems by simp
  from recorded_trans[OF a MkFun.IH(2)[OF this]] show ?case .
next
  case (NewRef w k)
  obtain s1 r where c: "ref w s = (s1, Inr r)"
    using NewRef.prems by (auto split: prod.splits sum.splits)
  define w' where "w' = (if w = VUndef then VNull else w)"
  have s1: "r = refId s" "s1 = s\<lparr>refId := Suc (refId s),
                 refs := (refs s)(refId s \<mapsto> \<lparr>r_old = w', r_state = w', r_pending = w', r_listeners = []\<rparr>),
                 currentRefs := push_opt (refId s) (currentRefs s)\<rparr>"
    using ref_result[OF c w'_def] by auto
  have a: "recorded s s1"
    by (rule recordedI[where d = "[]"]) (auto simp: s1 push_opt_Some)
  have "run (k r) s1 = (s', Inr v)" using NewRef.prems c by simp
  from recorded_trans[OF a NewRef.IH[OF this]] show ?case .
next
  case (NewComputed fn k)
  obtain s1 c where c: "computed (run fn) fn s = (s1, Inr c)"
    using NewComputed.prems by (auto split: prod.splits sum.splits)
  have ev: "\<forall>s1 s2 v. run fn s1 = (s2, Inr v) \<longrightarrow> recorded s1 s2"
    using NewComputed.IH(1) by blast
  note a = computed_recorded[OF ev run_idle c]
  have "run (k c) s1 = (s', Inr v)" using NewComputed.prems c by simp
  from recorded_trans[OF a NewComputed.IH(2)[OF this]] show ?case .
next
  case (NewEffect fn k)
  obtain s1 c where c: "effect (run fn) fn s = (s1, Inr c)"
    using NewEffect.prems by (auto split: prod.splits sum.splits)
  have ev: "\<forall>s1 s2 v. run fn s1 = (s2, Inr v) \<longrightarrow> recorded s1 s2"
    using NewEffect.IH(1) by blast
  note a = effect_recorded[OF ev c]
  have "run k s1 = (s', Inr v)" using NewEffect.prems c by simp
  from recorded_trans[OF a NewEffect.IH(2)[OF this]] show ?case .
next
  case (Collect fn k)
  define s0 where "s0 = s\<lparr>currentRefs := Some [], currentComputes := Some [], currentEffects := Some []\<rparr>"
  obtain s2 ret where r1: "run fn s0 = (s2, Inr ret)"
    using Collect.prems
    by (auto simp: collect_def Let_def s0_def split: prod.splits sum.splits)
  define s3 where "s3 = s2\<lparr>currentRefs := None, currentComputes := None, currentEffects := None\<rparr>"
  note ih = Collect.IH(1)[OF r1]
  obtain d where d: "trace s2 = trace s0 @ d" "mset (linked_effects d) = mset [effectId s0..<effectId s2]"
    using ih by (auto simp: recorded_def)
  have a: "recorded s s3"
    by (rule recordedI[where d = d]) (use ih d in \<open>auto simp: recorded_def s0_def s3_def\<close>)
  have "run (k ret (currentRefs s2) (currentComputes s2) (currentEffects s2)) s3 = (s', Inr v)"
    using Collect.prems r1 by (simp add: collect_def Let_def s0_def s3_def)
  from recorded_trans[OF a Collect.IH(2)[OF this]] show ?case .
qed

subsection \<open>Evaluations that return\<close>

lemma wf_run_init: "wf (fst (run p init))"
  using run_ext[OF wf_init, of p] by (cases "run p init") auto

lemma computed_mirror:
  assumes w: "wf s" and c: "computed (run fn) fn s = (s', Inr c)"
  shows "mirror_exact s' (LComputed c)"
proof -
  define X where "X = computedId s"
  define s1 where "s1 = log (EvRun (LComputed X)) (s\<lparr>computedId := Suc X, recursive := ModeComputed\<rparr>)"
  have w1: "wf s1"
    using w unfolding s1_def
    by (auto simp: wf_def ids_ok_def mirror_sub_def old_def X_def less_Suc_eq split: listener.splits)
  note ce = computed_ext[OF run_tame c w]
  obtain sa where n: "ComputedState_new (run fn) fn s = (sa, Inr c)"
    and s': "s' = sa\<lparr>currentComputes := push_opt c (currentComputes sa)\<rparr>"
    using c by (auto simp: computed_def split: prod.splits sum.splits)
  from ComputedState_new_result[OF n] obtain s2 cap state where
    rc: "runCapture (run fn) s1 = (s2, Inr state, cap)"
    and cX: "c = X"
    and sa: "sa = link (LComputed X) (getters cap)
                  (s2\<lparr>recursive := NoMode,
                      computeds := (computeds s2)(X \<mapsto>
                         \<lparr>c_fn = fn, c_old = state, c_state = state, c_capture = cap,
                           c_listeners = []\<rparr>)\<rparr>)"
    by (auto simp: X_def s1_def)
  define s4 where "s4 = s2\<lparr>recursive := NoMode,
                      computeds := (computeds s2)(X \<mapsto>
                         \<lparr>c_fn = fn, c_old = state, c_state = state, c_capture = cap,
                           c_listeners = []\<rparr>)\<rparr>"
  note rce = runCapture_ext[OF run_tame rc w1]
  have cap': "captureOf s' (LComputed X) = cap"
    by (simp add: s' sa captureOf_def)
  have pres: "\<And>g. g \<in> set (getters cap) \<Longrightarrow> present s4 g"
    using rce(3) by (auto simp: s4_def present_def split: getter.splits)
  have li: "\<And>g. g \<in> set (getters cap) \<Longrightarrow> LComputed X \<in> set (listenersOf s' g)"
    using pres by (simp add: s' sa set_listenersOf_link s4_def[symmetric])
  have "\<And>g. LComputed X \<in> set (listenersOf s' g) \<Longrightarrow> g \<in> set (getters cap)"
    using ce cap' by (auto simp: wf_def mirror_sub_def)
  then show ?thesis using li cap' by (auto simp: mirror_exact_def cX)
qed

lemma effect_mirror:
  assumes w: "wf s" and c: "effect (run fn) fn s = (s', Inr c)"
  shows "mirror_exact s' (LEffect c)"
proof -
  define X where "X = effectId s"
  define s1 where "s1 = log (EvRun (LEffect X)) (s\<lparr>effectId := Suc X, recursive := ModeEffect\<rparr>)"
  have w1: "wf s1"
    using w unfolding s1_def
    by (auto simp: wf_def ids_ok_def mirror_sub_def old_def X_def less_Suc_eq split: listener.splits)
  note ce = effect_ext[OF run_tame c w]
  obtain sa where n: "EffectState_new (run fn) fn s = (sa, Inr c)"
    and s': "s' = sa\<lparr>currentEffects := push_opt c (currentEffects sa)\<rparr>"
    using c by (auto simp: effect_def split: prod.splits sum.splits)
  from EffectState_new_result[OF n] obtain s2 cap clear where
    rc: "runCapture (run fn) s1 = (s2, Inr clear, cap)"
    and cX: "c = X"
    and sa: "sa = link (LEffect X) (getters cap)
                  (s2\<lparr>recursive := NoMode,
                      effects := (effects s2)(X \<mapsto>
                         \<lparr>e_fn = fn, e_capture = cap, e_clear = clear, e_deleted = False\<rparr>)\<rparr>)"
    by (auto simp: X_def s1_def)
  define s4 where "s4 = s2\<lparr>recursive := NoMode,
                      effects := (effects s2)(X \<mapsto>
                         \<lparr>e_fn = fn, e_capture = cap, e_clear = clear, e_deleted = False\<rparr>)\<rparr>"
  note rce = runCapture_ext[OF run_tame rc w1]
  have cap': "captureOf s' (LEffect X) = cap"
    by (simp add: s' sa captureOf_def)
  have pres: "\<And>g. g \<in> set (getters cap) \<Longrightarrow> present s4 g"
    using rce(3) by (auto simp: s4_def present_def split: getter.splits)
  have li: "\<And>g. g \<in> set (getters cap) \<Longrightarrow> LEffect X \<in> set (listenersOf s' g)"
    using pres by (simp add: s' sa set_listenersOf_link s4_def[symmetric])
  have "\<And>g. LEffect X \<in> set (listenersOf s' g) \<Longrightarrow> g \<in> set (getters cap)"
    using ce cap' by (auto simp: wf_def mirror_sub_def)
  then show ?thesis using li cap' by (auto simp: mirror_exact_def cX)
qed

lemma computed_update_ok:
  assumes w: "wf s" and x0: "computeds s c = Some x0" and u: "computed_update c s = (s', Inr b)"
  shows "\<exists>s2 v cap d. reevaluate c x0 s = (s2, Inr v, cap) \<and> b = (\<not> strict_eq v (c_state x0)) \<and> wf s' \<and>
     captureOf s' (LComputed c) = cap \<and> mirror_exact s' (LComputed c) \<and>
     map_option c_state (computeds s' c) = Some v \<and>
     trace s' = trace s @ [EvUnlink (LComputed c), EvRun (LComputed c)] @ d @ [EvLink (LComputed c)] \<and>
     (\<forall>ev \<in> set d. fresh_ev s ev)"
  using computed_update_props[OF w x0 u]
proof (elim exE conjE)
  fix s2 r cap d
  assume p: "runCapture (run (c_fn x0))
       (log (EvRun (LComputed c)) (unlink (LComputed c) (getters (c_capture x0)) s)) = (s2, r, cap)"
    "wf s'" "captureOf s' (LComputed c) = cap"
    "trace s' = trace s @ [EvUnlink (LComputed c), EvRun (LComputed c)] @ d
                  @ (case r of Inl _ \<Rightarrow> [] | Inr _ \<Rightarrow> [EvLink (LComputed c)])"
    "\<forall>ev \<in> set d. fresh_ev s ev"
    "case r of
         Inl e \<Rightarrow> Inr b = Inl e \<and> (\<forall>g. LComputed c \<notin> set (listenersOf s' g))
       | Inr v \<Rightarrow> Inr b = Inr (\<not> strict_eq v (c_state x0))
           \<and> (\<forall>g. LComputed c \<in> set (listenersOf s' g) \<longleftrightarrow> g \<in> set (getters cap))
           \<and> map_option c_state (computeds s' c) = Some v"
  from p(6) obtain v where v: "r = Inr v" by (cases r) auto
  show ?thesis
    using p unfolding v
    by (intro exI[of _ s2] exI[of _ v] exI[of _ cap] exI[of _ d])
       (simp add: reevaluate_def mirror_exact_def)
qed

subsection \<open>The example graph\<close>

lemmas demo_defs = demo_state_def demo_def init_def ctor_defs flush_defs

lemma wf_demo: "wf demo_state"
  by (simp add: demo_state_def wf_run_init)

lemma demo_nodes:
  "effects demo_state 0 = Some \<lparr>e_fn = GetValue (GComputed 0) (\<lambda>v. MkFun (Return VUndef) Return),
      e_capture = \<lparr>getters = [GComputed 0], setters = []\<rparr>, e_clear = VFun 0, e_deleted = False\<rparr>"
  "computeds demo_state 0 = Some \<lparr>c_fn = GetValue (GRef 0) Return, c_old = VNum 1, c_state = VNum 1,
      c_capture = \<lparr>getters = [GRef 0], setters = []\<rparr>, c_listeners = [LEffect 0]\<rparr>"
  "refs demo_state 0 = Some \<lparr>r_old = VNum 1, r_state = VNum 1, r_pending = VNum 1,
      r_listeners = [LComputed 0]\<rparr>"
  by (simp_all add: demo_defs)

lemma demo_updates:
  "snd (computed_update 0 demo_state) = Inr False"
  "snd (effect_update 0 demo_state) = Inr False"
  "snd (computed (run (GetValue (GRef 0) Return)) (GetValue (GRef 0) Return) demo_state) = Inr 1"
  "snd (effect (run (GetValue (GRef 0) Return)) (GetValue (GRef 0) Return) demo_state) = Inr 1"
  by (simp_all add: demo_defs)

lemma drain_snoc:
  "drain (Suc fuel) (q @ [n]) s =
     (case node_update n s of
        (s1, Inl e) \<Rightarrow> Some (s1, Inl e)
      | (s1, Inr changed) \<Rightarrow> drain fuel (q @ pushed n changed s1) s1)"
  by (cases q) (auto simp: Let_def split: prod.splits sum.splits)

lemma fresh_ev_not_old:
  assumes "fresh_ev s ev" "e < effectId s"
  shows "ev \<noteq> EvCleanup e' f' \<and> ev \<noteq> EvUnlink l \<and> ev \<noteq> EvRun (LEffect e) \<and> ev \<noteq> EvLink (LEffect e)"
  using assms by (auto simp: fresh_ev_def old_def)

lemma effect_update_ok:
  assumes "wf s" and "effects s e = Some x0" and "\<not> e_deleted x0"
    and "effect_update e s = (s', Inr b)"
  shows "\<not> b" "wf s'" "mirror_exact s' (LEffect e)"
    "\<exists>tc tb. trace s' = trace s @ cleanup_events e (e_clear x0) @ tc
                    @ [EvUnlink (LEffect e), EvRun (LEffect e)] @ tb @ [EvLink (LEffect e)]
                 \<and> (\<forall>ev \<in> set (tc @ tb). fresh_ev s ev)"
  using effect_update_props[OF assms] by (simp_all add: mirror_exact_def)

lemma ref_set_obs:
  assumes "ref_set r v s = Some s1" and "committed s r = Some c"
  shows "committed s1 = committed s"
    "refId s1 = refId s"
    "pending s1 r = (if strict_eq v c then pending s r else Some v)"
    "dirtyStates s1 = (if strict_eq v c then dirtyStates s else set_add r (dirtyStates s))"
    "trace s1 = trace s @ (if strict_eq v c then [] else [EvWrite r v])"
    "strict_eq v c \<Longrightarrow> s1 = capture_set r s"
  using assms
  by (auto simp: ref_set_def Let_def committed_def pending_def fun_eq_iff
      split: option.splits if_splits)


lemma filter_commit_of_events:
  assumes "distinct rs"
  shows "filter (commit_of r) (commit_events s rs) =
     (if r \<in> set rs then commit_events s [r] else [])"
  using assms
proof (induction rs)
  case Nil
  then show ?case by (simp add: commit_events_def)
next
  case (Cons a rs)
  have one: "\<And>a. filter (commit_of r) (commit_events s [a]) = (if a = r then commit_events s [r] else [])"
    by (auto simp: commit_events_def commit_of_def split: option.splits)
  show ?case
    using Cons by (subst commit_events_Cons) (auto simp: one)
qed

lemma calm_filter_commit: "\<forall>ev \<in> set d. calm s ev \<Longrightarrow> filter (commit_of r) d = []"
  by (induction d) (auto simp: calm_def commit_of_def split: event.splits)

subsection \<open>Writes, the dirty set and deleted effects\<close>

lemma tracked_frame [simp]:
  "tracked s (currentCapture_update f0 s') = tracked s s'"
  "tracked s (currentUpdate_update f2 s') = tracked s s'"
  "tracked s (recursive_update f3 s') = tracked s s'"
  "tracked s (refId_update f4 s') = tracked s s'"
  "tracked s (computedId_update f5 s') = tracked s s'"
  "tracked s (effectId_update f6 s') = tracked s s'"
  "tracked s (currentRefs_update f7 s') = tracked s s'"
  "tracked s (currentComputes_update f8 s') = tracked s s'"
  "tracked s (currentEffects_update f9 s') = tracked s s'"
  "tracked s (refs_update f10 s') = tracked s s'"
  "tracked s (computeds_update f11 s') = tracked s s'"
  "tracked s (closures_update f13 s') = tracked s s'"
  "tracked s (timers_update f14 s') = tracked s s'"
  "tracked (currentCapture_update f0 s) s' = tracked s s'"
  "tracked (currentUpdate_update f2 s) s' = tracked s s'"
  "tracked (recursive_update f3 s) s' = tracked s s'"
  "tracked (refId_update f4 s) s' = tracked s s'"
  "tracked (computedId_update f5 s) s' = tracked s s'"
  "tracked (effectId_update f6 s) s' = tracked s s'"
  "tracked (currentRefs_update f7 s) s' = tracked s s'"
  "tracked (currentComputes_update f8 s) s' = tracked s s'"
  "tracked (currentEffects_update f9 s) s' = tracked s s'"
  "tracked (refs_update f10 s) s' = tracked s s'"
  "tracked (computeds_update f11 s) s' = tracked s s'"
  "tracked (closures_update f13 s) s' = tracked s s'"
  "tracked (timers_update f14 s) s' = tracked s s'"
  by (simp_all add: tracked_def)

lemma tracked_refl [simp]: "tracked s s"
  by (simp add: tracked_def)

lemma tracked_trans:
  assumes a: "tracked s s1" and b: "tracked s1 s2"
  shows "tracked s s2"
proof -
  obtain d1 where d1: "trace s1 = trace s @ d1"
      "\<forall>r \<in> set (dirtyStates s1). r \<in> set (dirtyStates s) \<or> (\<exists>v. EvWrite r v \<in> set d1)"
    using a by (auto simp: tracked_def)
  obtain d2 where d2: "trace s2 = trace s1 @ d2"
      "\<forall>r \<in> set (dirtyStates s2). r \<in> set (dirtyStates s1) \<or> (\<exists>v. EvWrite r v \<in> set d2)"
    using b by (auto simp: tracked_def)
  have t: "\<exists>d. trace s2 = trace s @ d \<and>
        (\<forall>r \<in> set (dirtyStates s2). r \<in> set (dirtyStates s) \<or> (\<exists>v. EvWrite r v \<in> set d))"
  proof (intro exI[of _ "d1 @ d2"] conjI ballI)
    show "trace s2 = trace s @ d1 @ d2" using d1(1) d2(1) by simp
    fix r assume "r \<in> set (dirtyStates s2)"
    then consider "r \<in> set (dirtyStates s1)" | v where "EvWrite r v \<in> set d2"
      using d2(2) by blast
    then show "r \<in> set (dirtyStates s) \<or> (\<exists>v. EvWrite r v \<in> set (d1 @ d2))"
    proof cases
      case 1
      then show ?thesis using d1(2) by auto
    next
      case 2
      then show ?thesis by auto
    qed
  qed
  have e: "\<forall>e x'. effects s2 e = Some x' \<longrightarrow> e_deleted x' \<longrightarrow>
        (\<exists>x. effects s e = Some x \<and> e_deleted x)"
  proof (intro allI impI)
    fix e x' assume "effects s2 e = Some x'" "e_deleted x'"
    then obtain x1 where "effects s1 e = Some x1" "e_deleted x1"
      using b unfolding tracked_def by blast
    then show "\<exists>x. effects s e = Some x \<and> e_deleted x"
      using a unfolding tracked_def by blast
  qed
  show ?thesis unfolding tracked_def using t e by blast
qed

lemma trackedI:
  assumes "trace s' = trace s @ d" "dirtyStates s' = dirtyStates s"
    and "\<And>e x'. effects s' e = Some x' \<Longrightarrow> e_deleted x' \<Longrightarrow> \<exists>x. effects s e = Some x \<and> e_deleted x"
  shows "tracked s s'"
  unfolding tracked_def using assms by auto

lemma tracked_log: "tracked s (log ev s)"
  by (rule trackedI[where d = "[ev]"]) simp_all

lemma tracked_link: "tracked s (link l gs s)"
  by (rule trackedI[where d = "[EvLink l]"]) simp_all

lemma tracked_unlink: "tracked s (unlink l gs s)"
  by (rule trackedI[where d = "[EvUnlink l]"]) simp_all

lemma read_tracked: "read g s = Some (v, s1) \<Longrightarrow> tracked s s1"
  by (rule trackedI[where d = "[EvRead g v]"])
     (auto simp: read_def ref_get_def computed_get_def split: getter.splits option.splits)

lemma ref_set_tracked:
  assumes "ref_set r v s = Some s1"
  shows "tracked s s1"
proof -
  have "(trace s1 = trace s \<and> dirtyStates s1 = dirtyStates s \<or>
         trace s1 = trace s @ [EvWrite r v] \<and> dirtyStates s1 = set_add r (dirtyStates s)) \<and>
        effects s1 = effects s"
    using assms by (auto simp: ref_set_def Let_def split: option.splits if_splits)
  then show ?thesis
    unfolding tracked_def by (elim conjE disjE) auto
qed

lemma ref_tracked: "ref v s = (s1, res) \<Longrightarrow> tracked s s1"
  using ref_result[of v s s1 res, OF _ refl] by auto

lemma runCapture_tracked:
  assumes ev: "\<forall>s1. tracked s1 (fst (ev s1))" and rc: "runCapture ev s = (s2, r, cap)"
  shows "tracked s s2"
proof -
  obtain s2r where s2r: "ev (s\<lparr>currentCapture := Some emptyCapture\<rparr>) = (s2r, r)"
    "s2 = s2r\<lparr>currentCapture := currentCapture s\<rparr>"
    using rc by (rule runCapture_result)
  have "tracked (s\<lparr>currentCapture := Some emptyCapture\<rparr>) s2r"
    using ev s2r(1) by (metis fst_conv)
  then show ?thesis by (simp add: s2r)
qed

lemma tracked_then_link:
  "tracked s s2 \<Longrightarrow> tracked s (link l gs s2)"
  using tracked_trans[OF _ tracked_link] .

lemma computed_tracked:
  assumes ev: "\<forall>s1. tracked s1 (fst (ev s1))" and c: "computed ev fn s = (s', res)"
  shows "tracked s s'"
proof -
  obtain sa ra where n: "ComputedState_new ev fn s = (sa, ra)" by (cases "ComputedState_new ev fn s")
  have push: "tracked s sa \<Longrightarrow> tracked s s'"
    using c n by (auto simp: computed_def split: sum.splits)
  have s1: "tracked s (log (EvRun (LComputed (computedId s)))
                   (s\<lparr>computedId := Suc (computedId s), recursive := ModeComputed\<rparr>))"
    using tracked_log[of "s\<lparr>computedId := Suc (computedId s), recursive := ModeComputed\<rparr>"]
    by simp
  from ComputedState_new_result[OF n] have "tracked s sa"
  proof (elim disjE exE conjE)
    fix e assume "sa = s" then show ?thesis by simp
  next
    fix s2 r cap e
    assume rc: "runCapture ev (log (EvRun (LComputed (computedId s)))
              (s\<lparr>computedId := Suc (computedId s), recursive := ModeComputed\<rparr>)) = (s2, r, cap)"
      and sa: "sa = s2"
    show ?thesis using tracked_trans[OF s1 runCapture_tracked[OF ev rc]] sa by simp
  next
    fix s2 r cap state
    assume rc: "runCapture ev (log (EvRun (LComputed (computedId s)))
              (s\<lparr>computedId := Suc (computedId s), recursive := ModeComputed\<rparr>)) = (s2, r, cap)"
      and sa: "sa = link (LComputed (computedId s)) (getters cap)
                  (s2\<lparr>recursive := NoMode,
                      computeds := (computeds s2)(computedId s \<mapsto>
                         \<lparr>c_fn = fn, c_old = state, c_state = state, c_capture = cap,
                           c_listeners = []\<rparr>)\<rparr>)"
    have "tracked s (s2\<lparr>recursive := NoMode,
                      computeds := (computeds s2)(computedId s \<mapsto>
                         \<lparr>c_fn = fn, c_old = state, c_state = state, c_capture = cap,
                           c_listeners = []\<rparr>)\<rparr>)"
      using tracked_trans[OF s1 runCapture_tracked[OF ev rc]] by simp
    then show ?thesis unfolding sa by (rule tracked_then_link)
  qed
  then show ?thesis by (rule push)
qed

lemma effect_tracked:
  assumes ev: "\<forall>s1. tracked s1 (fst (ev s1))" and c: "effect ev fn s = (s', res)"
  shows "tracked s s'"
proof -
  obtain sa ra where n: "EffectState_new ev fn s = (sa, ra)" by (cases "EffectState_new ev fn s")
  have push: "tracked s sa \<Longrightarrow> tracked s s'"
    using c n by (auto simp: effect_def split: sum.splits)
  have s1: "tracked s (log (EvRun (LEffect (effectId s)))
                   (s\<lparr>effectId := Suc (effectId s), recursive := ModeEffect\<rparr>))"
    using tracked_log[of "s\<lparr>effectId := Suc (effectId s), recursive := ModeEffect\<rparr>"]
    by simp
  from EffectState_new_result[OF n] have "tracked s sa"
  proof (elim disjE exE conjE)
    fix e assume "sa = s" then show ?thesis by simp
  next
    fix s2 r cap e
    assume rc: "runCapture ev (log (EvRun (LEffect (effectId s)))
              (s\<lparr>effectId := Suc (effectId s), recursive := ModeEffect\<rparr>)) = (s2, r, cap)"
      and sa: "sa = s2"
    show ?thesis using tracked_trans[OF s1 runCapture_tracked[OF ev rc]] sa by simp
  next
    fix s2 r cap clear
    assume rc: "runCapture ev (log (EvRun (LEffect (effectId s)))
              (s\<lparr>effectId := Suc (effectId s), recursive := ModeEffect\<rparr>)) = (s2, r, cap)"
      and sa: "sa = link (LEffect (effectId s)) (getters cap)
                  (s2\<lparr>recursive := NoMode,
                      effects := (effects s2)(effectId s \<mapsto>
                         \<lparr>e_fn = fn, e_capture = cap, e_clear = clear, e_deleted = False\<rparr>)\<rparr>)"
    have "tracked s2 (s2\<lparr>recursive := NoMode,
                      effects := (effects s2)(effectId s \<mapsto>
                         \<lparr>e_fn = fn, e_capture = cap, e_clear = clear, e_deleted = False\<rparr>)\<rparr>)"
      by (rule trackedI[where d = "[]"]) (auto split: if_splits)
    from tracked_trans[OF tracked_trans[OF s1 runCapture_tracked[OF ev rc]] this]
    show ?thesis unfolding sa by (rule tracked_then_link)
  qed
  then show ?thesis by (rule push)
qed

lemma collect_tracked:
  assumes ev: "\<forall>s1. tracked s1 (fst (ev s1))" and c: "collect ev s = (s', res)"
  shows "tracked s s'"
proof -
  obtain s2 r where e: "ev (s\<lparr>currentRefs := Some [], currentComputes := Some [], currentEffects := Some []\<rparr>) = (s2, r)"
    by (cases "ev (s\<lparr>currentRefs := Some [], currentComputes := Some [], currentEffects := Some []\<rparr>)")
  have s': "s' = s2\<lparr>currentRefs := None, currentComputes := None, currentEffects := None\<rparr>"
    using c e by (auto simp: collect_def Let_def split: sum.splits)
  have "tracked (s\<lparr>currentRefs := Some [], currentComputes := Some [], currentEffects := Some []\<rparr>) s2"
    using ev e by (metis fst_conv)
  then show ?thesis by (simp add: s')
qed

lemma run_tracked: "tracked s (fst (run p s))"
proof (induction p arbitrary: s rule: prog_induct)
  case (GetValue g k)
  show ?case
  proof (cases "read g s")
    case None
    then show ?thesis by simp
  next
    case (Some a)
    obtain v s1 where a: "a = (v, s1)" by (cases a)
    show ?thesis
      using tracked_trans[OF read_tracked[OF Some[unfolded a]] GetValue.IH] Some a by simp
  qed
next
  case (SetValue r v k)
  show ?case
  proof (cases "ref_set r v s")
    case None
    then show ?thesis by simp
  next
    case (Some s1)
    show ?thesis
      using tracked_trans[OF ref_set_tracked[OF Some] SetValue.IH] Some by simp
  qed
next
  case (MkFun body k)
  show ?case
    using MkFun.IH(2)[where s = "s\<lparr>closures := closures s @ [body]\<rparr>"]
    by simp
next
  case (NewRef v k)
  obtain s1 res where c: "ref v s = (s1, res)" by (cases "ref v s")
  show ?case
  proof (cases res)
    case (Inl e)
    then show ?thesis using c ref_tracked[OF c] by simp
  next
    case (Inr x)
    then show ?thesis
      using c tracked_trans[OF ref_tracked[OF c] NewRef.IH] by simp
  qed
next
  case (NewComputed fn k)
  obtain s1 res where c: "computed (run fn) fn s = (s1, res)" by (cases "computed (run fn) fn s")
  have ev: "\<forall>s1. tracked s1 (fst (run fn s1))" using NewComputed.IH(1) by blast
  note ct = computed_tracked[OF ev c]
  show ?case
  proof (cases res)
    case (Inl e)
    then show ?thesis using c ct by simp
  next
    case (Inr x)
    then show ?thesis
      using c tracked_trans[OF ct NewComputed.IH(2)] by simp
  qed
next
  case (NewEffect fn k)
  obtain s1 res where c: "effect (run fn) fn s = (s1, res)" by (cases "effect (run fn) fn s")
  have ev: "\<forall>s1. tracked s1 (fst (run fn s1))" using NewEffect.IH(1) by blast
  note ct = effect_tracked[OF ev c]
  show ?case
  proof (cases res)
    case (Inl e)
    then show ?thesis using c ct by simp
  next
    case (Inr x)
    then show ?thesis
      using c tracked_trans[OF ct NewEffect.IH(2)] by simp
  qed
next
  case (Collect fn k)
  obtain s1 res where c: "collect (run fn) s = (s1, res)" by (cases "collect (run fn) s")
  have ev: "\<forall>s1. tracked s1 (fst (run fn s1))" using Collect.IH(1) by blast
  note ct = collect_tracked[OF ev c]
  show ?case
  proof (cases res)
    case (Inl e)
    then show ?thesis using c ct by simp
  next
    case (Inr x)
    obtain ret rs cs es where x: "x = (ret, rs, cs, es)" by (cases x)
    show ?thesis
      using c Inr x tracked_trans[OF ct Collect.IH(2)] by simp
  qed
qed simp_all

lemma run_tracked_all: "\<forall>s1. tracked s1 (fst (run p s1))"
  using run_tracked by blast

lemma computed_update_tracked: "tracked s (fst (computed_update c s))"
proof (cases "computeds s c")
  case None
  then show ?thesis by (simp add: computed_update_def)
next
  case (Some x0)
  obtain s' res where u: "computed_update c s = (s', res)" by (cases "computed_update c s")
  from computed_update_result[OF Some u] obtain s2 r cap where
    rc: "runCapture (run (c_fn x0))
       (log (EvRun (LComputed c)) (unlink (LComputed c) (getters (c_capture x0)) s)) = (s2, r, cap)"
    and cr: "case r of
        Inl e \<Rightarrow> s' = set_c_capture c cap s2 \<and> res = Inl e
      | Inr state \<Rightarrow>
          (case computeds (link (LComputed c) (getters cap) (set_c_capture c cap s2)) c of
             None \<Rightarrow> s' = link (LComputed c) (getters cap) (set_c_capture c cap s2) \<and> res = Inl Dangling
           | Some x \<Rightarrow>
               if strict_eq state (c_state x)
               then s' = link (LComputed c) (getters cap) (set_c_capture c cap s2) \<and> res = Inr False
               else s' = (link (LComputed c) (getters cap) (set_c_capture c cap s2))
                          \<lparr>computeds := (computeds (link (LComputed c) (getters cap) (set_c_capture c cap s2)))
                              (c \<mapsto> x\<lparr>c_old := c_state x, c_state := state\<rparr>)\<rparr> \<and> res = Inr True)"
    by blast
  have cs: "s' = set_c_capture c cap s2 \<or>
       s' = link (LComputed c) (getters cap) (set_c_capture c cap s2) \<or>
       (\<exists>y. s' = (link (LComputed c) (getters cap) (set_c_capture c cap s2))\<lparr>computeds := y\<rparr>)"
  proof (cases r)
    case (Inl e)
    then show ?thesis using cr by simp
  next
    case (Inr state)
    show ?thesis
    proof (cases "computeds (link (LComputed c) (getters cap) (set_c_capture c cap s2)) c")
      case None
      then show ?thesis using cr Inr by simp
    next
      case (Some x)
      then show ?thesis using cr Inr by (cases "strict_eq state (c_state x)") auto
    qed
  qed
  have t1: "tracked s (log (EvRun (LComputed c)) (unlink (LComputed c) (getters (c_capture x0)) s))"
    using tracked_trans[OF tracked_unlink tracked_log] .
  have t2: "tracked s s2"
    using tracked_trans[OF t1 runCapture_tracked[OF run_tracked_all rc]] .
  have "tracked s2 (set_c_capture c cap s2)"
    by (rule trackedI[where d = "[]"]) auto
  then have t3: "tracked s (set_c_capture c cap s2)"
    using tracked_trans[OF t2] by blast
  have t4: "tracked s (link (LComputed c) (getters cap) (set_c_capture c cap s2))"
    using t3 by (rule tracked_then_link)
  show ?thesis
    using cs t3 t4 by (auto simp: u)
qed

lemma call_clear_tracked: "tracked s (fst (call_clear e clear s))"
proof (cases "\<exists>f. clear = VFun f \<and> f < length (closures s)")
  case True
  then obtain f where f: "clear = VFun f" "f < length (closures s)" by auto
  have "tracked s (fst (run (closures s ! f) (log (EvCleanup e f) s)))"
    by (rule tracked_trans[OF tracked_log run_tracked])
  then show ?thesis using f by (simp add: call_clear_def)
next
  case False
  then show ?thesis by (auto simp: call_clear_def split: val.splits)
qed

lemma tracked_set_e [simp]:
  "tracked s (set_e_capture e cap s)" "tracked s (set_e_clear e v s)"
  by (rule trackedI[where d = "[]"];
      auto simp: effects_set_e_capture effects_set_e_clear split: if_splits)+

lemma effect_update_tracked: "tracked s (fst (effect_update e s))"
proof (cases "effects s e")
  case None
  then show ?thesis by (simp add: effect_update_def)
next
  case (Some x0)
  show ?thesis
  proof (cases "e_deleted x0")
    case True
    then show ?thesis using effect_update_deleted[OF Some] by simp
  next
    case False
    obtain s' res where u: "effect_update e s = (s', res)" by (cases "effect_update e s")
    from effect_update_result[OF Some False u] obtain s0 r0 where
      cc: "call_clear e (e_clear x0) s = (s0, r0)"
      and c0: "case r0 of
        Inl er \<Rightarrow> s' = s0 \<and> res = Inl er
      | Inr _ \<Rightarrow>
         (\<exists>s2 r cap.
            runCapture (run (e_fn x0))
              (log (EvRun (LEffect e)) (unlink (LEffect e) (getters (captureOf s0 (LEffect e))) s0))
              = (s2, r, cap) \<and>
            (case r of
               Inl er \<Rightarrow> s' = set_e_capture e cap s2 \<and> res = Inl er
             | Inr clear \<Rightarrow>
                 s' = link (LEffect e) (getters cap) (set_e_clear e clear (set_e_capture e cap s2))
                 \<and> res = Inr False))"
      by blast
    have t0: "tracked s s0" using call_clear_tracked[of s e "e_clear x0"] cc by simp
    show ?thesis
    proof (cases r0)
      case (Inl er)
      then show ?thesis using c0 t0 u by simp
    next
      case (Inr v0)
      then obtain s2 r cap where
        rc: "runCapture (run (e_fn x0))
              (log (EvRun (LEffect e)) (unlink (LEffect e) (getters (captureOf s0 (LEffect e))) s0))
              = (s2, r, cap)"
        and cr: "case r of
               Inl er \<Rightarrow> s' = set_e_capture e cap s2 \<and> res = Inl er
             | Inr clear \<Rightarrow>
                 s' = link (LEffect e) (getters cap) (set_e_clear e clear (set_e_capture e cap s2))
                 \<and> res = Inr False"
        using c0 by auto
      have t1: "tracked s0 (log (EvRun (LEffect e))
                  (unlink (LEffect e) (getters (captureOf s0 (LEffect e))) s0))"
        using tracked_trans[OF tracked_unlink tracked_log] .
      have t2: "tracked s s2"
        using tracked_trans[OF t0 tracked_trans[OF t1 runCapture_tracked[OF run_tracked_all rc]]] .
      have t3: "tracked s (set_e_capture e cap s2)"
        using tracked_trans[OF t2 tracked_set_e(1)] .
      show ?thesis
      proof (cases r)
        case (Inl er)
        then show ?thesis using cr t3 u by simp
      next
        case (Inr clear)
        have "tracked s (set_e_clear e clear (set_e_capture e cap s2))"
          using tracked_trans[OF t3 tracked_set_e(2)] .
        then have "tracked s (link (LEffect e) (getters cap)
                     (set_e_clear e clear (set_e_capture e cap s2)))"
          by (rule tracked_then_link)
        then show ?thesis using cr Inr u by simp
      qed
    qed
  qed
qed

lemma node_update_tracked: "tracked s (fst (node_update n s))"
  by (cases n) (simp_all add: node_update_def computed_update_tracked effect_update_tracked)

lemma drain_tracked:
  "drain fuel q s = Some (s', res) \<Longrightarrow> tracked s s'"
proof (induction fuel q s rule: drain.induct)
  case (1 fuel s)
  then show ?case by simp
next
  case (2 n queue s)
  then show ?case by simp
next
  case (3 fuel n queue s)
  obtain s1 r1 where nu: "node_update (last (n # queue)) s = (s1, r1)"
    by (cases "node_update (last (n # queue)) s")
  have t: "tracked s s1" using node_update_tracked[of s "last (n # queue)"] nu by simp
  show ?case
  proof (cases r1)
    case (Inl e)
    then show ?thesis using "3.prems" nu t by (simp add: Let_def)
  next
    case (Inr changed)
    have d: "drain fuel (butlast (n # queue) @ pushed (last (n # queue)) changed s1) s1 = Some (s', res)"
      using "3.prems" nu Inr by (simp add: Let_def)
    have "tracked s1 s'"
      by (rule "3.IH"[OF refl refl nu[symmetric] Inr d])
    then show ?thesis using t tracked_trans by blast
  qed
qed

subsection \<open>Every member of the work list is recomputed\<close>

lemma recomputed_mono:
  "recomputed s d l \<Longrightarrow> recomputed s (d0 @ d @ d1) l"
  by (auto simp: recomputed_def)

lemma recomputed_back:
  assumes "tracked s s1" "recomputed s1 d l"
  shows "recomputed s (d0 @ d) l"
  using assms unfolding recomputed_def tracked_def by (elim disjE exE conjE) auto

lemma node_update_runs:
  assumes w: "wf s" and u: "node_update l s = (s1, Inr changed)"
  shows "\<exists>d. trace s1 = trace s @ d \<and> recomputed s d l"
proof (cases l)
  case (LComputed c)
  have u': "computed_update c s = (s1, Inr changed)" using u LComputed by (simp add: node_update_def)
  then obtain x0 where x0: "computeds s c = Some x0"
    by (cases "computeds s c") (auto simp: computed_update_def)
  from computed_update_ok[OF w x0 u'] obtain d where
    "trace s1 = trace s @ [EvUnlink (LComputed c), EvRun (LComputed c)] @ d @ [EvLink (LComputed c)]"
    by blast
  then show ?thesis
    unfolding LComputed recomputed_def
    by (intro exI[of _ "[EvUnlink (LComputed c), EvRun (LComputed c)] @ d @ [EvLink (LComputed c)]"])
       simp
next
  case (LEffect e)
  have u': "effect_update e s = (s1, Inr changed)" using u LEffect by (simp add: node_update_def)
  then obtain x0 where x0: "effects s e = Some x0"
    by (cases "effects s e") (auto simp: effect_update_def)
  show ?thesis
  proof (cases "e_deleted x0")
    case True
    then have "s1 = s" using effect_update_deleted[OF x0] u' by simp
    then show ?thesis using x0 True LEffect by (intro exI[of _ "[]"]) (simp add: recomputed_def)
  next
    case False
    from effect_update_ok(4)[OF w x0 False u'] obtain tc tb where
      "trace s1 = trace s @ cleanup_events e (e_clear x0) @ tc
                    @ [EvUnlink (LEffect e), EvRun (LEffect e)] @ tb @ [EvLink (LEffect e)]"
      by blast
    then show ?thesis
      unfolding LEffect recomputed_def
      by (intro exI[of _ "cleanup_events e (e_clear x0) @ tc
                    @ [EvUnlink (LEffect e), EvRun (LEffect e)] @ tb @ [EvLink (LEffect e)]"])
         simp
  qed
qed

lemma drain_runs:
  "wf s \<Longrightarrow> drain fuel q s = Some (s', Inr ()) \<Longrightarrow>
     \<exists>d. trace s' = trace s @ d \<and> (\<forall>l \<in> set q. recomputed s d l)"
proof (induction fuel q s rule: drain.induct)
  case (1 fuel s)
  then show ?case by simp
next
  case (2 n queue s)
  then show ?case by simp
next
  case (3 fuel n queue s)
  obtain s1 r1 where nu: "node_update (last (n # queue)) s = (s1, r1)"
    by (cases "node_update (last (n # queue)) s")
  note ns = node_update_stable[OF "3.prems"(1) nu]
  have t: "tracked s s1" using node_update_tracked[of s "last (n # queue)"] nu by simp
  obtain changed where r1: "r1 = Inr changed"
    using "3.prems"(2) nu by (cases r1) (auto simp: Let_def)
  have d: "drain fuel (butlast (n # queue) @ pushed (last (n # queue)) changed s1) s1 = Some (s', Inr ())"
    using "3.prems"(2) nu r1 by (simp add: Let_def)
  have "\<exists>d. trace s' = trace s1 @ d \<and>
      (\<forall>l \<in> set (butlast (n # queue) @ pushed (last (n # queue)) changed s1). recomputed s1 d l)"
    by (rule "3.IH"[OF refl refl nu[symmetric] r1 _ d]) (use ns in simp)
  then obtain d2 where d2: "trace s' = trace s1 @ d2"
      "\<forall>l \<in> set (butlast (n # queue)). recomputed s1 d2 l"
    by auto
  from node_update_runs[OF "3.prems"(1) nu[unfolded r1]] obtain d1 where
    d1: "trace s1 = trace s @ d1" "recomputed s d1 (last (n # queue))"
    by blast
  have split: "set (n # queue) = insert (last (n # queue)) (set (butlast (n # queue)))"
    using append_butlast_last_id[of "n # queue"]
    by (metis list.distinct(1) list.simps(15) rotate1.simps(2) set_rotate1)
  show ?case
  proof (intro exI[of _ "d1 @ d2"] conjI ballI)
    show "trace s' = trace s @ d1 @ d2" using d1(1) d2(1) by simp
    fix l assume "l \<in> set (n # queue)"
    then consider "l = last (n # queue)" | "l \<in> set (butlast (n # queue))"
      using split by auto
    then show "recomputed s (d1 @ d2) l"
    proof cases
      case 1
      then show ?thesis using recomputed_mono[OF d1(2), of "[]" d2] by simp
    next
      case 2
      then show ?thesis using recomputed_back[OF t, of d2 l d1] d2(2) by simp
    qed
  qed
qed

subsection \<open>A leaf through a round and through the flush\<close>

lemma commitLoop_queue:
  assumes "distinct rs" "commitLoop rs q s = (q', s')"
  shows "q' = q @ commit_queue s rs"
  using assms
proof (induction rs arbitrary: q s)
  case Nil
  then show ?case by (simp add: commit_queue_def)
next
  case (Cons r rs)
  obtain s1 b where ru: "ref_update r s = (s1, b)" by (cases "ref_update r s")
  note p = ref_update_props[OF ru]
  define q1 where "q1 = (if b then q @ listenersOf s1 (GRef r) else q)"
  have cl: "commitLoop rs q1 s1 = (q', s')"
    using Cons.prems(2) ru by (cases b) (auto simp: q1_def)
  have d: "distinct rs" "r \<notin> set rs" using Cons.prems(1) by auto
  have ce: "\<And>a. a \<in> set rs \<Longrightarrow> commit_events s1 [a] = commit_events s [a]"
    by (rule commit_events_cong) (use d(2) in \<open>auto simp: p\<close>)
  have cq: "commit_queue s1 rs = commit_queue s rs"
    unfolding commit_queue_def
    by (rule arg_cong[where f = concat], rule map_cong) (simp_all add: ce p)
  have q1: "q1 = q @ commit_queue s [r]"
    using p(12) by (simp add: q1_def commit_queue_def p)
  have "commit_queue s (r # rs) = commit_queue s [r] @ commit_queue s rs"
    by (simp add: commit_queue_def)
  then show ?case
    using Cons.IH[OF d(1) cl] by (simp add: cq q1)
qed

lemma commit_queue_cong:
  assumes "listenersOf s' = listenersOf s" "\<And>rs. commit_events s' rs = commit_events s rs"
  shows "commit_queue s' rs = commit_queue s rs"
  by (simp add: commit_queue_def assms cong: if_cong)

lemma round_parts:
  assumes w: "wf s" and r: "round fuel s = Some (s', res)"
  shows "\<exists>sc d. drain fuel (commit_queue s (dirtyStates s)) sc = Some (s', res) \<and>
       commitLoop (dirtyStates s) [] (s\<lparr>dirtyStates := []\<rparr>) = (commit_queue s (dirtyStates s), sc) \<and>
       wf sc \<and> wf s' \<and>
       trace sc = trace s @ commit_events s (dirtyStates s) \<and> trace s' = trace sc @ d \<and>
       committed sc = after_commit s (dirtyStates s) \<and> refId sc = refId s \<and>
       dirtyStates sc = [] \<and> effects sc = effects s \<and>
       stable sc s' \<and> tracked sc s' \<and> (\<forall>ev \<in> set d. calm sc ev)"
proof -
  define s0 where "s0 = s\<lparr>dirtyStates := []\<rparr>"
  obtain q sc where cl: "commitLoop (dirtyStates s) [] s0 = (q, sc)"
    by (cases "commitLoop (dirtyStates s) [] s0")
  have dist: "distinct (dirtyStates s)" using w by (simp add: wf_def)
  note cp = commitLoop_props[OF dist cl]
  have ce: "\<And>rs. commit_events s0 rs = commit_events s rs"
    by (rule commit_events_cong) (simp add: s0_def)
  have "commit_queue s0 (dirtyStates s) = commit_queue s (dirtyStates s)"
    by (rule commit_queue_cong[OF _ ce]) (simp add: s0_def)
  then have q: "q = commit_queue s (dirtyStates s)"
    using commitLoop_queue[OF dist cl] by simp
  have dr: "drain fuel q sc = Some (s', res)"
    using r cl by (simp add: round_def Let_def s0_def)
  have "wf s0" using w by (simp add: s0_def wf_def)
  moreover have "wf sc = wf s0"
    by (rule wf_cong) (simp_all add: cp)
  ultimately have wc: "wf sc" by simp
  note ds = drain_stable[OF wc dr]
  obtain d where d: "trace s' = trace sc @ d" "\<forall>ev \<in> set d. calm sc ev"
    using ds by (auto simp: stable_def)
  have ac: "after_commit s0 (dirtyStates s) = after_commit s (dirtyStates s)"
    by (simp add: after_commit_def s0_def fun_eq_iff)
  have "trace sc = trace s @ commit_events s (dirtyStates s) \<and>
       committed sc = after_commit s (dirtyStates s) \<and> refId sc = refId s \<and>
       dirtyStates sc = [] \<and> effects sc = effects s"
    using cp ce ac by (simp add: s0_def)
  then show ?thesis
    using cl dr wc ds d drain_tracked[OF dr] unfolding q s0_def
    by (intro exI[of _ sc] exI[of _ d]) simp
qed

text \<open>What a round does to a dirty leaf whose committed value is not \<open>===\<close> the pending one.\<close>

lemma round_commits:
  assumes w: "wf s" and r: "r \<in> set (dirtyStates s)" and p: "pending s r = Some v"
    and c: "committed s r = Some c0" and n: "\<not> strict_eq c0 v"
    and rd: "round fuel s = Some (s', res)"
  shows "wf s' \<and> committed s' r = Some v \<and>
    (\<exists>d. trace s' = trace s @ d \<and> filter (commit_of r) d = [EvCommit r v] \<and>
         (\<forall>v'. EvRead (GRef r) v' \<in> set d \<longrightarrow> v' = v) \<and>
         (r \<in> set (dirtyStates s') \<longrightarrow> (\<exists>w. EvWrite r w \<in> set d)) \<and>
         (res = Inr () \<longrightarrow> (\<forall>l \<in> set (listenersOf s (GRef r)). recomputed s d l)))"
proof -
  from round_parts[OF w rd] obtain sc d where
    dr: "drain fuel (commit_queue s (dirtyStates s)) sc = Some (s', res)"
    and wc: "wf sc" and w': "wf s'"
    and tc: "trace sc = trace s @ commit_events s (dirtyStates s)"
    and t: "trace s' = trace sc @ d"
    and sc: "committed sc = after_commit s (dirtyStates s)" "refId sc = refId s"
      "dirtyStates sc = []" "effects sc = effects s"
    and st: "stable sc s'" and tr: "tracked sc s'" and cl: "\<forall>ev \<in> set d. calm sc ev"
    by blast
  have lt: "r < refId s"
    using w p by (auto simp: wf_def ids_ok_def pending_def)
  have csc: "committed sc r = Some v"
    using r p by (simp add: sc after_commit_def)
  have c': "committed s' r = Some v"
    using st lt csc by (simp add: stable_def sc)
  have dist: "distinct (dirtyStates s)" using w by (simp add: wf_def)
  have one: "commit_events s [r] = [EvCommit r v]"
    using p c n by (simp add: commit_events_def)
  then have f1: "filter (commit_of r) (commit_events s (dirtyStates s)) = [EvCommit r v]"
    using r by (simp add: filter_commit_of_events[OF dist])
  have f2: "filter (commit_of r) d = []"
    by (rule calm_filter_commit[OF cl])
  have cc: "\<forall>ev \<in> set (commit_events s (dirtyStates s)). is_commit ev"
    by (rule commit_events_are_commits)
  have rd1: "\<And>v'. EvRead (GRef r) v' \<notin> set (commit_events s (dirtyStates s))"
    using cc by (auto simp: is_commit_def)
  have rd2: "v' = v" if "EvRead (GRef r) v' \<in> set d" for v'
  proof -
    from cl that have "calm sc (EvRead (GRef r) v')" by blast
    then show ?thesis using lt csc by (auto simp: calm_def sc(2))
  qed
  have wr: "\<exists>w. EvWrite r w \<in> set d" if "r \<in> set (dirtyStates s')"
    using tr that t unfolding tracked_def sc(3) by auto
  have ls: "\<forall>l \<in> set (listenersOf s (GRef r)). recomputed s (commit_events s (dirtyStates s) @ d) l"
    if "res = Inr ()"
  proof
    fix l assume l: "l \<in> set (listenersOf s (GRef r))"
    have "l \<in> set (commit_queue s (dirtyStates s))"
      using l r one by (auto simp: commit_queue_def)
    moreover from drain_runs[OF wc dr[unfolded that]] t
    have "\<forall>l \<in> set (commit_queue s (dirtyStates s)). recomputed sc d l" by auto
    ultimately have "recomputed sc d l" by blast
    then have "recomputed s d l" by (simp add: recomputed_def sc)
    then show "recomputed s (commit_events s (dirtyStates s) @ d) l"
      using recomputed_mono[of s d l "commit_events s (dirtyStates s)" "[]"] by simp
  qed
  have "trace s' = trace s @ commit_events s (dirtyStates s) @ d"
    using t tc by simp
  moreover have "filter (commit_of r) (commit_events s (dirtyStates s) @ d) = [EvCommit r v]"
    using f1 f2 by simp
  moreover have "\<forall>v'. EvRead (GRef r) v' \<in> set (commit_events s (dirtyStates s) @ d) \<longrightarrow> v' = v"
    using rd1 rd2 by auto
  moreover have "r \<in> set (dirtyStates s') \<longrightarrow>
      (\<exists>w. EvWrite r w \<in> set (commit_events s (dirtyStates s) @ d))"
    using wr by auto
  ultimately show ?thesis using c' w' ls by blast
qed

text \<open>What a round does to a leaf that is not dirty.\<close>

lemma round_quiet:
  assumes w: "wf s" and r: "r \<notin> set (dirtyStates s)" and c: "committed s r = Some c0"
    and rd: "round fuel s = Some (s', res)"
  shows "wf s' \<and> committed s' r = Some c0 \<and>
    (\<exists>d. trace s' = trace s @ d \<and> filter (commit_of r) d = [] \<and>
         (\<forall>v'. EvRead (GRef r) v' \<in> set d \<longrightarrow> v' = c0) \<and>
         (r \<in> set (dirtyStates s') \<longrightarrow> (\<exists>w. EvWrite r w \<in> set d)))"
proof -
  from round_parts[OF w rd] obtain sc d where
    wc: "wf sc" and w': "wf s'"
    and tc: "trace sc = trace s @ commit_events s (dirtyStates s)"
    and t: "trace s' = trace sc @ d"
    and sc: "committed sc = after_commit s (dirtyStates s)" "refId sc = refId s"
      "dirtyStates sc = []" "effects sc = effects s"
    and st: "stable sc s'" and tr: "tracked sc s'" and cl: "\<forall>ev \<in> set d. calm sc ev"
    by blast
  have lt: "r < refId s"
    using w c by (auto simp: wf_def ids_ok_def committed_def)
  have csc: "committed sc r = Some c0"
    using r c by (simp add: sc after_commit_def)
  have c': "committed s' r = Some c0"
    using st lt csc by (simp add: stable_def sc)
  have dist: "distinct (dirtyStates s)" using w by (simp add: wf_def)
  have f1: "filter (commit_of r) (commit_events s (dirtyStates s)) = []"
    using r by (simp add: filter_commit_of_events[OF dist])
  have f2: "filter (commit_of r) d = []"
    by (rule calm_filter_commit[OF cl])
  have cc: "\<forall>ev \<in> set (commit_events s (dirtyStates s)). is_commit ev"
    by (rule commit_events_are_commits)
  have rd1: "\<And>v'. EvRead (GRef r) v' \<notin> set (commit_events s (dirtyStates s))"
    using cc by (auto simp: is_commit_def)
  have rd2: "v' = c0" if "EvRead (GRef r) v' \<in> set d" for v'
  proof -
    from cl that have "calm sc (EvRead (GRef r) v')" by blast
    then show ?thesis using lt csc by (auto simp: calm_def sc(2))
  qed
  have wr: "\<exists>w. EvWrite r w \<in> set d" if "r \<in> set (dirtyStates s')"
    using tr that t unfolding tracked_def sc(3) by auto
  have "trace s' = trace s @ commit_events s (dirtyStates s) @ d"
    using t tc by simp
  moreover have "filter (commit_of r) (commit_events s (dirtyStates s) @ d) = []"
    using f1 f2 by simp
  moreover have "\<forall>v'. EvRead (GRef r) v' \<in> set (commit_events s (dirtyStates s) @ d) \<longrightarrow> v' = c0"
    using rd1 rd2 by auto
  moreover have "r \<in> set (dirtyStates s') \<longrightarrow>
      (\<exists>w. EvWrite r w \<in> set (commit_events s (dirtyStates s) @ d))"
    using wr by auto
  ultimately show ?thesis using c' w' by blast
qed

lemma rounds_grows:
  "wf s \<Longrightarrow> rounds fuel s = Some (s', res) \<Longrightarrow> \<exists>d. trace s' = trace s @ d"
proof (induction fuel arbitrary: s)
  case 0
  then show ?case by (auto split: if_splits)
next
  case (Suc n)
  show ?case
  proof (cases "dirtyStates s = []")
    case True
    then show ?thesis using Suc.prems by auto
  next
    case False
    then obtain s1 r1 where r1: "round n s = Some (s1, r1)"
      using Suc.prems(2) by (auto split: option.splits)
    from round_parts[OF Suc.prems(1) r1] obtain d1 where d1: "trace s1 = trace s @ d1" and w1: "wf s1"
      by auto
    show ?thesis
    proof (cases r1)
      case (Inl e)
      then show ?thesis using Suc.prems(2) False r1 d1 by auto
    next
      case (Inr u)
      then have "rounds n s1 = Some (s', res)" using Suc.prems(2) False r1 by simp
      from Suc.IH[OF w1 this] d1 show ?thesis by auto
    qed
  qed
qed

text \<open>A leaf that is neither dirty nor written keeps its value through the rounds.\<close>

lemma rounds_quiet:
  "wf s \<Longrightarrow> r \<notin> set (dirtyStates s) \<Longrightarrow> committed s r = Some c0 \<Longrightarrow>
   rounds fuel s = Some (s', res) \<Longrightarrow> trace s' = trace s @ d \<Longrightarrow>
   \<forall>w. EvWrite r w \<notin> set d \<Longrightarrow>
     filter (commit_of r) d = [] \<and> committed s' r = Some c0 \<and>
     (\<forall>v. EvRead (GRef r) v \<in> set d \<longrightarrow> v = c0)"
proof (induction fuel arbitrary: s d)
  case 0
  then show ?case by (auto split: if_splits)
next
  case (Suc n)
  show ?case
  proof (cases "dirtyStates s = []")
    case True
    then show ?thesis using Suc.prems by auto
  next
    case False
    then obtain s1 r1 where r1: "round n s = Some (s1, r1)"
      using Suc.prems(4) by (auto split: option.splits)
    from round_quiet[OF Suc.prems(1-3) r1] obtain d1 where
      w1: "wf s1" and c1: "committed s1 r = Some c0"
      and d1: "trace s1 = trace s @ d1" "filter (commit_of r) d1 = []"
        "\<forall>v'. EvRead (GRef r) v' \<in> set d1 \<longrightarrow> v' = c0"
        "r \<in> set (dirtyStates s1) \<longrightarrow> (\<exists>w. EvWrite r w \<in> set d1)"
      by blast
    show ?thesis
    proof (cases r1)
      case (Inl e)
      then have "s' = s1" using Suc.prems(4) False r1 by auto
      then have "d = d1" using Suc.prems(5) d1(1) by simp
      then show ?thesis using d1 c1 \<open>s' = s1\<close> by simp
    next
      case (Inr u)
      then have rs: "rounds n s1 = Some (s', res)" using Suc.prems(4) False r1 by simp
      from rounds_grows[OF w1 rs] obtain d2 where d2: "trace s' = trace s1 @ d2" by blast
      have d: "d = d1 @ d2" using Suc.prems(5) d1(1) d2 by simp
      have nw: "\<forall>w. EvWrite r w \<notin> set d1" "\<forall>w. EvWrite r w \<notin> set d2"
        using Suc.prems(6) d by auto
      have nd: "r \<notin> set (dirtyStates s1)" using d1(4) nw(1) by blast
      from Suc.IH[OF w1 nd c1 rs d2 nw(2)] d1 show ?thesis
        by (auto simp: d)
    qed
  qed
qed

text \<open>The flush, for a dirty leaf whose committed value is not \<open>===\<close> the pending one.\<close>

lemma flush_commits:
  assumes w: "wf s" and r: "r \<in> set (dirtyStates s)" and p: "pending s r = Some v"
    and c: "committed s r = Some c0" and n: "\<not> strict_eq c0 v"
    and u: "updateStates fuel s = Some (s', res)"
  shows "\<exists>d d'. trace s' = trace s @ d \<and> filter (commit_of r) d = EvCommit r v # d' \<and>
       ((\<forall>w. EvWrite r w \<notin> set d) \<longrightarrow>
          d' = [] \<and> committed s' r = Some v \<and> (\<forall>v'. EvRead (GRef r) v' \<in> set d \<longrightarrow> v' = v)) \<and>
       (res = Inr () \<longrightarrow> (\<forall>l \<in> set (listenersOf s (GRef r)). recomputed s d l))"
proof -
  define s0 where "s0 = s\<lparr>currentUpdate := False\<rparr>"
  have w0: "wf s0" using w wf_cong[of s0 s] by (simp add: s0_def)
  have r0: "r \<in> set (dirtyStates s0)" using r by (simp add: s0_def)
  have p0: "pending s0 r = Some v" using p by (simp add: s0_def pending_def)
  have c0: "committed s0 r = Some c0" using c by (simp add: s0_def committed_def)
  have ne: "dirtyStates s0 \<noteq> []" using r0 by auto
  from u have u0: "rounds fuel s0 = Some (s', res)"
    by (simp add: updateStates_def s0_def)
  then obtain k where k: "fuel = Suc k" using ne by (cases fuel) auto
  obtain s1 r1 where rd: "round k s0 = Some (s1, r1)"
    using u0 ne k by (cases "round k s0") auto
  from round_commits[OF w0 r0 p0 c0 n rd] obtain d1 where
    w1: "wf s1" and c1: "committed s1 r = Some v"
    and d1: "trace s1 = trace s0 @ d1" "filter (commit_of r) d1 = [EvCommit r v]"
      "\<forall>v'. EvRead (GRef r) v' \<in> set d1 \<longrightarrow> v' = v"
      "r \<in> set (dirtyStates s1) \<longrightarrow> (\<exists>w. EvWrite r w \<in> set d1)"
      "r1 = Inr () \<longrightarrow> (\<forall>l \<in> set (listenersOf s0 (GRef r)). recomputed s0 d1 l)"
    by blast
  have rec0: "\<And>d l. recomputed s0 d l = recomputed s d l"
    by (simp add: recomputed_def s0_def)
  show ?thesis
  proof (cases r1)
    case (Inl e)
    then have "s' = s1 \<and> res = Inl e" using u0 ne k rd by auto
    then show ?thesis
      using d1 c1 by (intro exI[of _ d1] exI[of _ "[]"]) (simp add: s0_def)
  next
    case (Inr x)
    then have rs: "rounds k s1 = Some (s', res)" using u0 ne k rd by simp
    from rounds_grows[OF w1 rs] obtain d2 where d2: "trace s' = trace s1 @ d2" by blast
    have q: "filter (commit_of r) d2 = [] \<and> committed s' r = Some v \<and>
        (\<forall>v'. EvRead (GRef r) v' \<in> set d2 \<longrightarrow> v' = v)"
      if "\<forall>w. EvWrite r w \<notin> set (d1 @ d2)"
    proof -
      have nd: "r \<notin> set (dirtyStates s1)" using d1(4) that by auto
      have "\<forall>w. EvWrite r w \<notin> set d2" using that by auto
      from rounds_quiet[OF w1 nd c1 rs d2 this] show ?thesis .
    qed
    have l0: "listenersOf s0 = listenersOf s" by (simp add: s0_def)
    have ls: "\<forall>l \<in> set (listenersOf s (GRef r)). recomputed s (d1 @ d2) l"
    proof
      fix l assume "l \<in> set (listenersOf s (GRef r))"
      then have "recomputed s0 d1 l" using d1(5) Inr l0 by simp
      then have "recomputed s d1 l" by (simp add: rec0)
      then show "recomputed s (d1 @ d2) l"
        using recomputed_mono[of s d1 l "[]" d2] by simp
    qed
    show ?thesis
      using d1(1-3) d2 q ls
      by (intro exI[of _ "d1 @ d2"] exI[of _ "filter (commit_of r) d2"]) (auto simp: s0_def)
  qed
qed

text \<open>The loop over the snapshot, which always returns, for such a leaf.\<close>

lemma commit_phase_leaf:
  assumes w: "wf s" and r: "r \<in> set (dirtyStates s)" and p: "pending s r = Some v"
    and c: "committed s r = Some c0" and n: "\<not> strict_eq c0 v"
    and cl: "commitLoop (dirtyStates s) [] (s\<lparr>currentUpdate := False, dirtyStates := []\<rparr>) = (q, sc)"
  shows "committed sc r = Some v" "trace sc = trace s @ commit_events s (dirtyStates s)"
    "filter (commit_of r) (commit_events s (dirtyStates s)) = [EvCommit r v]"
    "set (listenersOf s (GRef r)) \<subseteq> set q" "q = commit_queue s (dirtyStates s)"
proof -
  define s0 where "s0 = s\<lparr>currentUpdate := False, dirtyStates := []\<rparr>"
  have dist: "distinct (dirtyStates s)" using w by (simp add: wf_def)
  note cp = commitLoop_props[OF dist cl]
  have ce: "\<And>rs. commit_events s0 rs = commit_events s rs"
    by (rule commit_events_cong) (simp add: s0_def)
  have one: "commit_events s [r] = [EvCommit r v]"
    using p c n by (simp add: commit_events_def)
  have "commit_queue s0 (dirtyStates s) = commit_queue s (dirtyStates s)"
    by (rule commit_queue_cong[OF _ ce]) (simp add: s0_def)
  then show q: "q = commit_queue s (dirtyStates s)"
    using commitLoop_queue[OF dist cl] by (simp add: s0_def)
  show "committed sc r = Some v"
    using cp r p by (simp add: after_commit_def)
  show "trace sc = trace s @ commit_events s (dirtyStates s)"
    using cp ce by (simp add: s0_def)
  show "filter (commit_of r) (commit_events s (dirtyStates s)) = [EvCommit r v]"
    using r one by (simp add: filter_commit_of_events[OF dist])
  show "set (listenersOf s (GRef r)) \<subseteq> set q"
    using r one unfolding q by (auto simp: commit_queue_def)
qed

subsection \<open>The steps of an effect's recompute and removal\<close>

lemma call_clear_fun:
  assumes w: "wf s" and c: "call_clear e (VFun f) s = (s0, Inr v)"
  shows "f < length (closures s)" "run (closures s ! f) (log (EvCleanup e f) s) = (s0, Inr v)"
    "\<exists>tc. trace s0 = trace s @ [EvCleanup e f] @ tc \<and> (\<forall>ev \<in> set tc. fresh_ev s ev)"
proof -
  show lt: "f < length (closures s)"
    using c by (auto simp: call_clear_def split: if_splits)
  show "run (closures s ! f) (log (EvCleanup e f) s) = (s0, Inr v)"
    using c lt by (simp add: call_clear_def)
  show "\<exists>tc. trace s0 = trace s @ [EvCleanup e f] @ tc \<and> (\<forall>ev \<in> set tc. fresh_ev s ev)"
    using call_clear_props(9)[OF w c refl] by (simp add: cleanup_events_def)
qed

lemma effect_update_steps:
  assumes w: "wf s" and x: "effects s e = Some x" and f: "e_clear x = VFun f"
    and live: "\<not> e_deleted x" and u: "effect_update e s = (s1, Inr b)"
  shows "\<exists>s0 v s2 clear cap tc tb.
      f < length (closures s)
    \<and> run (closures s ! f) (log (EvCleanup e f) s) = (s0, Inr v)
    \<and> trace s0 = trace s @ [EvCleanup e f] @ tc
    \<and> runCapture (run (e_fn x))
         (log (EvRun (LEffect e)) (unlink (LEffect e) (getters (e_capture x)) s0))
        = (s2, Inr clear, cap)
    \<and> trace s2 = trace s0 @ [EvUnlink (LEffect e), EvRun (LEffect e)] @ tb
    \<and> s1 = link (LEffect e) (getters cap) (set_e_clear e clear (set_e_capture e cap s2))
    \<and> trace s1 = trace s2 @ [EvLink (LEffect e)]
    \<and> effects s1 e = Some (x\<lparr>e_capture := cap, e_clear := clear\<rparr>)
    \<and> (\<forall>ev \<in> set (tc @ tb). fresh_ev s ev) \<and> \<not> b \<and> wf s1"
proof -
  define l where "l = LEffect e"
  from effect_update_result[OF x live u] obtain s0 r0 where
    cc: "call_clear e (e_clear x) s = (s0, r0)"
    and c0: "case r0 of
        Inl er \<Rightarrow> s1 = s0 \<and> Inr b = (Inl er :: error + bool)
      | Inr _ \<Rightarrow>
         (\<exists>s2 r cap.
            runCapture (run (e_fn x))
              (log (EvRun (LEffect e)) (unlink (LEffect e) (getters (captureOf s0 (LEffect e))) s0))
              = (s2, r, cap) \<and>
            (case r of
               Inl er \<Rightarrow> s1 = set_e_capture e cap s2 \<and> Inr b = (Inl er :: error + bool)
             | Inr clear \<Rightarrow>
                 s1 = link (LEffect e) (getters cap) (set_e_clear e clear (set_e_capture e cap s2))
                 \<and> Inr b = (Inr False :: error + bool)))"
    by (elim exE conjE) (rule that)
  obtain v where r0: "r0 = Inr v" using c0 by (cases r0) auto
  note cf = call_clear_fun[OF w cc[unfolded f r0]]
  note cp = call_clear_props[OF w cc r0]
  obtain tc where tc: "trace s0 = trace s @ [EvCleanup e f] @ tc" "\<forall>ev \<in> set tc. fresh_ev s ev"
    using cf(3) by blast
  have elt: "e < effectId s"
    using w x by (auto simp: wf_def ids_ok_def)
  have x0': "effects s0 e = Some x" using cp(8)[OF elt] x by simp
  then have cap0: "captureOf s0 (LEffect e) = e_capture x" by (simp add: captureOf_def)
  define s1' where "s1' = log (EvRun l) (unlink l (getters (e_capture x)) s0)"
  from c0 obtain s2 r cap where
    rc: "runCapture (run (e_fn x)) s1' = (s2, r, cap)"
    and cr: "case r of
               Inl er \<Rightarrow> s1 = set_e_capture e cap s2 \<and> Inr b = (Inl er :: error + bool)
             | Inr clear \<Rightarrow>
                 s1 = link (LEffect e) (getters cap) (set_e_clear e clear (set_e_capture e cap s2))
                 \<and> Inr b = (Inr False :: error + bool)"
    unfolding r0 cap0 s1'_def l_def by auto
  obtain clear where r: "r = Inr clear" using cr by (cases r) auto
  have s1: "s1 = link (LEffect e) (getters cap) (set_e_clear e clear (set_e_capture e cap s2))"
    and b: "\<not> b"
    using cr r by auto
  have w1: "wf s1'"
    using unlink_wf[OF cp(1)] by (simp add: s1'_def)
  note rce = runCapture_ext[OF run_tame rc w1]
  have oldl: "old s l" using elt by (simp add: old_def l_def)
  have old0: "old s0 l" using oldl cp(3,4) by (auto intro: old_mono)
  have old1: "old s1' l" using old0 by (simp add: s1'_def)
  have "effects s2 e = effects s1' e"
    using rce(1) old1 by (auto simp: ext_def old_def l_def)
  then have x2: "effects s2 e = Some x" using x0' by (simp add: s1'_def)
  obtain tb where tb: "trace s2 = trace s1' @ tb" "\<forall>ev \<in> set tb. fresh_ev s1' ev"
    using rce(1) by (auto simp: ext_def)
  have fe: "\<And>ev. fresh_ev s1' ev \<Longrightarrow> fresh_ev s ev"
    using cp(2-4,6) oldl
    by (auto simp: fresh_ev_def s1'_def old_def split: event.splits getter.splits listener.splits)
  have tb': "\<forall>ev \<in> set tb. fresh_ev s ev" using tb(2) fe by auto
  have t2: "trace s2 = trace s0 @ [EvUnlink (LEffect e), EvRun (LEffect e)] @ tb"
    using tb(1) by (simp add: s1'_def l_def)
  have e1: "effects s1 e = Some (x\<lparr>e_capture := cap, e_clear := clear\<rparr>)"
    using x2 by (simp add: s1 effects_set_e_clear effects_set_e_capture)
  have ws: "wf s1" using effect_update_props[OF w x live u] by blast
  show ?thesis
    using cf(1,2) tc(1) rc[unfolded r s1'_def l_def] t2 s1 e1 tc(2) tb' b ws
    by (intro exI[of _ s0] exI[of _ v] exI[of _ s2] exI[of _ clear] exI[of _ cap]
        exI[of _ tc] exI[of _ tb]) auto
qed

lemma effect_remove_steps:
  assumes w: "wf s" and x: "effects s e = Some x" and f: "e_clear x = VFun f"
    and u: "effect_remove e s = (s', Inr b)"
  shows "\<exists>s0 v tc.
      f < length (closures s)
    \<and> run (closures s ! f) (log (EvCleanup e f) s) = (s0, Inr v)
    \<and> trace s0 = trace s @ [EvCleanup e f] @ tc
    \<and> (\<forall>ev \<in> set tc. fresh_ev s ev)
    \<and> s' = (unlink (LEffect e) (getters (e_capture x)) s0)
             \<lparr>effects := (effects s0)(e \<mapsto> x\<lparr>e_deleted := True\<rparr>)\<rparr>
    \<and> trace s' = trace s0 @ [EvUnlink (LEffect e)]"
proof -
  obtain s0 r0 where cc: "call_clear e (e_clear x) s = (s0, r0)"
    by (cases "call_clear e (e_clear x) s")
  obtain v where r0: "r0 = Inr v"
    using u x cc by (cases r0) (auto simp: effect_remove_def)
  note cf = call_clear_fun[OF w cc[unfolded f r0]]
  note cp = call_clear_props[OF w cc r0]
  have elt: "e < effectId s"
    using w x by (auto simp: wf_def ids_ok_def)
  have x0': "effects s0 e = Some x" using cp(8)[OF elt] x by simp
  then have cap0: "captureOf s0 (LEffect e) = e_capture x" by (simp add: captureOf_def)
  have s': "s' = (unlink (LEffect e) (getters (e_capture x)) s0)
             \<lparr>effects := (effects s0)(e \<mapsto> x\<lparr>e_deleted := True\<rparr>)\<rparr>"
    using u x cc r0 x0' by (auto simp: effect_remove_def Let_def cap0)
  obtain tc where tc: "trace s0 = trace s @ [EvCleanup e f] @ tc" "\<forall>ev \<in> set tc. fresh_ev s ev"
    using cf(3) by blast
  show ?thesis
    using cf(1,2) tc s'
    by (intro exI[of _ s0] exI[of _ v] exI[of _ tc]) simp
qed

subsection \<open>The registration targets of a function that calls no collect\<close>

lemma targets_kept_refl [simp]: "targets_kept s s"
  by (simp add: targets_kept_def)

lemma targets_kept_trans: "targets_kept s s1 \<Longrightarrow> targets_kept s1 s2 \<Longrightarrow> targets_kept s s2"
  by (simp add: targets_kept_def)

lemma targets_kept_frame [simp]:
  "targets_kept s (currentCapture_update f0 s') = targets_kept s s'"
  "targets_kept s (dirtyStates_update f1 s') = targets_kept s s'"
  "targets_kept s (currentUpdate_update f2 s') = targets_kept s s'"
  "targets_kept s (recursive_update f3 s') = targets_kept s s'"
  "targets_kept s (refId_update f4 s') = targets_kept s s'"
  "targets_kept s (computedId_update f5 s') = targets_kept s s'"
  "targets_kept s (effectId_update f6 s') = targets_kept s s'"
  "targets_kept s (refs_update f10 s') = targets_kept s s'"
  "targets_kept s (computeds_update f11 s') = targets_kept s s'"
  "targets_kept s (effects_update f12 s') = targets_kept s s'"
  "targets_kept s (closures_update f13 s') = targets_kept s s'"
  "targets_kept s (timers_update f14 s') = targets_kept s s'"
  "targets_kept s (trace_update f15 s') = targets_kept s s'"
  "targets_kept (currentCapture_update f0 s) s' = targets_kept s s'"
  "targets_kept (dirtyStates_update f1 s) s' = targets_kept s s'"
  "targets_kept (currentUpdate_update f2 s) s' = targets_kept s s'"
  "targets_kept (recursive_update f3 s) s' = targets_kept s s'"
  "targets_kept (refId_update f4 s) s' = targets_kept s s'"
  "targets_kept (computedId_update f5 s) s' = targets_kept s s'"
  "targets_kept (effectId_update f6 s) s' = targets_kept s s'"
  "targets_kept (refs_update f10 s) s' = targets_kept s s'"
  "targets_kept (computeds_update f11 s) s' = targets_kept s s'"
  "targets_kept (effects_update f12 s) s' = targets_kept s s'"
  "targets_kept (closures_update f13 s) s' = targets_kept s s'"
  "targets_kept (timers_update f14 s) s' = targets_kept s s'"
  "targets_kept (trace_update f15 s) s' = targets_kept s s'"
  by (simp_all add: targets_kept_def)

lemma targets_kept_ops [simp]:
  "targets_kept s (log ev s)" "targets_kept s (link l gs s)" "targets_kept s (unlink l gs s)"
  "targets_kept s (capture_get g s)" "targets_kept s (capture_set r s)"
  "targets_kept s (enqueueUpdate r s)"
  "targets_kept s (s\<lparr>currentRefs := push_opt a (currentRefs s)\<rparr>)"
  "targets_kept s (s\<lparr>currentComputes := push_opt a (currentComputes s)\<rparr>)"
  "targets_kept s (s\<lparr>currentEffects := push_opt a (currentEffects s)\<rparr>)"
  by (auto simp: targets_kept_def capture_get_def capture_set_def enqueueUpdate_def Let_def
      push_opt_def split: option.splits)

lemma read_targets: "read g s = Some (v, s1) \<Longrightarrow> targets_kept s s1"
  by (auto simp: read_def ref_get_def computed_get_def targets_kept_def capture_get_def
      split: getter.splits option.splits)

lemma ref_set_targets: "ref_set r v s = Some s1 \<Longrightarrow> targets_kept s s1"
  by (auto simp: ref_set_def Let_def targets_kept_def capture_set_def enqueueUpdate_def
      split: option.splits if_splits)

lemma ref_targets: "ref v s = (s1, res) \<Longrightarrow> targets_kept s s1"
  using ref_result[of v s s1 res, OF _ refl]
  by (auto simp: targets_kept_def push_opt_def split: option.splits)

lemma runCapture_targets:
  assumes ev: "\<forall>s1. targets_kept s1 (fst (ev s1))" and rc: "runCapture ev s = (s2, r, cap)"
  shows "targets_kept s s2"
proof -
  obtain s2r where s2r: "ev (s\<lparr>currentCapture := Some emptyCapture\<rparr>) = (s2r, r)"
    "s2 = s2r\<lparr>currentCapture := currentCapture s\<rparr>"
    using rc by (rule runCapture_result)
  have "targets_kept (s\<lparr>currentCapture := Some emptyCapture\<rparr>) s2r"
    using ev s2r(1) by (metis fst_conv)
  then show ?thesis by (simp add: s2r)
qed

lemma computed_targets:
  assumes ev: "\<forall>s1. targets_kept s1 (fst (ev s1))" and c: "computed ev fn s = (s', res)"
  shows "targets_kept s s'"
proof -
  obtain sa ra where n: "ComputedState_new ev fn s = (sa, ra)" by (cases "ComputedState_new ev fn s")
  have push: "targets_kept s sa \<Longrightarrow> targets_kept s s'"
    using c n targets_kept_trans[OF _ targets_kept_ops(8)[of sa]]
    by (auto simp: computed_def split: sum.splits)
  from ComputedState_new_result[OF n] have "targets_kept s sa"
  proof (elim disjE exE conjE)
    fix e assume "sa = s" then show ?thesis by simp
  next
    fix s2 r cap e
    assume rc: "runCapture ev (log (EvRun (LComputed (computedId s)))
              (s\<lparr>computedId := Suc (computedId s), recursive := ModeComputed\<rparr>)) = (s2, r, cap)"
      and sa: "sa = s2"
    show ?thesis using runCapture_targets[OF ev rc] sa by (simp add: targets_kept_def)
  next
    fix s2 r cap state
    assume rc: "runCapture ev (log (EvRun (LComputed (computedId s)))
              (s\<lparr>computedId := Suc (computedId s), recursive := ModeComputed\<rparr>)) = (s2, r, cap)"
      and sa: "sa = link (LComputed (computedId s)) (getters cap)
                  (s2\<lparr>recursive := NoMode,
                      computeds := (computeds s2)(computedId s \<mapsto>
                         \<lparr>c_fn = fn, c_old = state, c_state = state, c_capture = cap,
                           c_listeners = []\<rparr>)\<rparr>)"
    show ?thesis using runCapture_targets[OF ev rc] by (simp add: sa targets_kept_def)
  qed
  then show ?thesis by (rule push)
qed

lemma effect_targets:
  assumes ev: "\<forall>s1. targets_kept s1 (fst (ev s1))" and c: "effect ev fn s = (s', res)"
  shows "targets_kept s s'"
proof -
  obtain sa ra where n: "EffectState_new ev fn s = (sa, ra)" by (cases "EffectState_new ev fn s")
  have push: "targets_kept s sa \<Longrightarrow> targets_kept s s'"
    using c n targets_kept_trans[OF _ targets_kept_ops(9)[of sa]]
    by (auto simp: effect_def split: sum.splits)
  from EffectState_new_result[OF n] have "targets_kept s sa"
  proof (elim disjE exE conjE)
    fix e assume "sa = s" then show ?thesis by simp
  next
    fix s2 r cap e
    assume rc: "runCapture ev (log (EvRun (LEffect (effectId s)))
              (s\<lparr>effectId := Suc (effectId s), recursive := ModeEffect\<rparr>)) = (s2, r, cap)"
      and sa: "sa = s2"
    show ?thesis using runCapture_targets[OF ev rc] sa by (simp add: targets_kept_def)
  next
    fix s2 r cap clear
    assume rc: "runCapture ev (log (EvRun (LEffect (effectId s)))
              (s\<lparr>effectId := Suc (effectId s), recursive := ModeEffect\<rparr>)) = (s2, r, cap)"
      and sa: "sa = link (LEffect (effectId s)) (getters cap)
                  (s2\<lparr>recursive := NoMode,
                      effects := (effects s2)(effectId s \<mapsto>
                         \<lparr>e_fn = fn, e_capture = cap, e_clear = clear, e_deleted = False\<rparr>)\<rparr>)"
    show ?thesis using runCapture_targets[OF ev rc] by (simp add: sa targets_kept_def)
  qed
  then show ?thesis by (rule push)
qed

lemma run_targets: "collect_free p \<Longrightarrow> targets_kept s (fst (run p s))"
proof (induction p arbitrary: s rule: prog_induct)
  case (GetValue g k)
  show ?case
  proof (cases "read g s")
    case None
    then show ?thesis by simp
  next
    case (Some a)
    obtain v s1 where a: "a = (v, s1)" by (cases a)
    have "targets_kept s1 (fst (run (k v) s1))" using GetValue by simp
    then show ?thesis
      using targets_kept_trans[OF read_targets[OF Some[unfolded a]]] Some a by simp
  qed
next
  case (SetValue r v k)
  show ?case
  proof (cases "ref_set r v s")
    case None
    then show ?thesis by simp
  next
    case (Some s1)
    have "targets_kept s1 (fst (run k s1))" using SetValue by simp
    then show ?thesis
      using targets_kept_trans[OF ref_set_targets[OF Some]] Some by simp
  qed
next
  case (MkFun body k)
  have "targets_kept (s\<lparr>closures := closures s @ [body]\<rparr>)
     (fst (run (k (VFun (length (closures s)))) (s\<lparr>closures := closures s @ [body]\<rparr>)))"
    using MkFun.IH(2) MkFun.prems by simp
  then show ?case by simp
next
  case (NewRef v k)
  obtain s1 res where c: "ref v s = (s1, res)" by (cases "ref v s")
  show ?case
  proof (cases res)
    case (Inl e)
    then show ?thesis using c ref_targets[OF c] by simp
  next
    case (Inr x)
    have "targets_kept s1 (fst (run (k x) s1))" using NewRef by simp
    then show ?thesis
      using c Inr targets_kept_trans[OF ref_targets[OF c]] by simp
  qed
next
  case (NewComputed fn k)
  obtain s1 res where c: "computed (run fn) fn s = (s1, res)" by (cases "computed (run fn) fn s")
  have ev: "\<forall>s1. targets_kept s1 (fst (run fn s1))" using NewComputed by simp
  note ct = computed_targets[OF ev c]
  show ?case
  proof (cases res)
    case (Inl e)
    then show ?thesis using c ct by simp
  next
    case (Inr x)
    have "targets_kept s1 (fst (run (k x) s1))" using NewComputed by simp
    then show ?thesis
      using c Inr targets_kept_trans[OF ct] by simp
  qed
next
  case (NewEffect fn k)
  obtain s1 res where c: "effect (run fn) fn s = (s1, res)" by (cases "effect (run fn) fn s")
  have ev: "\<forall>s1. targets_kept s1 (fst (run fn s1))" using NewEffect by simp
  note ct = effect_targets[OF ev c]
  show ?case
  proof (cases res)
    case (Inl e)
    then show ?thesis using c ct by simp
  next
    case (Inr x)
    have "targets_kept s1 (fst (run k s1))" using NewEffect by simp
    then show ?thesis
      using c Inr targets_kept_trans[OF ct] by simp
  qed
qed simp_all

subsection \<open>Facts of the example graph and of the flush\<close>

lemma demo_written:
  "ref_set 0 v demo_state = Some (written 0 v demo_state)"
  "ref_set 0 v' (written 0 v demo_state) = Some (written 0 v' (written 0 v demo_state))"
  by (simp_all add: written_def demo_defs)

lemma demo_committed: "committed demo_state 0 = Some (VNum 1)"
  by (simp add: committed_def demo_nodes)




text \<open>The flush, the timer callback and \<open>_remove\<close> keep the invariant.\<close>

lemma updateStates_wf:
  assumes "wf s" and "updateStates fuel s = Some (s', res)"
  shows "wf s'"
proof -
  have "wf (s\<lparr>currentUpdate := False\<rparr>)"
    using assms(1) wf_cong[of "s\<lparr>currentUpdate := False\<rparr>" s] by simp
  then show ?thesis
    using assms(2) rounds_props unfolding updateStates_def by blast
qed

lemma fire_wf:
  assumes "wf s" and "fire fuel s = Some (s', res)"
  shows "wf s'"
proof (cases "timers s = 0")
  case True
  then show ?thesis using assms by (simp add: fire_def)
next
  case False
  have w: "wf (s\<lparr>timers := timers s - 1\<rparr>)"
    using assms(1) wf_cong[of "s\<lparr>timers := timers s - 1\<rparr>" s] by simp
  have "updateStates fuel (s\<lparr>timers := timers s - 1\<rparr>) = Some (s', res)"
    using assms(2) False by (simp add: fire_def)
  then show ?thesis by (rule updateStates_wf[OF w])
qed

lemma computed_remove_wf: "wf s \<Longrightarrow> wf (computed_remove c s)"
  by (simp add: computed_remove_def unlink_wf split: option.splits)

lemma ref_update_wf: "wf s \<Longrightarrow> wf (fst (ref_update r s))"
proof -
  assume w: "wf s"
  obtain s1 b where ru: "ref_update r s = (s1, b)" by (cases "ref_update r s")
  note p = ref_update_props[OF ru]
  have "wf s1 = wf s" by (rule wf_cong) (simp_all add: p)
  then show ?thesis using w ru by simp
qed

lemma strict_eq_sym: "strict_eq a b = strict_eq b a"
  by (auto simp: strict_eq_def)

subsection \<open>Facts of the further examples\<close>

lemma first_round_commits:
  assumes w: "wf s" and r: "r \<in> set (dirtyStates s)" and p: "pending s r = Some v"
    and c: "committed s r = Some c0" and n: "\<not> strict_eq c0 v"
    and rd: "round fuel (s\<lparr>currentUpdate := False\<rparr>) = Some (s', res)"
  shows "committed s' r = Some v \<and>
    (\<exists>d. trace s' = trace s @ d \<and> filter (commit_of r) d = [EvCommit r v] \<and>
         (\<forall>v'. EvRead (GRef r) v' \<in> set d \<longrightarrow> v' = v) \<and>
         (res = Inr () \<longrightarrow> (\<forall>l \<in> set (listenersOf s (GRef r)). recomputed s d l)))"
proof -
  define s0 where "s0 = s\<lparr>currentUpdate := False\<rparr>"
  have w0: "wf s0" using w wf_cong[of s0 s] by (simp add: s0_def)
  have r0: "r \<in> set (dirtyStates s0)" using r by (simp add: s0_def)
  have p0: "pending s0 r = Some v" using p by (simp add: s0_def pending_def)
  have c0: "committed s0 r = Some c0" using c by (simp add: s0_def committed_def)
  have l0: "listenersOf s0 = listenersOf s" by (simp add: s0_def)
  have rec0: "\<And>d l. recomputed s0 d l = recomputed s d l"
    by (simp add: recomputed_def s0_def)
  from round_commits[OF w0 r0 p0 c0 n rd[folded s0_def]] show ?thesis
    unfolding l0 rec0 by (auto simp: s0_def)
qed

lemma dirty_leaf_flush:
  assumes w: "wf s" and r: "r \<in> set (dirtyStates s)" and p: "pending s r = Some v"
    and c: "committed s r = Some c0" and n: "\<not> strict_eq c0 v"
  shows "committed (snd (commitLoop (dirtyStates s) []
            (s\<lparr>currentUpdate := False, dirtyStates := []\<rparr>))) r = Some v
       \<and> trace (snd (commitLoop (dirtyStates s) []
            (s\<lparr>currentUpdate := False, dirtyStates := []\<rparr>)))
            = trace s @ commit_events s (dirtyStates s)
       \<and> filter (commit_of r) (commit_events s (dirtyStates s)) = [EvCommit r v]
       \<and> set (listenersOf s (GRef r)) \<subseteq> set (fst (commitLoop (dirtyStates s) []
            (s\<lparr>currentUpdate := False, dirtyStates := []\<rparr>)))"
proof -
  obtain q sc where cl: "commitLoop (dirtyStates s) [] (s\<lparr>currentUpdate := False, dirtyStates := []\<rparr>) = (q, sc)"
    by (cases "commitLoop (dirtyStates s) [] (s\<lparr>currentUpdate := False, dirtyStates := []\<rparr>)")
  from commit_phase_leaf[OF w r p c n cl] show ?thesis
    by (simp add: cl)
qed


lemma demo_write_back:
  "trace (written 0 (VNum 1) (written 0 (VNum 2) demo_state))
     = trace demo_state @ [EvWrite 0 (VNum 2)]"
  "map_option snd (updateStates 3 (written 0 (VNum 1) (written 0 (VNum 2) demo_state))) = Some (Inr ())"
  "map_option (\<lambda>x. committed (fst x) 0)
     (updateStates 3 (written 0 (VNum 1) (written 0 (VNum 2) demo_state))) = Some (Some (VNum 2))"
  "map_option (\<lambda>x. trace (fst x))
     (updateStates 3 (written 0 (VNum 1) (written 0 (VNum 2) demo_state)))
     = Some (trace (written 0 (VNum 1) (written 0 (VNum 2) demo_state)) @
         [EvCommit 0 (VNum 2), EvUnlink (LComputed 0), EvRun (LComputed 0),
          EvRead (GRef 0) (VNum 2), EvLink (LComputed 0), EvCleanup 0 0, EvUnlink (LEffect 0),
          EvRun (LEffect 0), EvRead (GComputed 0) (VNum 2), EvLink (LEffect 0)])"
  by (simp_all add: written_def demo_defs committed_def numeral_3_eq_3)

lemma wf_tidy: "wf tidy_state"
  by (simp add: tidy_state_def wf_run_init)

lemma tidy_nodes:
  "effects tidy_state 0 = Some \<lparr>e_fn = GetValue (GRef 0) (\<lambda>v. MkFun (SetValue 0 (VNum 5) (Return VUndef)) Return),
      e_capture = \<lparr>getters = [GRef 0], setters = []\<rparr>, e_clear = VFun 0, e_deleted = False\<rparr>"
  "closures tidy_state = [SetValue 0 (VNum 5) (Return VUndef)]"
  "trace tidy_state = [EvRun (LEffect 0), EvRead (GRef 0) (VNum 1), EvLink (LEffect 0)]"
  by (simp_all add: tidy_state_def tidy_def init_def ctor_defs flush_defs)

lemma tidy_update:
  "snd (effect_update 0 tidy_state) = Inr False"
  "pending (fst (effect_update 0 tidy_state)) 0 = Some (VNum 5)"
  "committed (fst (effect_update 0 tidy_state)) 0 = Some (VNum 1)"
  "trace (fst (effect_update 0 tidy_state)) = trace tidy_state @
     [EvCleanup 0 0, EvWrite 0 (VNum 5), EvUnlink (LEffect 0), EvRun (LEffect 0),
      EvRead (GRef 0) (VNum 1), EvLink (LEffect 0)]"
  "map_option e_clear (effects (fst (effect_update 0 tidy_state)) 0) = Some (VFun 1)"
  "snd (effect_remove 0 tidy_state) = Inr ()"
  "trace (fst (effect_remove 0 tidy_state)) = trace tidy_state @
     [EvCleanup 0 0, EvWrite 0 (VNum 5), EvUnlink (LEffect 0)]"
  "map_option e_deleted (effects (fst (effect_remove 0 tidy_state)) 0) = Some True"
  "snd (effect_remove 0 (fst (effect_update 0 tidy_state))) = Inr ()"
  "trace (fst (effect_remove 0 (fst (effect_update 0 tidy_state))))
     = trace (fst (effect_update 0 tidy_state)) @ [EvCleanup 0 1, EvWrite 0 (VNum 5), EvUnlink (LEffect 0)]"
  by (simp_all add: tidy_state_def tidy_def init_def ctor_defs flush_defs pending_def committed_def)

lemma lazy_facts:
  "wf (fst (ref_update 0 lazy_state))"
  "recursive (fst (ref_update 0 lazy_state)) = NoMode"
  "computeds (fst (ref_update 0 lazy_state)) 0 = Some \<lparr>c_fn = GetValue (GRef 0) (\<lambda>v.
         if strict_eq v (VNum 1) then NewRef (VNum 5) (\<lambda>r. Return (VNum 1)) else Return (VNum 0)),
       c_old = VNum 0, c_state = VNum 0, c_capture = \<lparr>getters = [GRef 0], setters = []\<rparr>,
       c_listeners = []\<rparr>"
  "committed (fst (ref_update 0 lazy_state)) 0 = Some (VNum 1)"
  "refId lazy_state = 1" "timers lazy_state = 1" "dirtyStates lazy_state = [0]"
  "refId (fst (ref_update 0 lazy_state)) = 1"
  "map_option snd (fire 2 lazy_state) = Some (Inr ())"
  "map_option (\<lambda>x. refId (fst x)) (fire 2 lazy_state) = Some 2"
  "map_option (\<lambda>x. committed (fst x) 1) (fire 2 lazy_state) = Some (Some (VNum 5))"
  "map_option (\<lambda>x. recursive (fst x)) (fire 2 lazy_state) = Some NoMode"
proof -
  show "wf (fst (ref_update 0 lazy_state))"
    by (rule ref_update_wf) (simp add: lazy_state_def wf_run_init)
qed (simp_all add: lazy_state_def lazy_def init_def ctor_defs flush_defs committed_def numeral_2_eq_2)

section \<open>The claims\<close>

text \<open>
  C6 (the code departs from the claim).  At top level, \<open>computed(() => { throw })\<close>
  and \<open>effect(() => { throw })\<close> propagate the exception with \<open>currentCapture\<close>
  restored to its value before, but with \<open>recursive\<close> left at \<open>"computed"\<close> and
  \<open>"effect"\<close>, not at the \<open>false\<close> it had before the evaluation; the next \<open>ref(v)\<close>
  then throws.
\<close>

theorem throwing_body_leaves_mode:
  "recursive init = NoMode
   \<and> snd (run (NewComputed Throw k) init) = Inl UserError
   \<and> currentCapture (fst (run (NewComputed Throw k) init)) = currentCapture init
   \<and> recursive (fst (run (NewComputed Throw k) init)) = ModeComputed
   \<and> snd (run (NewEffect Throw k') init) = Inl UserError
   \<and> currentCapture (fst (run (NewEffect Throw k') init)) = currentCapture init
   \<and> recursive (fst (run (NewEffect Throw k') init)) = ModeEffect
   \<and> snd (run (NewRef v kr) (fst (run (NewComputed Throw k) init)))
        = Inl (TypeError ''Cannot construct ref inside computed'')"
  by (simp add: init_def ctor_defs)

text \<open>
  C8, as the claim states it, fails: \<open>effect(() => { ref(0) })\<close> at top level throws
  the guard's TypeError.
\<close>

theorem ref_inside_effect_body_throws:
  "snd (run (NewEffect (NewRef (VNum 0) (\<lambda>r. Return VUndef)) (Return VUndef)) init)
     = Inl (TypeError ''Cannot construct ref inside effect'')"
  by (simp add: init_def ctor_defs)

text \<open>
  C8, amended.  While \<open>recursive\<close> is \<open>"effect"\<close>, constructing a leaf or a derived
  signal throws the guard's TypeError and changes nothing, and only the construction
  of an effect passes the guard; while it is \<open>"computed"\<close>, all three throw.
  An effect constructed from mode \<open>false\<close> or \<open>"effect"\<close> evaluates its body in mode
  \<open>"effect"\<close>: a leaf or derived signal constructed first in that body throws, a nested
  effect is constructed.
\<close>

theorem guard_by_mode:
  "(recursive s = ModeEffect \<longrightarrow>
      run (NewRef v k) s = (s, Inl (TypeError ''Cannot construct ref inside effect''))
    \<and> run (NewComputed fn kc) s = (s, Inl (TypeError ''Cannot construct computed inside effect''))
    \<and> assertRecursive ''effect'' s = None)
   \<and> (recursive s = ModeComputed \<longrightarrow>
      assertRecursive ''ref'' s = Some (TypeError ''Cannot construct ref inside computed'')
    \<and> assertRecursive ''computed'' s = Some (TypeError ''Cannot construct computed inside computed'')
    \<and> assertRecursive ''effect'' s = Some (TypeError ''Cannot construct effect inside computed''))
   \<and> (recursive s \<noteq> ModeComputed \<longrightarrow>
      snd (run (NewEffect (NewRef v k) k2) s) = Inl (TypeError ''Cannot construct ref inside effect'')
    \<and> snd (run (NewEffect (NewComputed fn kc) k2) s)
        = Inl (TypeError ''Cannot construct computed inside effect'')
    \<and> snd (run (NewEffect (NewEffect (Return a) (Return b)) (Return c)) s) = Inr c
    \<and> effectId (fst (run (NewEffect (NewEffect (Return a) (Return b)) (Return c)) s))
        = effectId s + 2)"
  by (cases "recursive s")
     (simp_all add: ctor_defs link_def emptyCapture_def push_opt_def split: option.splits)

theorem guard_by_mode_witness:
  "recursive (init\<lparr>recursive := ModeEffect\<rparr>) = ModeEffect
   \<and> run (NewRef (VNum 0) (\<lambda>r. Return VUndef)) (init\<lparr>recursive := ModeEffect\<rparr>)
       = (init\<lparr>recursive := ModeEffect\<rparr>, Inl (TypeError ''Cannot construct ref inside effect''))
   \<and> assertRecursive ''effect'' (init\<lparr>recursive := ModeEffect\<rparr>) = None
   \<and> recursive (init\<lparr>recursive := ModeComputed\<rparr>) = ModeComputed
   \<and> assertRecursive ''effect'' (init\<lparr>recursive := ModeComputed\<rparr>)
       = Some (TypeError ''Cannot construct effect inside computed'')
   \<and> recursive init \<noteq> ModeComputed
   \<and> snd (run (NewEffect (NewRef (VNum 0) (\<lambda>r. Return VUndef)) (Return VUndef)) init)
       = Inl (TypeError ''Cannot construct ref inside effect'')
   \<and> snd (run (NewEffect (NewEffect (Return VUndef) (Return VUndef)) (Return VNull)) init) = Inr VNull"
proof -
  have h1: "recursive (init\<lparr>recursive := ModeEffect\<rparr>) = ModeEffect" by simp
  have h2: "recursive (init\<lparr>recursive := ModeComputed\<rparr>) = ModeComputed" by simp
  have h3: "recursive init \<noteq> ModeComputed" by (simp add: init_def)
  note a = guard_by_mode[of "init\<lparr>recursive := ModeEffect\<rparr>" "VNum 0" "\<lambda>r. Return VUndef"
      Throw "\<lambda>c. Throw" "Return VUndef" VUndef VUndef VNull]
  note b = guard_by_mode[of "init\<lparr>recursive := ModeComputed\<rparr>" "VNum 0" "\<lambda>r. Return VUndef"
      Throw "\<lambda>c. Throw" "Return VUndef" VUndef VUndef VNull]
  note c = guard_by_mode[of init "VNum 0" "\<lambda>r. Return VUndef"
      Throw "\<lambda>c. Throw" "Return VUndef" VUndef VUndef VNull]
  show ?thesis using a b c h1 h2 h3 by blast
qed

text \<open>
  C9 (the code departs from the claim).  The constructor of a derived signal
  evaluates its body in mode \<open>"computed"\<close>, where constructing a leaf throws the
  guard's TypeError; \<open>_update\<close> evaluates the same body without setting the mode.
  From a well-formed state in mode \<open>false\<close>, as the flush runs in, for a derived
  signal with the body \<open>() => flag.value === t ? (ref(w), a) : b\<close> whose \<open>flag\<close> holds
  \<open>t\<close>: constructing a derived signal with this body throws the TypeError, and the
  recompute of the signal constructs the leaf and returns, with no error.
\<close>

theorem recompute_skips_guard:
  assumes "wf s" and "recursive s = NoMode" and "computeds s c = Some x"
    and "c_fn x = GetValue (GRef r) (\<lambda>v.
           if strict_eq v t then NewRef w (\<lambda>n. Return a) else Return b)"
    and "committed s r = Some t" and "strict_eq t t"
  shows "snd (computed (run (c_fn x)) (c_fn x) s)
           = Inl (TypeError ''Cannot construct ref inside computed'')
       \<and> snd (computed_update c s) = Inr (\<not> strict_eq a (c_state x))
       \<and> refId (fst (computed_update c s)) = Suc (refId s)
       \<and> committed (fst (computed_update c s)) (refId s) = Some (if w = VUndef then VNull else w)
       \<and> recursive (fst (computed_update c s)) = NoMode"
proof -
  obtain y where y: "refs s r = Some y" "r_state y = t"
    using assms(5) by (auto simp: committed_def)
  have ctor: "snd (computed (run (c_fn x)) (c_fn x) s)
           = Inl (TypeError ''Cannot construct ref inside computed'')"
    using y assms(2,6)
    by (simp add: assms(4) computed_def ComputedState_new_def assertRecursive_def runCapture_def
        Let_def read_def ref_get_def ref_def RefState_new_def mode_name_def capture_get_def log_def)
  define s1 where "s1 = log (EvRun (LComputed c)) (unlink (LComputed c) (getters (c_capture x)) s)"
  have "committed s1 r = Some t" using assms(5) by (simp add: s1_def)
  then obtain y1 where y1: "refs s1 r = Some y1" "r_state y1 = t"
    by (auto simp: committed_def)
  have m1: "recursive s1 = NoMode" "refId s1 = refId s"
    using assms(2) by (simp_all add: s1_def)
  obtain s2 rr cap where rc: "runCapture (run (c_fn x)) s1 = (s2, rr, cap)"
    by (cases "runCapture (run (c_fn x)) s1") auto
  have ev: "rr = Inr a \<and> refId s2 = Suc (refId s) \<and> recursive s2 = NoMode
      \<and> committed s2 (refId s) = Some (if w = VUndef then VNull else w)"
    using rc y1 m1 assms(6)
    by (auto simp: assms(4) runCapture_def Let_def read_def ref_get_def ref_def RefState_new_def
        assertRecursive_def capture_get_def log_def committed_def split: prod.splits)
  obtain s' res where u: "computed_update c s = (s', res)" by (cases "computed_update c s")
  from computed_update_props[OF assms(1,3) u] rc ev
  have res: "res = Inr (\<not> strict_eq a (c_state x))"
    by (auto simp: s1_def)
  from computed_update_result[OF assms(3) u] rc ev
  have "s' = link (LComputed c) (getters cap) (set_c_capture c cap s2) \<or>
     (\<exists>y. s' = (link (LComputed c) (getters cap) (set_c_capture c cap s2))\<lparr>computeds := y\<rparr>)"
    by (auto simp: s1_def split: option.splits if_splits)
  then have "refId s' = refId s2 \<and> recursive s' = recursive s2 \<and> committed s' = committed s2"
    by auto
  then show ?thesis
    using ctor res ev u by simp
qed

theorem recompute_skips_guard_witness:
  "wf (fst (ref_update 0 lazy_state))
   \<and> recursive (fst (ref_update 0 lazy_state)) = NoMode
   \<and> committed (fst (ref_update 0 lazy_state)) 0 = Some (VNum 1)
   \<and> strict_eq (VNum 1) (VNum 1)
   \<and> snd (computed_update 0 (fst (ref_update 0 lazy_state))) = Inr True
   \<and> refId (fst (computed_update 0 (fst (ref_update 0 lazy_state)))) = 2
   \<and> refId lazy_state = 1 \<and> timers lazy_state = 1 \<and> dirtyStates lazy_state = [0]
   \<and> map_option snd (fire 2 lazy_state) = Some (Inr ())
   \<and> map_option (\<lambda>x. refId (fst x)) (fire 2 lazy_state) = Some 2
   \<and> map_option (\<lambda>x. committed (fst x) 1) (fire 2 lazy_state) = Some (Some (VNum 5))"
proof -
  have q: "strict_eq (VNum 1) (VNum 1)" by (simp add: strict_eq_def)
  have f: "c_fn \<lparr>c_fn = GetValue (GRef 0) (\<lambda>v.
         if strict_eq v (VNum 1) then NewRef (VNum 5) (\<lambda>r. Return (VNum 1)) else Return (VNum 0)),
       c_old = VNum 0, c_state = VNum 0, c_capture = \<lparr>getters = [GRef 0], setters = []\<rparr>,
       c_listeners = []\<rparr>
     = GetValue (GRef 0) (\<lambda>v.
         if strict_eq v (VNum 1) then NewRef (VNum 5) (\<lambda>n. Return (VNum 1)) else Return (VNum 0))"
    by simp
  from recompute_skips_guard[OF lazy_facts(1,2,3) f lazy_facts(4) q]
  have "snd (computed_update 0 (fst (ref_update 0 lazy_state))) = Inr True
     \<and> refId (fst (computed_update 0 (fst (ref_update 0 lazy_state)))) = 2"
    by (simp add: strict_eq_def lazy_facts(8))
  then show ?thesis
    using lazy_facts q by simp
qed

text \<open>
  C1.  From a well-formed state, when the recompute of a derived signal, the
  recompute of an effect that is not deleted, or the construction of a derived
  signal or of an effect returns without throwing, then for every source \<open>g\<close> the
  listeners of \<open>g\<close> contain the node if and only if \<open>g\<close> is in the getters of the node's
  capture, which is the capture of that evaluation.
\<close>

theorem edge_mirror_exact:
  assumes "wf s"
  shows "(computed_update c s = (s1, Inr b) \<longrightarrow> mirror_exact s1 (LComputed c))
       \<and> (effects s e = Some x \<and> \<not> e_deleted x \<and> effect_update e s = (s2, Inr b')
            \<longrightarrow> mirror_exact s2 (LEffect e))
       \<and> (computed (run fn) fn s = (s3, Inr c') \<longrightarrow> mirror_exact s3 (LComputed c'))
       \<and> (effect (run fn') fn' s = (s4, Inr e') \<longrightarrow> mirror_exact s4 (LEffect e'))"
proof (intro conjI impI)
  assume u: "computed_update c s = (s1, Inr b)"
  then obtain x0 where x0: "computeds s c = Some x0"
    by (cases "computeds s c") (auto simp: computed_update_def)
  from computed_update_ok[OF assms x0 u] show "mirror_exact s1 (LComputed c)"
    by blast
next
  assume "effects s e = Some x \<and> \<not> e_deleted x \<and> effect_update e s = (s2, Inr b')"
  then have a: "effects s e = Some x" "\<not> e_deleted x" "effect_update e s = (s2, Inr b')" by auto
  from effect_update_props[OF assms a] show "mirror_exact s2 (LEffect e)"
    by (auto simp: mirror_exact_def)
next
  assume "computed (run fn) fn s = (s3, Inr c')"
  then show "mirror_exact s3 (LComputed c')" by (rule computed_mirror[OF assms])
next
  assume "effect (run fn') fn' s = (s4, Inr e')"
  then show "mirror_exact s4 (LEffect e')" by (rule effect_mirror[OF assms])
qed

theorem edge_mirror_exact_witness:
  "wf demo_state
   \<and> snd (computed_update 0 demo_state) = Inr False
   \<and> mirror_exact (fst (computed_update 0 demo_state)) (LComputed 0)
   \<and> snd (effect_update 0 demo_state) = Inr False
   \<and> mirror_exact (fst (effect_update 0 demo_state)) (LEffect 0)
   \<and> snd (computed (run (GetValue (GRef 0) Return)) (GetValue (GRef 0) Return) demo_state) = Inr 1
   \<and> mirror_exact (fst (computed (run (GetValue (GRef 0) Return)) (GetValue (GRef 0) Return) demo_state))
        (LComputed 1)
   \<and> snd (effect (run (GetValue (GRef 0) Return)) (GetValue (GRef 0) Return) demo_state) = Inr 1
   \<and> mirror_exact (fst (effect (run (GetValue (GRef 0) Return)) (GetValue (GRef 0) Return) demo_state))
        (LEffect 1)"
proof -
  have a: "computed_update 0 demo_state = (fst (computed_update 0 demo_state), Inr False)"
    using demo_updates(1) by (metis prod.collapse)
  have b: "effect_update 0 demo_state = (fst (effect_update 0 demo_state), Inr False)"
    using demo_updates(2) by (metis prod.collapse)
  have c: "computed (run (GetValue (GRef 0) Return)) (GetValue (GRef 0) Return) demo_state
      = (fst (computed (run (GetValue (GRef 0) Return)) (GetValue (GRef 0) Return) demo_state), Inr 1)"
    using demo_updates(3) by (metis prod.collapse)
  have d: "effect (run (GetValue (GRef 0) Return)) (GetValue (GRef 0) Return) demo_state
      = (fst (effect (run (GetValue (GRef 0) Return)) (GetValue (GRef 0) Return) demo_state), Inr 1)"
    using demo_updates(4) by (metis prod.collapse)
  have e: "\<not> e_deleted \<lparr>e_fn = GetValue (GComputed 0) (\<lambda>v. MkFun (Return VUndef) Return),
      e_capture = \<lparr>getters = [GComputed 0], setters = []\<rparr>, e_clear = VFun 0, e_deleted = False\<rparr>"
    by simp
  from edge_mirror_exact[OF wf_demo, of 0 "fst (computed_update 0 demo_state)" False 0
      "\<lparr>e_fn = GetValue (GComputed 0) (\<lambda>v. MkFun (Return VUndef) Return),
      e_capture = \<lparr>getters = [GComputed 0], setters = []\<rparr>, e_clear = VFun 0, e_deleted = False\<rparr>"
      "fst (effect_update 0 demo_state)" False
      "GetValue (GRef 0) Return"
      "fst (computed (run (GetValue (GRef 0) Return)) (GetValue (GRef 0) Return) demo_state)" 1
      "GetValue (GRef 0) Return"
      "fst (effect (run (GetValue (GRef 0) Return)) (GetValue (GRef 0) Return) demo_state)" 1]
  show ?thesis
    using wf_demo demo_updates demo_nodes(1) a b c d e by simp
qed

text \<open>
  C4.  From a well-formed state, when the evaluation that the recompute of a derived
  signal makes returns a value that is \<open>===\<close> the committed value, the recompute reports
  unchanged and keeps the committed value, so that the drain pushes nothing for the
  node and goes on with the rest of the queue; yet the node's capture is the new
  capture and its edges are exactly the new capture's getters.
\<close>

theorem derived_memoization:
  assumes "wf s" and "computeds s c = Some x"
    and "fst (snd (reevaluate c x s)) = Inr v" and "strict_eq v (c_state x)"
  shows "snd (computed_update c s) = Inr False
       \<and> map_option c_state (computeds (fst (computed_update c s)) c) = Some (c_state x)
       \<and> captureOf (fst (computed_update c s)) (LComputed c) = snd (snd (reevaluate c x s))
       \<and> mirror_exact (fst (computed_update c s)) (LComputed c)
       \<and> pushed (LComputed c) False (fst (computed_update c s)) = []
       \<and> drain (Suc fuel) (q @ [LComputed c]) s = drain fuel q (fst (computed_update c s))"
proof -
  obtain s' res where u: "computed_update c s = (s', res)" by (cases "computed_update c s")
  have v: "v = c_state x" using assms(4) by (simp add: strict_eq_def)
  obtain s2 cap where re: "reevaluate c x s = (s2, Inr (c_state x), cap)"
    using assms(3) v by (cases "reevaluate c x s") auto
  have res: "res = Inr False"
    using computed_update_props[OF assms(1,2) u] re assms(4) v
    by (auto simp: reevaluate_def)
  from computed_update_ok[OF assms(1,2) u[unfolded res]] re
  have "captureOf s' (LComputed c) = cap \<and> mirror_exact s' (LComputed c) \<and>
     map_option c_state (computeds s' c) = Some (c_state x)"
    by auto
  then show ?thesis
    using u res re by (simp add: drain_snoc node_update_def pushed_def)
qed

theorem derived_memoization_witness:
  "wf demo_state
   \<and> fst (snd (reevaluate 0 \<lparr>c_fn = GetValue (GRef 0) Return, c_old = VNum 1, c_state = VNum 1,
      c_capture = \<lparr>getters = [GRef 0], setters = []\<rparr>, c_listeners = [LEffect 0]\<rparr> demo_state)) = Inr (VNum 1)
   \<and> snd (computed_update 0 demo_state) = Inr False
   \<and> mirror_exact (fst (computed_update 0 demo_state)) (LComputed 0)
   \<and> drain 1 [LComputed 0] demo_state = Some (fst (computed_update 0 demo_state), Inr ())"
proof -
  have r: "fst (snd (reevaluate 0 \<lparr>c_fn = GetValue (GRef 0) Return, c_old = VNum 1, c_state = VNum 1,
      c_capture = \<lparr>getters = [GRef 0], setters = []\<rparr>, c_listeners = [LEffect 0]\<rparr> demo_state))
      = Inr (c_state \<lparr>c_fn = GetValue (GRef 0) Return, c_old = VNum 1, c_state = VNum 1,
      c_capture = \<lparr>getters = [GRef 0], setters = []\<rparr>, c_listeners = [LEffect 0]\<rparr>)"
    by (simp add: reevaluate_def demo_defs)
  have q: "strict_eq (c_state \<lparr>c_fn = GetValue (GRef 0) Return, c_old = VNum 1, c_state = VNum 1,
      c_capture = \<lparr>getters = [GRef 0], setters = []\<rparr>, c_listeners = [LEffect 0]\<rparr>)
     (c_state \<lparr>c_fn = GetValue (GRef 0) Return, c_old = VNum 1, c_state = VNum 1,
      c_capture = \<lparr>getters = [GRef 0], setters = []\<rparr>, c_listeners = [LEffect 0]\<rparr>)"
    by (simp add: strict_eq_def)
  from derived_memoization[OF wf_demo demo_nodes(2) r q, of 0 "[]"]
  show ?thesis using wf_demo r by simp
qed

text \<open>
  C5.  From a well-formed state, for an effect whose stored cleanup is the function
  \<open>f\<close>.  A recompute of the effect, when it is not deleted and the recompute returns,
  calls \<open>f\<close> first, in the state the recompute started in, then removes the old
  edges from the state the cleanup left, then runs the body there, then links the
  new edges and stores the cleanup the body returned; neither the cleanup nor the
  body causes a second call of a cleanup of this effect, a second unlinking or a
  second run of it; and a removal made next calls the cleanup stored last.  A
  removal that returns calls \<open>f\<close>, once, and then removes the edges of the state the
  cleanup left; it leaves the effect deleted and in no listener set, and a recompute
  attempted after it returns at once and leaves the state as it is.
\<close>

theorem effect_cleanup_lifecycle:
  assumes "wf s" and "effects s e = Some x" and "e_clear x = VFun f"
  shows "(\<not> e_deleted x \<and> effect_update e s = (s1, Inr b) \<longrightarrow>
          (\<exists>s0 v s2 clear cap tc tb.
              f < length (closures s)
            \<and> run (closures s ! f) (log (EvCleanup e f) s) = (s0, Inr v)
            \<and> trace s0 = trace s @ [EvCleanup e f] @ tc
            \<and> runCapture (run (e_fn x))
                 (log (EvRun (LEffect e)) (unlink (LEffect e) (getters (e_capture x)) s0))
                = (s2, Inr clear, cap)
            \<and> trace s2 = trace s0 @ [EvUnlink (LEffect e), EvRun (LEffect e)] @ tb
            \<and> s1 = link (LEffect e) (getters cap) (set_e_clear e clear (set_e_capture e cap s2))
            \<and> trace s1 = trace s2 @ [EvLink (LEffect e)]
            \<and> effects s1 e = Some (x\<lparr>e_capture := cap, e_clear := clear\<rparr>)
            \<and> (\<forall>ev \<in> set (tc @ tb).
                  (\<forall>f'. ev \<noteq> EvCleanup e f') \<and> ev \<noteq> EvUnlink (LEffect e) \<and> ev \<noteq> EvRun (LEffect e))
            \<and> (\<forall>f' s3 u'. clear = VFun f' \<and> effect_remove e s1 = (s3, Inr u') \<longrightarrow>
                  (\<exists>s4 v' td. run (closures s1 ! f') (log (EvCleanup e f') s1) = (s4, Inr v')
                     \<and> trace s4 = trace s1 @ [EvCleanup e f'] @ td
                     \<and> trace s3 = trace s4 @ [EvUnlink (LEffect e)]))))
       \<and> (effect_remove e s = (s2', Inr u) \<longrightarrow>
          (\<exists>s0 v tc.
              f < length (closures s)
            \<and> run (closures s ! f) (log (EvCleanup e f) s) = (s0, Inr v)
            \<and> trace s0 = trace s @ [EvCleanup e f] @ tc
            \<and> (\<forall>ev \<in> set tc. (\<forall>f'. ev \<noteq> EvCleanup e f') \<and> ev \<noteq> EvUnlink (LEffect e))
            \<and> s2' = (unlink (LEffect e) (getters (e_capture x)) s0)
                      \<lparr>effects := (effects s0)(e \<mapsto> x\<lparr>e_deleted := True\<rparr>)\<rparr>
            \<and> trace s2' = trace s0 @ [EvUnlink (LEffect e)])
          \<and> effects s2' e = Some (x\<lparr>e_deleted := True\<rparr>)
          \<and> (\<forall>g. LEffect e \<notin> set (listenersOf s2' g))
          \<and> effect_update e s2' = (s2', Inr False))"
proof (intro conjI impI)
  have elt: "e < effectId s"
    using assms by (auto simp: wf_def ids_ok_def)
  have nf: "(\<forall>f'. ev \<noteq> EvCleanup e f') \<and> ev \<noteq> EvUnlink (LEffect e) \<and> ev \<noteq> EvRun (LEffect e)"
    if "fresh_ev s ev" for ev
    using fresh_ev_not_old[OF that elt] by blast
  {
    assume a: "\<not> e_deleted x \<and> effect_update e s = (s1, Inr b)"
    then have l: "\<not> e_deleted x" and u: "effect_update e s = (s1, Inr b)" by simp_all
    from effect_update_steps[OF assms l u]
    obtain s0 v s2 clear cap tc tb where st:
      "f < length (closures s)"
      "run (closures s ! f) (log (EvCleanup e f) s) = (s0, Inr v)"
      "trace s0 = trace s @ [EvCleanup e f] @ tc"
      "runCapture (run (e_fn x))
         (log (EvRun (LEffect e)) (unlink (LEffect e) (getters (e_capture x)) s0))
        = (s2, Inr clear, cap)"
      "trace s2 = trace s0 @ [EvUnlink (LEffect e), EvRun (LEffect e)] @ tb"
      "s1 = link (LEffect e) (getters cap) (set_e_clear e clear (set_e_capture e cap s2))"
      "trace s1 = trace s2 @ [EvLink (LEffect e)]"
      "effects s1 e = Some (x\<lparr>e_capture := cap, e_clear := clear\<rparr>)"
      "\<forall>ev \<in> set (tc @ tb). fresh_ev s ev" "wf s1"
      by (elim exE conjE) (rule that)
    have neg: "\<forall>ev \<in> set (tc @ tb).
                  (\<forall>f'. ev \<noteq> EvCleanup e f') \<and> ev \<noteq> EvUnlink (LEffect e) \<and> ev \<noteq> EvRun (LEffect e)"
      using st(9) nf by blast
    have nxt: "\<forall>f' s3 u'. clear = VFun f' \<and> effect_remove e s1 = (s3, Inr u') \<longrightarrow>
                  (\<exists>s4 v' td. run (closures s1 ! f') (log (EvCleanup e f') s1) = (s4, Inr v')
                     \<and> trace s4 = trace s1 @ [EvCleanup e f'] @ td
                     \<and> trace s3 = trace s4 @ [EvUnlink (LEffect e)])"
    proof (intro allI impI)
      fix f' s3 u' assume h: "clear = VFun f' \<and> effect_remove e s1 = (s3, Inr u')"
      then have c: "e_clear (x\<lparr>e_capture := cap, e_clear := clear\<rparr>) = VFun f'"
        and r: "effect_remove e s1 = (s3, Inr u')" by simp_all
      from effect_remove_steps[OF st(10) st(8) c r]
      show "\<exists>s4 v' td. run (closures s1 ! f') (log (EvCleanup e f') s1) = (s4, Inr v')
                     \<and> trace s4 = trace s1 @ [EvCleanup e f'] @ td
                     \<and> trace s3 = trace s4 @ [EvUnlink (LEffect e)]"
        by blast
    qed
    show "\<exists>s0 v s2 clear cap tc tb.
              f < length (closures s)
            \<and> run (closures s ! f) (log (EvCleanup e f) s) = (s0, Inr v)
            \<and> trace s0 = trace s @ [EvCleanup e f] @ tc
            \<and> runCapture (run (e_fn x))
                 (log (EvRun (LEffect e)) (unlink (LEffect e) (getters (e_capture x)) s0))
                = (s2, Inr clear, cap)
            \<and> trace s2 = trace s0 @ [EvUnlink (LEffect e), EvRun (LEffect e)] @ tb
            \<and> s1 = link (LEffect e) (getters cap) (set_e_clear e clear (set_e_capture e cap s2))
            \<and> trace s1 = trace s2 @ [EvLink (LEffect e)]
            \<and> effects s1 e = Some (x\<lparr>e_capture := cap, e_clear := clear\<rparr>)
            \<and> (\<forall>ev \<in> set (tc @ tb).
                  (\<forall>f'. ev \<noteq> EvCleanup e f') \<and> ev \<noteq> EvUnlink (LEffect e) \<and> ev \<noteq> EvRun (LEffect e))
            \<and> (\<forall>f' s3 u'. clear = VFun f' \<and> effect_remove e s1 = (s3, Inr u') \<longrightarrow>
                  (\<exists>s4 v' td. run (closures s1 ! f') (log (EvCleanup e f') s1) = (s4, Inr v')
                     \<and> trace s4 = trace s1 @ [EvCleanup e f'] @ td
                     \<and> trace s3 = trace s4 @ [EvUnlink (LEffect e)]))"
      using st(1-8) neg nxt
      by (intro exI[of _ s0] exI[of _ v] exI[of _ s2] exI[of _ clear] exI[of _ cap]
          exI[of _ tc] exI[of _ tb] conjI)
  }
  assume r: "effect_remove e s = (s2', Inr u)"
  from effect_remove_steps[OF assms r]
  obtain s0 v tc where st:
      "f < length (closures s)"
      "run (closures s ! f) (log (EvCleanup e f) s) = (s0, Inr v)"
      "trace s0 = trace s @ [EvCleanup e f] @ tc"
      "\<forall>ev \<in> set tc. fresh_ev s ev"
      "s2' = (unlink (LEffect e) (getters (e_capture x)) s0)
             \<lparr>effects := (effects s0)(e \<mapsto> x\<lparr>e_deleted := True\<rparr>)\<rparr>"
      "trace s2' = trace s0 @ [EvUnlink (LEffect e)]"
    by (elim exE conjE) (rule that)
  have neg: "\<forall>ev \<in> set tc. (\<forall>f'. ev \<noteq> EvCleanup e f') \<and> ev \<noteq> EvUnlink (LEffect e)"
    using st(4) nf by blast
  show "\<exists>s0 v tc.
              f < length (closures s)
            \<and> run (closures s ! f) (log (EvCleanup e f) s) = (s0, Inr v)
            \<and> trace s0 = trace s @ [EvCleanup e f] @ tc
            \<and> (\<forall>ev \<in> set tc. (\<forall>f'. ev \<noteq> EvCleanup e f') \<and> ev \<noteq> EvUnlink (LEffect e))
            \<and> s2' = (unlink (LEffect e) (getters (e_capture x)) s0)
                      \<lparr>effects := (effects s0)(e \<mapsto> x\<lparr>e_deleted := True\<rparr>)\<rparr>
            \<and> trace s2' = trace s0 @ [EvUnlink (LEffect e)]"
    using st(1-3,5,6) neg by (intro exI[of _ s0] exI[of _ v] exI[of _ tc] conjI)
  show d: "effects s2' e = Some (x\<lparr>e_deleted := True\<rparr>)"
    by (simp add: st(5))
  then show "effect_update e s2' = (s2', Inr False)"
    by (rule effect_update_deleted) simp
  from effect_remove_props[OF assms(1,2) r] show "\<forall>g. LEffect e \<notin> set (listenersOf s2' g)"
    by simp
qed

theorem effect_cleanup_lifecycle_witness:
  "wf tidy_state
   \<and> map_option e_clear (effects tidy_state 0) = Some (VFun 0)
   \<and> map_option e_deleted (effects tidy_state 0) = Some False
   \<and> snd (effect_update 0 tidy_state) = Inr False
   \<and> pending (fst (effect_update 0 tidy_state)) 0 = Some (VNum 5)
   \<and> trace (fst (effect_update 0 tidy_state)) = trace tidy_state @
       [EvCleanup 0 0, EvWrite 0 (VNum 5), EvUnlink (LEffect 0), EvRun (LEffect 0),
        EvRead (GRef 0) (VNum 1), EvLink (LEffect 0)]
   \<and> map_option e_clear (effects (fst (effect_update 0 tidy_state)) 0) = Some (VFun 1)
   \<and> snd (effect_remove 0 (fst (effect_update 0 tidy_state))) = Inr ()
   \<and> trace (fst (effect_remove 0 (fst (effect_update 0 tidy_state))))
       = trace (fst (effect_update 0 tidy_state)) @ [EvCleanup 0 1, EvWrite 0 (VNum 5), EvUnlink (LEffect 0)]
   \<and> snd (effect_remove 0 tidy_state) = Inr ()
   \<and> trace (fst (effect_remove 0 tidy_state)) = trace tidy_state @
       [EvCleanup 0 0, EvWrite 0 (VNum 5), EvUnlink (LEffect 0)]
   \<and> map_option e_deleted (effects (fst (effect_remove 0 tidy_state)) 0) = Some True
   \<and> effect_update 0 (fst (effect_remove 0 tidy_state)) = (fst (effect_remove 0 tidy_state), Inr False)"
proof -
  have b: "effect_remove 0 tidy_state = (fst (effect_remove 0 tidy_state), Inr ())"
    using tidy_update(6) by (metis prod.collapse)
  have c: "e_clear \<lparr>e_fn = GetValue (GRef 0) (\<lambda>v. MkFun (SetValue 0 (VNum 5) (Return VUndef)) Return),
      e_capture = \<lparr>getters = [GRef 0], setters = []\<rparr>, e_clear = VFun 0, e_deleted = False\<rparr> = VFun 0"
    by simp
  from effect_cleanup_lifecycle[OF wf_tidy tidy_nodes(1) c,
      of "fst (effect_update 0 tidy_state)" False "fst (effect_remove 0 tidy_state)" "()"] b
  have "effect_update 0 (fst (effect_remove 0 tidy_state)) = (fst (effect_remove 0 tidy_state), Inr False)"
    by blast
  then show ?thesis
    using wf_tidy tidy_nodes(1) tidy_update by simp
qed




text \<open>
  C10, as the claim states it, fails for a committed value that is not \<open>===\<close> itself:
  with \<open>r = ref(NaN)\<close>, after \<open>r.value = 2; r.value = NaN\<close> the pending value is \<open>NaN\<close>,
  not 2, and the flush commits \<open>NaN\<close>.
\<close>

theorem write_back_nan:
  "committed nan_back_state 0 = Some VNaN
   \<and> pending nan_back_state 0 = Some VNaN
   \<and> trace nan_back_state = [EvWrite 0 (VNum 2), EvWrite 0 VNaN]
   \<and> map_option (\<lambda>x. trace (fst x)) (updateStates 1 nan_back_state)
       = Some (trace nan_back_state @ [EvCommit 0 VNaN])
   \<and> map_option (\<lambda>x. committed (fst x) 0) (updateStates 1 nan_back_state) = Some (Some VNaN)"
  by (simp add: nan_back_state_def nan_back_def init_def ctor_defs flush_defs committed_def
      pending_def)

text \<open>
  C10, amended.  From a well-formed state, for a leaf with a committed value \<open>c\<close> that
  is \<open>===\<close> itself, after the write of \<open>a\<close>, which is not \<open>===\<close> \<open>c\<close>, and then the write
  of \<open>c\<close>: the second write only records the leaf in the setters of the current
  capture; it changes neither the leaf nor the dirty set nor the schedule nor the
  log; the pending value is still \<open>a\<close> and the leaf is still dirty.  The loop over
  the snapshot, with which the flush starts and which always returns, commits \<open>a\<close>,
  once; so does the first round when it returns; in a flush that returns the first
  commit of the leaf is this one, and when no function evaluated during the flush
  writes the leaf it is the only one and the flush ends with \<open>a\<close> committed.
\<close>

theorem write_back_keeps_pending:
  assumes "wf s" and "committed s r = Some c" and "strict_eq c c" and "\<not> strict_eq a c"
    and "ref_set r a s = Some s1" and "ref_set r c s1 = Some s2"
  shows "s2 = capture_set r s1
       \<and> pending s2 r = Some a \<and> committed s2 r = Some c \<and> r \<in> set (dirtyStates s2)
       \<and> refs s2 = refs s1 \<and> dirtyStates s2 = dirtyStates s1 \<and> timers s2 = timers s1
       \<and> currentUpdate s2 = currentUpdate s1 \<and> trace s2 = trace s1
       \<and> committed (snd (commitLoop (dirtyStates s2) []
            (s2\<lparr>currentUpdate := False, dirtyStates := []\<rparr>))) r = Some a
       \<and> trace (snd (commitLoop (dirtyStates s2) []
            (s2\<lparr>currentUpdate := False, dirtyStates := []\<rparr>)))
            = trace s2 @ commit_events s2 (dirtyStates s2)
       \<and> filter (commit_of r) (commit_events s2 (dirtyStates s2)) = [EvCommit r a]
       \<and> (round fuel (s2\<lparr>currentUpdate := False\<rparr>) = Some (s3, r3) \<longrightarrow>
            committed s3 r = Some a \<and>
            (\<exists>d. trace s3 = trace s2 @ d \<and> filter (commit_of r) d = [EvCommit r a]))
       \<and> (updateStates fuel s2 = Some (s', res) \<longrightarrow>
            (\<exists>d d'. trace s' = trace s2 @ d \<and> filter (commit_of r) d = EvCommit r a # d' \<and>
               ((\<forall>w. EvWrite r w \<notin> set d) \<longrightarrow> d' = [] \<and> committed s' r = Some a)))"
proof -
  note o1 = ref_set_obs[OF assms(5) assms(2)]
  have w1: "wf s1" using ref_set_ext(2)[OF assms(5) assms(1)] .
  have w2: "wf s2" using ref_set_ext(2)[OF assms(6) w1] .
  have c1: "committed s1 r = Some c" using assms(2) by (simp add: o1)
  note o2 = ref_set_obs[OF assms(6) c1]
  have s2: "s2 = capture_set r s1" using o2(6)[OF assms(3)] .
  have c2: "committed s2 r = Some c" using c1 by (simp add: o2)
  have p1: "pending s1 r = Some a" using assms(4) by (simp add: o1)
  have p2: "pending s2 r = Some a" using p1 assms(3) by (simp add: o2)
  have d1: "r \<in> set (dirtyStates s1)" using assms(4) by (simp add: o1)
  have same: "refs s2 = refs s1 \<and> dirtyStates s2 = dirtyStates s1 \<and> timers s2 = timers s1
       \<and> currentUpdate s2 = currentUpdate s1 \<and> trace s2 = trace s1"
    by (simp add: s2)
  have d2: "r \<in> set (dirtyStates s2)" using d1 same by simp
  have n: "\<not> strict_eq c a" using assms(4) by (simp add: strict_eq_sym)
  have rd: "committed s3 r = Some a \<and>
            (\<exists>d. trace s3 = trace s2 @ d \<and> filter (commit_of r) d = [EvCommit r a])"
    if "round fuel (s2\<lparr>currentUpdate := False\<rparr>) = Some (s3, r3)"
    using first_round_commits[OF w2 d2 p2 c2 n that] by blast
  have fl: "\<exists>d d'. trace s' = trace s2 @ d \<and> filter (commit_of r) d = EvCommit r a # d' \<and>
               ((\<forall>w. EvWrite r w \<notin> set d) \<longrightarrow> d' = [] \<and> committed s' r = Some a)"
    if "updateStates fuel s2 = Some (s', res)"
    using flush_commits[OF w2 d2 p2 c2 n that] by blast
  show ?thesis
    using s2 c2 p2 d2 same dirty_leaf_flush[OF w2 d2 p2 c2 n] rd fl by blast
qed

theorem write_back_keeps_pending_witness:
  "wf demo_state \<and> committed demo_state 0 = Some (VNum 1)
   \<and> strict_eq (VNum 1) (VNum 1) \<and> \<not> strict_eq (VNum 2) (VNum 1)
   \<and> ref_set 0 (VNum 2) demo_state = Some (written 0 (VNum 2) demo_state)
   \<and> ref_set 0 (VNum 1) (written 0 (VNum 2) demo_state)
        = Some (written 0 (VNum 1) (written 0 (VNum 2) demo_state))
   \<and> pending (written 0 (VNum 1) (written 0 (VNum 2) demo_state)) 0 = Some (VNum 2)
   \<and> 0 \<in> set (dirtyStates (written 0 (VNum 1) (written 0 (VNum 2) demo_state)))
   \<and> trace (written 0 (VNum 1) (written 0 (VNum 2) demo_state))
        = trace (written 0 (VNum 2) demo_state)
   \<and> map_option snd (updateStates 3 (written 0 (VNum 1) (written 0 (VNum 2) demo_state)))
        = Some (Inr ())
   \<and> map_option (\<lambda>x. trace (fst x))
        (updateStates 3 (written 0 (VNum 1) (written 0 (VNum 2) demo_state)))
       = Some (trace (written 0 (VNum 1) (written 0 (VNum 2) demo_state)) @
         [EvCommit 0 (VNum 2), EvUnlink (LComputed 0), EvRun (LComputed 0),
          EvRead (GRef 0) (VNum 2), EvLink (LComputed 0), EvCleanup 0 0, EvUnlink (LEffect 0),
          EvRun (LEffect 0), EvRead (GComputed 0) (VNum 2), EvLink (LEffect 0)])
   \<and> map_option (\<lambda>x. committed (fst x) 0)
        (updateStates 3 (written 0 (VNum 1) (written 0 (VNum 2) demo_state))) = Some (Some (VNum 2))"
proof -
  have n: "strict_eq (VNum 1) (VNum 1)" "\<not> strict_eq (VNum 2) (VNum 1)"
    by (simp_all add: strict_eq_def)
  from write_back_keeps_pending[OF wf_demo demo_committed n demo_written(1) demo_written(2)]
  have "pending (written 0 (VNum 1) (written 0 (VNum 2) demo_state)) 0 = Some (VNum 2)
    \<and> 0 \<in> set (dirtyStates (written 0 (VNum 1) (written 0 (VNum 2) demo_state)))
    \<and> trace (written 0 (VNum 1) (written 0 (VNum 2) demo_state))
        = trace (written 0 (VNum 2) demo_state)"
    by blast
  then show ?thesis
    using wf_demo demo_committed n demo_written demo_write_back(2-4) by simp
qed



text \<open>
  C7, as the claim states it, fails when \<open>fn\<close> itself calls \<open>collect\<close>: in
  \<open>collect(() => { collect(() => undefined); ref(1) })\<close> the inner call leaves the
  registration target \<open>null\<close>, not the lists of the outer call, so the leaf
  constructed afterwards (the counter \<open>refId\<close> goes from 0 to 1) is recorded nowhere and
  the outer call returns \<open>null\<close> for its three lists.
\<close>

theorem nested_collect_loses_target:
  "snd (collect (run (Collect (Return VUndef)
          (\<lambda>ret rs cs es. NewRef (VNum 1) (\<lambda>r. Return VUndef)))) init)
     = Inr (VUndef, None, None, None)
   \<and> refId init = 0
   \<and> refId (fst (collect (run (Collect (Return VUndef)
          (\<lambda>ret rs cs es. NewRef (VNum 1) (\<lambda>r. Return VUndef)))) init)) = 1
   \<and> currentRefs (fst (collect (run (Return VUndef))
          (init\<lparr>currentRefs := Some [], currentComputes := Some [], currentEffects := Some []\<rparr>)))
     = None"
  by (simp add: init_def collect_def ctor_defs push_opt_def)

text \<open>
  C7, amended.  \<open>collect(fn)\<close> leaves the registration target absent (\<open>null\<close>) when it
  exits, on the exceptional exit too, which is the prior target only when none was
  installed; it throws what \<open>fn\<close> throws.  When \<open>fn\<close> makes no call of \<open>collect\<close> and
  returns, \<open>collect(fn)\<close> returns the result of \<open>fn\<close> with three lists, which hold the
  nodes constructed during \<open>fn\<close> by \<open>ref\<close>, \<open>computed\<close> and \<open>effect\<close>: the leaves and the
  derived signals in the order of construction, each effect once in the order in
  which the constructors completed.  When \<open>fn\<close> is a call of \<open>collect\<close> followed by
  calls that are not, and returns, the three lists that \<open>collect(fn)\<close> returns are
  \<open>null\<close>: nothing constructed after the nested call is recorded.
\<close>

theorem collect_resets_and_records:
  "currentRefs (fst (collect (run fn) s)) = None
   \<and> currentComputes (fst (collect (run fn) s)) = None
   \<and> currentEffects (fst (collect (run fn) s)) = None
   \<and> (snd (run fn (s\<lparr>currentRefs := Some [], currentComputes := Some [],
                        currentEffects := Some []\<rparr>)) = Inl e
        \<longrightarrow> snd (collect (run fn) s) = Inl e)
   \<and> (snd (run fn (s\<lparr>currentRefs := Some [], currentComputes := Some [],
                        currentEffects := Some []\<rparr>)) = Inr ret'
        \<longrightarrow> (\<exists>rs' cs' es'. snd (collect (run fn) s) = Inr (ret', rs', cs', es')))
   \<and> (collect_free fn \<and> collect (run fn) s = (s', Inr (ret, rs, cs, es)) \<longrightarrow>
        snd (run fn (s\<lparr>currentRefs := Some [], currentComputes := Some [],
                        currentEffects := Some []\<rparr>)) = Inr ret
        \<and> rs = Some [refId s..<refId s'] \<and> cs = Some [computedId s..<computedId s']
        \<and> (\<exists>d. trace s' = trace s @ d \<and> es = Some (linked_effects d))
        \<and> map_option mset es = Some (mset [effectId s..<effectId s']))
   \<and> ((\<forall>ret' rs' cs' es'. collect_free (k ret' rs' cs' es'))
        \<and> collect (run (Collect fn k)) s = (s', Inr (ret, rs, cs, es)) \<longrightarrow>
        rs = None \<and> cs = None \<and> es = None)"
proof -
  define s0 where "s0 = s\<lparr>currentRefs := Some [], currentComputes := Some [], currentEffects := Some []\<rparr>"
  obtain s2 r where r: "run fn s0 = (s2, r)" by (cases "run fn s0")
  have fld: "currentRefs (fst (collect (run fn) s)) = None
   \<and> currentComputes (fst (collect (run fn) s)) = None
   \<and> currentEffects (fst (collect (run fn) s)) = None"
    using r by (simp add: collect_def Let_def s0_def[symmetric] split: sum.splits)
  have thr: "snd (run fn s0) = Inl e \<longrightarrow> snd (collect (run fn) s) = Inl e"
    using r by (simp add: collect_def Let_def s0_def[symmetric] split: sum.splits)
  have ret: "snd (run fn s0) = Inr ret'
        \<longrightarrow> (\<exists>rs' cs' es'. snd (collect (run fn) s) = Inr (ret', rs', cs', es'))"
    using r by (simp add: collect_def Let_def s0_def[symmetric] split: sum.splits)
  have rec: "snd (run fn s0) = Inr ret
        \<and> rs = Some [refId s..<refId s'] \<and> cs = Some [computedId s..<computedId s']
        \<and> (\<exists>d. trace s' = trace s @ d \<and> es = Some (linked_effects d))
        \<and> map_option mset es = Some (mset [effectId s..<effectId s'])"
    if cf: "collect_free fn" and c: "collect (run fn) s = (s', Inr (ret, rs, cs, es))"
  proof -
    have a: "r = Inr ret" "currentRefs s2 = rs" "currentComputes s2 = cs"
      "currentEffects s2 = es"
      "s' = s2\<lparr>currentRefs := None, currentComputes := None, currentEffects := None\<rparr>"
      using c r by (auto simp: collect_def Let_def s0_def[symmetric] split: sum.splits)
    have tk: "targets_kept s0 s2" using run_targets[OF cf, of s0] r by simp
    then obtain rs' cs' es' where l: "rs = Some rs'" "cs = Some cs'" "es = Some es'"
      unfolding targets_kept_def a(2-4)[symmetric] by (auto simp: s0_def)
    have rr: "recorded s0 s2" using run_recorded r a(1) by blast
    obtain d where d: "trace s2 = trace s0 @ d"
        "mset (linked_effects d) = mset [effectId s0..<effectId s2]"
        "\<forall>l'. currentEffects s2 = Some l' \<longrightarrow>
           (\<exists>l. currentEffects s0 = Some l \<and> l' = l @ linked_effects d)"
      using rr unfolding recorded_def by blast
    have es: "es' = linked_effects d" using d(3) a(4) l(3) by (simp add: s0_def)
    have "rs' = [refId s0..<refId s2]" "cs' = [computedId s0..<computedId s2]"
      using rr a(2,3) l unfolding recorded_def by (auto simp: s0_def)
    then show ?thesis
      using d(1,2) es l r a(1) by (auto simp: a(5) s0_def)
  qed
  have nest: "rs = None \<and> cs = None \<and> es = None"
    if cf: "\<forall>ret' rs' cs' es'. collect_free (k ret' rs' cs' es')"
      and c: "collect (run (Collect fn k)) s = (s', Inr (ret, rs, cs, es))"
  proof -
    obtain s3 r3 where r3: "run (Collect fn k) s0 = (s3, r3)" by (cases "run (Collect fn k) s0")
    have a: "r3 = Inr ret" "currentRefs s3 = rs" "currentComputes s3 = cs"
      "currentEffects s3 = es"
      using c r3 by (auto simp: collect_def Let_def s0_def[symmetric] split: sum.splits)
    obtain si ri where ci: "collect (run fn) s0 = (si, ri)" by (cases "collect (run fn) s0")
    then obtain ret1 rs1 cs1 es1 where ri: "ri = Inr (ret1, rs1, cs1, es1)"
      using r3 a(1) by (cases ri) auto
    have k: "run (k ret1 rs1 cs1 es1) si = (s3, r3)"
      using r3 ci ri by simp
    have none: "currentRefs si = None" "currentComputes si = None" "currentEffects si = None"
      using ci by (auto simp: collect_def Let_def split: prod.splits sum.splits)
    have "targets_kept si s3"
      using run_targets[of "k ret1 rs1 cs1 es1" si] cf k by simp
    then show ?thesis
      using none a by (simp add: targets_kept_def)
  qed
  show ?thesis
    using fld thr ret rec nest unfolding s0_def by blast
qed

theorem collect_resets_and_records_witness:
  "collect_free (NewRef (VNum 1) (\<lambda>a. NewComputed (GetValue (GRef a) Return) (\<lambda>b.
       NewEffect (NewEffect (Return VUndef) (Return VUndef)) (Return VUndef))))
   \<and> collect (run (NewRef (VNum 1) (\<lambda>a. NewComputed (GetValue (GRef a) Return) (\<lambda>b.
       NewEffect (NewEffect (Return VUndef) (Return VUndef)) (Return VUndef))))) init
     = (fst (collect (run (NewRef (VNum 1) (\<lambda>a. NewComputed (GetValue (GRef a) Return) (\<lambda>b.
       NewEffect (NewEffect (Return VUndef) (Return VUndef)) (Return VUndef))))) init),
        Inr (VUndef, Some [0], Some [0], Some [1, 0]))
   \<and> Some [0] = Some [refId init..<refId (fst (collect (run (NewRef (VNum 1) (\<lambda>a.
       NewComputed (GetValue (GRef a) Return) (\<lambda>b.
       NewEffect (NewEffect (Return VUndef) (Return VUndef)) (Return VUndef))))) init))]
   \<and> map_option mset (Some [1, 0]) = Some (mset [effectId init..<effectId (fst (collect (run (NewRef (VNum 1) (\<lambda>a.
       NewComputed (GetValue (GRef a) Return) (\<lambda>b.
       NewEffect (NewEffect (Return VUndef) (Return VUndef)) (Return VUndef))))) init))])
   \<and> currentRefs (fst (collect (run (NewRef (VNum 1) (\<lambda>a. NewComputed (GetValue (GRef a) Return) (\<lambda>b.
       NewEffect (NewEffect (Return VUndef) (Return VUndef)) (Return VUndef))))) init)) = None
   \<and> snd (collect (run (Collect (Return VUndef)
          (\<lambda>ret rs cs es. NewRef (VNum 1) (\<lambda>r. Return VUndef)))) init)
        = Inr (VUndef, None, None, None)"
proof -
  have cf: "collect_free (NewRef (VNum 1) (\<lambda>a. NewComputed (GetValue (GRef a) Return) (\<lambda>b.
       NewEffect (NewEffect (Return VUndef) (Return VUndef)) (Return VUndef))))"
    by simp
  have s: "snd (collect (run (NewRef (VNum 1) (\<lambda>a. NewComputed (GetValue (GRef a) Return) (\<lambda>b.
       NewEffect (NewEffect (Return VUndef) (Return VUndef)) (Return VUndef))))) init)
     = Inr (VUndef, Some [0], Some [0], Some [1, 0])"
    by (simp add: demo_defs)
  then have c: "collect (run (NewRef (VNum 1) (\<lambda>a. NewComputed (GetValue (GRef a) Return) (\<lambda>b.
       NewEffect (NewEffect (Return VUndef) (Return VUndef)) (Return VUndef))))) init
     = (fst (collect (run (NewRef (VNum 1) (\<lambda>a. NewComputed (GetValue (GRef a) Return) (\<lambda>b.
       NewEffect (NewEffect (Return VUndef) (Return VUndef)) (Return VUndef))))) init),
        Inr (VUndef, Some [0], Some [0], Some [1, 0]))"
    by (metis prod.collapse)
  have n: "snd (collect (run (Collect (Return VUndef)
          (\<lambda>ret rs cs es. NewRef (VNum 1) (\<lambda>r. Return VUndef)))) init)
        = Inr (VUndef, None, None, None)"
    by (simp add: init_def collect_def ctor_defs push_opt_def)
  from collect_resets_and_records[of "NewRef (VNum 1) (\<lambda>a. NewComputed (GetValue (GRef a) Return) (\<lambda>b.
       NewEffect (NewEffect (Return VUndef) (Return VUndef)) (Return VUndef)))" init
      UserError VUndef
      "fst (collect (run (NewRef (VNum 1) (\<lambda>a. NewComputed (GetValue (GRef a) Return) (\<lambda>b.
       NewEffect (NewEffect (Return VUndef) (Return VUndef)) (Return VUndef))))) init)"
      VUndef "Some [0]" "Some [0]" "Some [1, 0]"] c cf n
  show ?thesis by blast
qed

end
